(* ===== verification/Recon_Prelude.thy ===== *)
theory Recon_Prelude
  imports Complex_Main "HOL-Library.AList" "HOL-Library.Char_ord" "HOL-Library.List_Lexorder"
    "HOL-Library.Product_Lexorder" "HOL-Library.Multiset" "HOL-Library.Sublist"
begin

text \<open>
  Shared vocabulary of the development.

  \<^item> Go's \<open>int64\<close> and \<open>int\<close> are integers kept in range by \<open>i64\<close>, the two's-complement
    wrap-around written out; \<open>abs64\<close> and its relatives in the components apply it wherever the code
    computes.
  \<^item> A Go map is an association list: its order stands for the (unspecified) iteration order, and
    the components show that nothing observable depends on it. A missing inner map reads as the
    empty one, as indexing a nil map does.
  \<^item> A Go \<open>error\<close> is a value of \<open>goerr\<close>; a call that returns \<open>(T, error)\<close> is a \<open>result\<close>.
  \<^item> Instants and durations are nanoseconds.
\<close>

named_theorems i64_simps "rewriting of the 64-bit wrap-around inside its range"
named_theorems gomap_simps "lookups in updated Go maps"

subsection \<open>64-bit integers\<close>

definition i64 :: "int \<Rightarrow> int" where
  "i64 x = (x + 2 ^ 63) mod 2 ^ 64 - 2 ^ 63"

definition in_i64 :: "int \<Rightarrow> bool" where
  "in_i64 x \<longleftrightarrow> - (2 ^ 63) \<le> x \<and> x < 2 ^ 63"

lemma i64_id [i64_simps]: "in_i64 x \<Longrightarrow> i64 x = x"
  by (simp add: i64_def in_i64_def)

lemma in_i64_i64 [simp]: "in_i64 (i64 x)"
  using pos_mod_bound [of "2 ^ 64" "x + 2 ^ 63"] pos_mod_sign [of "2 ^ 64" "x + 2 ^ 63"]
  unfolding i64_def in_i64_def by auto

lemma i64_idem [simp]: "i64 (i64 x) = i64 x"
  by (simp add: i64_id)

text \<open>A positive amount below \<open>2 ^ 63\<close> and the difference of two of them stay in range.\<close>

definition amount_ok :: "int \<Rightarrow> bool" where
  "amount_ok x \<longleftrightarrow> 0 < x \<and> x < 2 ^ 63"

lemma amount_ok_pos [simp]: "amount_ok x \<Longrightarrow> 0 < x"
  by (simp add: amount_ok_def)

lemma i64_amount [i64_simps]: "amount_ok x \<Longrightarrow> i64 x = x"
  by (simp add: amount_ok_def in_i64_def i64_id)

lemma i64_diff_amount [i64_simps]: "amount_ok x \<Longrightarrow> amount_ok y \<Longrightarrow> i64 (x - y) = x - y"
  by (rule i64_id) (auto simp: amount_ok_def in_i64_def)

lemma i64_uminus_diff_amount [i64_simps]:
  "amount_ok x \<Longrightarrow> amount_ok y \<Longrightarrow> i64 (y - x) = y - x"
  by (rule i64_diff_amount)

text \<open>\<open>abs64\<close>: the most negative value is its own absolute value.\<close>

definition abs64 :: "int \<Rightarrow> int" where
  "abs64 x = (if x < 0 then i64 (- x) else x)"

lemma abs64_abs: "- (2 ^ 63) < x \<Longrightarrow> x < 2 ^ 63 \<Longrightarrow> abs64 x = \<bar>x\<bar>"
  by (simp add: abs64_def i64_id in_i64_def)

lemma abs64_diff_amount [i64_simps]:
  "amount_ok x \<Longrightarrow> amount_ok y \<Longrightarrow> abs64 (x - y) = \<bar>x - y\<bar>"
  by (rule abs64_abs) (auto simp: amount_ok_def)

subsection \<open>Instants, durations, errors\<close>

type_synonym Time = int
type_synonym Duration = int

text \<open>The zero \<open>time.Time\<close>: 1 January of year 1, counted from the Unix epoch.\<close>

definition time_zero :: Time where
  "time_zero = - 62135596800 * 10 ^ 9"

abbreviation IsZero :: "Time \<Rightarrow> bool" where
  "IsZero t \<equiv> t = time_zero"

text \<open>
  Sentinel errors, plain messages, an error made by a function of the standard library (named by that
  function), \<open>fmt.Errorf\<close> with a wrapped error between two texts, and \<open>errors.Join\<close>.
\<close>

datatype goerr =
    ErrInvalidLeg | ErrNotFound | ErrBreakResolved | ErrCanceled
  | ErrText string
  | ErrLib string
  | Errorf string goerr string
  | Joined "goerr list"

fun err_is :: "goerr \<Rightarrow> goerr \<Rightarrow> bool" where
  "err_is (Errorf a e b) t \<longleftrightarrow> Errorf a e b = t \<or> err_is e t"
| "err_is (Joined es) t \<longleftrightarrow> Joined es = t \<or> (\<exists>e \<in> set es. err_is e t)"
| "err_is e t \<longleftrightarrow> e = t"

type_synonym 'a result = "goerr + 'a"

subsection \<open>Go maps\<close>

type_synonym ('k, 'v) gomap = "('k \<times> 'v) list"

abbreviation gm_get :: "('k, 'v) gomap \<Rightarrow> 'k \<Rightarrow> 'v option" where
  "gm_get m k \<equiv> map_of m k"

abbreviation gm_put :: "'k \<Rightarrow> 'v \<Rightarrow> ('k, 'v) gomap \<Rightarrow> ('k, 'v) gomap" where
  "gm_put k v m \<equiv> AList.update k v m"

abbreviation gm_del :: "'k \<Rightarrow> ('k, 'v) gomap \<Rightarrow> ('k, 'v) gomap" where
  "gm_del k m \<equiv> AList.delete k m"

abbreviation gm_ok :: "('k, 'v) gomap \<Rightarrow> bool" where
  "gm_ok m \<equiv> distinct (map fst m)"

text \<open>Reading a map of slices or of maps: the zero value is the empty one.\<close>

definition gm_inner :: "('k, 'v list) gomap \<Rightarrow> 'k \<Rightarrow> 'v list" where
  "gm_inner m k = (case gm_get m k of None \<Rightarrow> [] | Some v \<Rightarrow> v)"

lemma gm_get_put [gomap_simps, simp]: "gm_get (gm_put k v m) k' = (if k' = k then Some v else gm_get m k')"
  by (simp add: update_conv')

lemma gm_get_del [gomap_simps, simp]: "gm_get (gm_del k m) k' = (if k' = k then None else gm_get m k')"
  by (simp add: delete_conv')

lemma gm_inner_put [gomap_simps, simp]:
  "gm_inner (gm_put k v m) k' = (if k' = k then v else gm_inner m k')"
  by (simp add: gm_inner_def)

lemma gm_inner_del [gomap_simps, simp]:
  "gm_inner (gm_del k m) k' = (if k' = k then [] else gm_inner m k')"
  by (simp add: gm_inner_def)

lemma gm_ok_put [simp]: "gm_ok m \<Longrightarrow> gm_ok (gm_put k v m)"
  by (rule distinct_update)

lemma gm_ok_del [simp]: "gm_ok m \<Longrightarrow> gm_ok (gm_del k m)"
  by (rule distinct_delete)

lemma gm_vals: "gm_ok m \<Longrightarrow> set (map snd m) = ran (gm_get m)"
  by (simp add: ran_distinct)

lemma gm_mem: "gm_ok m \<Longrightarrow> (k, v) \<in> set m \<longleftrightarrow> gm_get m k = Some v"
  by simp

lemma gm_empty_iff: "gm_get m = Map.empty \<longleftrightarrow> m = []"
  by (cases m) (auto simp: fun_eq_iff split: if_splits)

text \<open>Two association lists with the same lookups hold the same entries, in some order.\<close>

lemma gm_mset_eq:
  assumes "gm_ok m" "gm_ok n" "gm_get m = gm_get n"
  shows "mset m = mset n"
proof -
  have "(k, v) \<in> set m \<longleftrightarrow> (k, v) \<in> set n" for k v
    by (simp only: gm_mem [OF assms(1)] gm_mem [OF assms(2)] assms(3))
  then have "set m = set n"
    by auto
  moreover have "distinct m" "distinct n"
    using assms by (auto simp: distinct_map)
  ultimately show ?thesis
    by (simp add: set_eq_iff_mset_eq_distinct)
qed

end
