(* ===== verification/Go_Float.thy ===== *)
theory Go_Float
  imports Recon_Prelude "HOL-Library.Log_Nat"
begin

text \<open>
  Go's \<open>float64\<close> as the rational numbers it can hold. An IEEE operation is the exact rational
  operation followed by \<open>f64\<close>, rounding to the nearest multiple of a unit in the last place with
  53 significant bits, ties to even. The exponent is not bounded: every number the program computes
  (amounts below \<open>2 ^ 63\<close>, ratios, confidences, basis points) lies far inside the range of normal
  numbers, so neither overflow nor subnormal numbers arise. Products and sums are rounded one by
  one, as on amd64, where the compiler does not fuse them.
\<close>

subsection \<open>Rounding to an integer\<close>

definition round_even :: "rat \<Rightarrow> int" where
  "round_even x =
     (let n = \<lfloor>x\<rfloor>; d = x - of_int n
      in if d < 1 / 2 \<or> (d = 1 / 2 \<and> even n) then n else n + 1)"

lemma round_even_of_int [simp]: "round_even (of_int n) = n"
  by (simp add: round_even_def)

lemma round_even_bounds: "of_int (round_even x) - 1 / 2 \<le> x \<and> x \<le> of_int (round_even x) + 1 / 2"
proof -
  have "of_int \<lfloor>x\<rfloor> \<le> x" "x < of_int \<lfloor>x\<rfloor> + 1" by linarith+
  then show ?thesis unfolding round_even_def Let_def by (auto; linarith)
qed

lemma round_even_mono: "x \<le> y \<Longrightarrow> round_even x \<le> round_even y"
proof -
  assume le: "x \<le> y"
  then have fl: "\<lfloor>x\<rfloor> \<le> \<lfloor>y\<rfloor>" by (rule floor_mono)
  show ?thesis
  proof (cases "\<lfloor>x\<rfloor> = \<lfloor>y\<rfloor>")
    case True
    with le show ?thesis by (auto simp: round_even_def Let_def)
  next
    case False
    with fl have "\<lfloor>x\<rfloor> + 1 \<le> \<lfloor>y\<rfloor>" by simp
    then show ?thesis by (auto simp: round_even_def Let_def)
  qed
qed

lemma round_even_uminus: "round_even (- x) = - round_even x"
proof (cases "x = of_int \<lfloor>x\<rfloor>")
  case True
  then show ?thesis by (metis of_int_minus round_even_of_int)
next
  case False
  have fl: "\<lfloor>- x\<rfloor> = - \<lfloor>x\<rfloor> - 1"
    using False by (metis add.inverse_inverse ceiling_altdef ceiling_def diff_minus_eq_add
        minus_add_distrib uminus_add_conv_diff)
  show ?thesis
    unfolding round_even_def Let_def fl by (auto simp: field_simps)
qed

subsection \<open>The exponent of a number\<close>

definition fexp :: "rat \<Rightarrow> int" where
  "fexp x =
     (let (n, d) = quotient_of \<bar>x\<bar>; e = bitlen n - bitlen d
      in if 2 powi e \<le> \<bar>x\<bar> then e else e - 1)"

lemma bitlen_pos: "0 < n \<Longrightarrow> 1 \<le> bitlen n"
  by (simp add: bitlen_def compute_floorlog)

lemma bitlen_powi:
  assumes "0 < n"
  shows "2 powi (bitlen n - 1) \<le> (of_int n :: rat)" and "(of_int n :: rat) < 2 powi bitlen n"
proof -
  have "2 ^ nat (bitlen n - 1) \<le> n" "n < 2 ^ nat (bitlen n)"
    using bitlen_bounds [OF assms] by auto
  then have "(of_int (2 ^ nat (bitlen n - 1)) :: rat) \<le> of_int n"
      "(of_int n :: rat) < of_int (2 ^ nat (bitlen n))"
    by (simp_all only: of_int_le_iff of_int_less_iff)
  then show "2 powi (bitlen n - 1) \<le> (of_int n :: rat)" "(of_int n :: rat) < 2 powi bitlen n"
    using bitlen_pos [OF assms] by (simp_all add: power_int_def)
qed

lemma powi2_less_iff: "(2 :: rat) powi a < 2 powi b \<longleftrightarrow> a < b"
  by (meson linorder_not_le one_le_numeral one_less_numeral_iff power_int_increasing
      power_int_strict_increasing semiring_norm(76))

text \<open>\<open>fexp x\<close> is the exponent of the leading bit: \<open>2 ^ e \<le> \<bar>x\<bar> < 2 ^ (e + 1)\<close>.\<close>

lemma fexp_bounds:
  assumes "x \<noteq> 0"
  shows "2 powi fexp x \<le> \<bar>x\<bar>" and "\<bar>x\<bar> < 2 powi (fexp x + 1)"
proof -
  obtain n d where q: "quotient_of \<bar>x\<bar> = (n, d)" by force
  have d: "0 < d" using quotient_of_denom_pos [OF q] .
  have x: "\<bar>x\<bar> = of_int n / of_int d" using quotient_of_div [OF q] .
  have "0 < of_int n / (of_int d :: rat)" using assms by (simp flip: x)
  then have n: "0 < n" using d by (simp add: zero_less_divide_iff)
  let ?e = "bitlen n - bitlen d"
  have lo: "2 powi (?e - 1) \<le> \<bar>x\<bar>"
  proof -
    have "2 powi (?e - 1) * 2 powi bitlen d = (2 :: rat) powi (bitlen n - 1)"
      by (simp flip: power_int_add)
    moreover have "2 powi (?e - 1) * of_int d \<le> 2 powi (?e - 1) * (2 :: rat) powi bitlen d"
      using bitlen_powi(2) [OF d] by (intro mult_left_mono) auto
    ultimately have "2 powi (?e - 1) * of_int d \<le> (of_int n :: rat)"
      using bitlen_powi(1) [OF n] by linarith
    then show ?thesis using d by (simp add: x field_simps)
  qed
  have hi: "\<bar>x\<bar> < 2 powi (?e + 1)"
  proof -
    have "2 powi (?e + 1) * 2 powi (bitlen d - 1) = (2 :: rat) powi bitlen n"
      by (simp flip: power_int_add)
    moreover have "2 powi (?e + 1) * (2 :: rat) powi (bitlen d - 1) \<le> 2 powi (?e + 1) * of_int d"
      using bitlen_powi(1) [OF d] by (intro mult_left_mono) auto
    ultimately have "(of_int n :: rat) < 2 powi (?e + 1) * of_int d"
      using bitlen_powi(2) [OF n] by linarith
    then show ?thesis using d by (simp add: x field_simps)
  qed
  show "2 powi fexp x \<le> \<bar>x\<bar>" and "\<bar>x\<bar> < 2 powi (fexp x + 1)"
    using lo hi by (auto simp: fexp_def q Let_def)
qed

lemma fexp_unique:
  assumes "2 powi e \<le> \<bar>x\<bar>" and "\<bar>x\<bar> < 2 powi (e + 1)"
  shows "fexp x = e"
proof -
  have "0 < (2 :: rat) powi e" by simp
  with assms have "0 < \<bar>x\<bar>" by linarith
  then have "x \<noteq> 0" by simp
  note b = fexp_bounds [OF this]
  have "(2 :: rat) powi fexp x < 2 powi (e + 1)" "(2 :: rat) powi e < 2 powi (fexp x + 1)"
    using b assms by linarith+
  then show ?thesis by (simp add: powi2_less_iff)
qed

lemma fexp_mono: "x \<noteq> 0 \<Longrightarrow> \<bar>x\<bar> \<le> \<bar>y\<bar> \<Longrightarrow> fexp x \<le> fexp y"
proof -
  assume "x \<noteq> 0" "\<bar>x\<bar> \<le> \<bar>y\<bar>"
  moreover from this have "y \<noteq> 0" by auto
  ultimately have "(2 :: rat) powi fexp x < 2 powi (fexp y + 1)"
    using fexp_bounds [of x] fexp_bounds [of y] by linarith
  then show ?thesis by (simp add: powi2_less_iff)
qed

subsection \<open>Rounding to 53 significant bits\<close>

definition f64 :: "rat \<Rightarrow> rat" where
  "f64 x =
     (if x = 0 then 0
      else let u = 2 powi (fexp x - 52) in of_int (round_even (x / u)) * u)"

lemma f64_0 [simp]: "f64 0 = 0"
  by (simp add: f64_def)

lemma fexp_uminus [simp]: "fexp (- x) = fexp x"
  by (simp add: fexp_def)

lemma f64_uminus [simp]: "f64 (- x) = - f64 x"
  by (simp add: f64_def Let_def round_even_uminus flip: minus_divide_left)

text \<open>A number with at most 53 significant bits is not changed.\<close>

lemma f64_exact:
  assumes "\<bar>m\<bar> < 2 ^ 53"
  shows "f64 (of_int m * 2 powi e) = of_int m * 2 powi e"
proof (cases "m = 0")
  case False
  let ?x = "of_int m * 2 powi e :: rat"
  have x0: "?x \<noteq> 0" using False by simp
  have "\<bar>?x\<bar> = of_int \<bar>m\<bar> * 2 powi e" by (simp add: abs_mult)
  also have "\<dots> < 2 powi 53 * 2 powi e"
    using assms by (intro mult_strict_right_mono) (simp_all flip: of_int_less_iff [where 'a = rat])
  also have "\<dots> = 2 powi (53 + e)" by (simp add: power_int_add)
  finally have "(2 :: rat) powi fexp ?x < 2 powi (53 + e)"
    using fexp_bounds(1) [OF x0] by linarith
  then have le: "fexp ?x - 52 \<le> e" by (simp add: powi2_less_iff)
  let ?u = "2 powi (fexp ?x - 52) :: rat"
  define k where "k = nat (e - (fexp ?x - 52))"
  have "e = int k + (fexp ?x - 52)" using le by (simp add: k_def)
  then have "2 powi e = 2 ^ k * ?u" by (metis power_int_add power_int_of_nat zero_neq_numeral)
  then have "?x / ?u = of_int (m * 2 ^ k)" by (simp add: field_simps)
  then have "f64 ?x = of_int (m * 2 ^ k) * ?u" using x0 by (simp only: f64_def Let_def if_False round_even_of_int)
  also have "\<dots> = ?x" using \<open>2 powi e = 2 ^ k * ?u\<close> by simp
  finally show ?thesis .
qed simp

lemma f64_of_int [simp]: "\<bar>m\<bar> < 2 ^ 53 \<Longrightarrow> f64 (of_int m) = of_int m"
  using f64_exact [of m 0] by simp

lemma f64_half: "\<bar>m\<bar> < 2 ^ 52 \<Longrightarrow> f64 (of_int m + 1 / 2) = of_int m + 1 / 2"
  using f64_exact [of "2 * m + 1" "- 1"] by (simp add: field_simps power_int_minus)

text \<open>The rounding error is at most half a unit in the last place.\<close>

lemma f64_error: "\<bar>f64 x - x\<bar> \<le> 2 powi (fexp x - 53)"
proof (cases "x = 0")
  case False
  let ?u = "2 powi (fexp x - 52) :: rat"
  have u: "0 < ?u" by simp
  have "\<bar>of_int (round_even (x / ?u)) - x / ?u\<bar> \<le> 1 / 2"
    using round_even_bounds [of "x / ?u"] by linarith
  then have "\<bar>of_int (round_even (x / ?u)) - x / ?u\<bar> * ?u \<le> 1 / 2 * ?u"
    by (rule mult_right_mono) (use u in simp)
  moreover have "\<bar>of_int (round_even (x / ?u)) - x / ?u\<bar> * ?u = \<bar>f64 x - x\<bar>"
  proof -
    have "f64 x - x = (of_int (round_even (x / ?u)) - x / ?u) * ?u"
      using False u by (simp add: f64_def Let_def left_diff_distrib)
    then show ?thesis using u by (simp add: abs_mult)
  qed
  moreover have "1 / 2 * ?u = 2 powi (fexp x - 53)"
    using power_int_add [of "2 :: rat" "- 1" "fexp x - 52"] by (simp add: power_int_minus)
  ultimately show ?thesis by simp
qed simp

lemma f64_relative_error: "\<bar>f64 x - x\<bar> \<le> \<bar>x\<bar> / 2 ^ 53"
proof (cases "x = 0")
  case False
  have "2 powi (fexp x - 53) = 2 powi fexp x / (2 :: rat) ^ 53"
    by (simp add: power_int_diff)
  also have "\<dots> \<le> \<bar>x\<bar> / 2 ^ 53"
    using fexp_bounds(1) [OF False] by (simp add: divide_right_mono)
  finally show ?thesis using f64_error [of x] by linarith
qed simp

text \<open>Rounding keeps a number inside its binade, up to the next power of two.\<close>

lemma f64_binade:
  assumes "0 < x"
  shows "2 powi fexp x \<le> f64 x" and "f64 x \<le> 2 powi (fexp x + 1)"
proof -
  let ?u = "2 powi (fexp x - 52) :: rat"
  have x: "2 powi fexp x \<le> x" "x < 2 powi (fexp x + 1)"
    using fexp_bounds [of x] assms by auto
  have s: "2 powi fexp x = of_int (2 ^ 52) * ?u" "2 powi (fexp x + 1) = of_int (2 ^ 53) * ?u"
    using power_int_add [of "2 :: rat" 52 "fexp x - 52"] power_int_add [of "2 :: rat" 53 "fexp x - 52"]
    by (simp_all add: add.commute)
  have "of_int (2 ^ 52) \<le> x / ?u" "x / ?u \<le> of_int (2 ^ 53)"
    using x unfolding s by (simp_all add: field_simps)
  then have "2 ^ 52 \<le> round_even (x / ?u)" "round_even (x / ?u) \<le> 2 ^ 53"
    using round_even_mono round_even_of_int by metis+
  then have "of_int (2 ^ 52) * ?u \<le> of_int (round_even (x / ?u)) * ?u"
      "of_int (round_even (x / ?u)) * ?u \<le> of_int (2 ^ 53) * ?u"
    by (auto intro!: mult_right_mono simp only: of_int_le_iff zero_le_power_int)
  then show "2 powi fexp x \<le> f64 x" and "f64 x \<le> 2 powi (fexp x + 1)"
    using assms by (simp_all only: f64_def Let_def s if_False less_irrefl) auto
qed

lemma f64_nonneg: "0 \<le> x \<Longrightarrow> 0 \<le> f64 x"
  by (cases "x = 0") (auto intro: order_trans [OF _ f64_binade(1)])

lemma f64_mono_pos: "0 < x \<Longrightarrow> x \<le> y \<Longrightarrow> f64 x \<le> f64 y"
proof (cases "fexp x = fexp y")
  case True
  assume a: "0 < x" "x \<le> y"
  let ?u = "2 powi (fexp y - 52) :: rat"
  have "x / ?u \<le> y / ?u" using a by (simp add: divide_right_mono)
  then have "of_int (round_even (x / ?u)) * ?u \<le> of_int (round_even (y / ?u)) * ?u"
    by (intro mult_right_mono) (simp_all add: round_even_mono)
  with a True show ?thesis by (simp add: f64_def Let_def)
next
  case False
  assume a: "0 < x" "x \<le> y"
  with False have "fexp x + 1 \<le> fexp y" using fexp_mono [of x y] by force
  then have "(2 :: rat) powi (fexp x + 1) \<le> 2 powi fexp y"
    by (simp add: power_int_increasing)
  with a show ?thesis using f64_binade(2) [of x] f64_binade(1) [of y] by linarith
qed

lemma f64_mono: "x \<le> y \<Longrightarrow> f64 x \<le> f64 y"
proof -
  assume le: "x \<le> y"
  consider "0 < x" | "x \<le> 0" "0 \<le> y" | "y < 0" by linarith
  then show ?thesis
  proof cases
    case 1
    with le show ?thesis by (simp add: f64_mono_pos)
  next
    case 2
    then have "f64 x \<le> 0" using f64_nonneg [of "- x"] by simp
    also have "0 \<le> f64 y" using 2 by (simp add: f64_nonneg)
    finally show ?thesis .
  next
    case 3
    with le f64_mono_pos [of "- y" "- x"] show ?thesis by simp
  qed
qed

subsection \<open>Conversions and \<open>math.Round\<close>\<close>

text \<open>
  \<open>math.Round\<close> rounds half away from zero. Converting a float to \<open>int64\<close> drops the fraction;
  outside the range of \<open>int64\<close> amd64 produces the most negative value.
\<close>

definition math_round :: "rat \<Rightarrow> int" where
  "math_round x = (if x < 0 then - \<lfloor>- x + 1 / 2\<rfloor> else \<lfloor>x + 1 / 2\<rfloor>)"

definition f64_of_int64 :: "int \<Rightarrow> rat" where
  "f64_of_int64 n = f64 (of_int n)"

definition int64_of_f64 :: "rat \<Rightarrow> int" where
  "int64_of_f64 x =
     (let t = (if x < 0 then - \<lfloor>- x\<rfloor> else \<lfloor>x\<rfloor>) in if in_i64 t then t else - (2 ^ 63))"

lemma f64_of_int64_small [simp]: "\<bar>n\<bar> < 2 ^ 53 \<Longrightarrow> f64_of_int64 n = of_int n"
  by (simp add: f64_of_int64_def)

lemma int64_of_f64_of_int: "in_i64 n \<Longrightarrow> int64_of_f64 (of_int n) = n"
  by (simp add: int64_of_f64_def)

lemma math_round_mono: "x \<le> y \<Longrightarrow> math_round x \<le> math_round y"
proof -
  assume le: "x \<le> y"
  consider "0 \<le> x" | "x < 0" "0 \<le> y" | "y < 0" by linarith
  then show ?thesis
  proof cases
    case 1
    with le show ?thesis by (simp add: math_round_def floor_mono)
  next
    case 2
    then have "0 \<le> \<lfloor>- x + 1 / 2\<rfloor>" "0 \<le> \<lfloor>y + 1 / 2\<rfloor>" by linarith+
    then have "- \<lfloor>- x + 1 / 2\<rfloor> \<le> \<lfloor>y + 1 / 2\<rfloor>" by linarith
    with 2 show ?thesis by (simp only: math_round_def if_True if_False not_less [symmetric] simp_thms)
  next
    case 3
    with le show ?thesis by (simp add: math_round_def floor_mono)
  qed
qed

lemma math_round_of_int [simp]: "math_round (of_int n) = n"
  by (simp add: math_round_def) linarith

end
