(* ===== verification/Go_Strings.thy ===== *)
theory Go_Strings
  imports Recon_Prelude
begin

text \<open>
  The parts of Go's \<open>strings\<close>, \<open>strconv\<close> and \<open>fmt\<close> that the program uses. A Go string is a
  sequence of bytes, here a list of 8-bit characters; Go compares strings bytewise, which is the
  lexicographic order of the library.
\<close>

named_theorems gostr_simps "evaluation of the string functions"

subsection \<open>\<open>strings.TrimSpace\<close>\<close>

text \<open>
  White space is the UTF-8 encoding of a code point for which \<open>unicode.IsSpace\<close> holds: six ASCII
  bytes, U+0085, U+00A0, U+1680, U+2000 to U+200A, U+2028, U+2029, U+202F, U+205F and U+3000. No
  encoding is a prefix of another, and decoding at either end of a string finds one of these code
  points exactly when the string begins or ends with its encoding.
\<close>

definition go_spaces :: "string list" where
  "go_spaces =
     [[CHR 0x09], [CHR 0x0A], [CHR 0x0B], [CHR 0x0C], [CHR 0x0D], [CHR 0x20],
      [CHR 0xC2, CHR 0x85], [CHR 0xC2, CHR 0xA0], [CHR 0xE1, CHR 0x9A, CHR 0x80],
      [CHR 0xE2, CHR 0x80, CHR 0x80], [CHR 0xE2, CHR 0x80, CHR 0x81],
      [CHR 0xE2, CHR 0x80, CHR 0x82], [CHR 0xE2, CHR 0x80, CHR 0x83],
      [CHR 0xE2, CHR 0x80, CHR 0x84], [CHR 0xE2, CHR 0x80, CHR 0x85],
      [CHR 0xE2, CHR 0x80, CHR 0x86], [CHR 0xE2, CHR 0x80, CHR 0x87],
      [CHR 0xE2, CHR 0x80, CHR 0x88], [CHR 0xE2, CHR 0x80, CHR 0x89],
      [CHR 0xE2, CHR 0x80, CHR 0x8A], [CHR 0xE2, CHR 0x80, CHR 0xA8],
      [CHR 0xE2, CHR 0x80, CHR 0xA9], [CHR 0xE2, CHR 0x80, CHR 0xAF],
      [CHR 0xE2, CHR 0x81, CHR 0x9F], [CHR 0xE3, CHR 0x80, CHR 0x80]]"

definition space_at :: "string \<Rightarrow> string option" where
  "space_at s = find (\<lambda>p. prefix p s) go_spaces"

lemma space_at_Some:
  assumes "space_at s = Some p"
  shows "prefix p s" and "p \<noteq> []" and "p \<in> set go_spaces"
proof -
  have p: "prefix p s" "p \<in> set go_spaces"
    using assms by (auto simp: space_at_def find_Some_iff)
  moreover have "\<forall>q \<in> set go_spaces. q \<noteq> []" by (simp add: go_spaces_def)
  ultimately show "prefix p s" and "p \<noteq> []" and "p \<in> set go_spaces" by auto
qed

function trim_left :: "string \<Rightarrow> string" where
  "trim_left s = (case space_at s of None \<Rightarrow> s | Some p \<Rightarrow> trim_left (drop (length p) s))"
  by pat_completeness auto
termination
proof (relation "measure length")
  fix s p
  assume "space_at s = Some p"
  from space_at_Some [OF this] show "(drop (length p) s, s) \<in> measure length"
    by (auto simp: prefix_def)
qed simp

declare trim_left.simps [simp del]

definition space_end :: "string \<Rightarrow> string option" where
  "space_end s = find (\<lambda>p. suffix p s) go_spaces"

lemma space_end_Some:
  assumes "space_end s = Some p"
  shows "suffix p s" and "p \<noteq> []"
proof -
  have p: "suffix p s" "p \<in> set go_spaces"
    using assms by (auto simp: space_end_def find_Some_iff)
  moreover have "\<forall>q \<in> set go_spaces. q \<noteq> []" by (simp add: go_spaces_def)
  ultimately show "suffix p s" and "p \<noteq> []" by auto
qed

function trim_right :: "string \<Rightarrow> string" where
  "trim_right s =
     (case space_end s of None \<Rightarrow> s | Some p \<Rightarrow> trim_right (take (length s - length p) s))"
  by pat_completeness auto
termination
proof (relation "measure length")
  fix s p
  assume "space_end s = Some p"
  from space_end_Some [OF this] show "(take (length s - length p) s, s) \<in> measure length"
    by (auto simp: suffix_def)
qed simp

declare trim_right.simps [simp del]

definition TrimSpace :: "string \<Rightarrow> string" where
  "TrimSpace s = trim_right (trim_left s)"

lemma trim_left_fix: "space_at (trim_left s) = None"
  by (induction s rule: trim_left.induct) (subst trim_left.simps, simp split: option.split)

lemma trim_right_fix: "space_end (trim_right s) = None"
  by (induction s rule: trim_right.induct) (subst trim_right.simps, simp split: option.split)

lemma trim_left_id: "space_at s = None \<Longrightarrow> trim_left s = s"
  by (subst trim_left.simps) simp

lemma trim_right_id: "space_end s = None \<Longrightarrow> trim_right s = s"
  by (subst trim_right.simps) simp

lemma trim_right_prefix: "prefix (trim_right s) s"
proof (induction s rule: trim_right.induct)
  case (1 s)
  show ?case
  proof (cases "space_end s")
    case None
    then show ?thesis by (simp add: trim_right_id)
  next
    case (Some p)
    from "1.IH" [OF Some] have "prefix (trim_right (take (length s - length p) s)) s"
      using take_is_prefix prefix_order.trans by blast
    with Some show ?thesis by (subst trim_right.simps) simp
  qed
qed

lemma space_at_prefix: "prefix t s \<Longrightarrow> space_at s = None \<Longrightarrow> space_at t = None"
  by (auto simp: space_at_def find_None_iff dest: prefix_order.trans)

lemma TrimSpace_idem [simp]: "TrimSpace (TrimSpace s) = TrimSpace s"
proof -
  have "space_at (TrimSpace s) = None"
    unfolding TrimSpace_def by (rule space_at_prefix [OF trim_right_prefix trim_left_fix])
  moreover have "space_end (TrimSpace s) = None"
    unfolding TrimSpace_def by (rule trim_right_fix)
  ultimately show ?thesis
    by (simp add: TrimSpace_def [of "TrimSpace s"] trim_left_id trim_right_id)
qed

lemma TrimSpace_Nil [simp]: "TrimSpace [] = []"
  by (simp add: TrimSpace_def trim_left_id trim_right_id space_at_def space_end_def go_spaces_def)

text \<open>Nothing is trimmed between two printable ASCII characters.\<close>

definition plain :: "char \<Rightarrow> bool" where
  "plain c \<longleftrightarrow> CHR 0x20 < c \<and> c < CHR 0x7F"

lemma go_spaces_not_plain: "\<forall>p \<in> set go_spaces. p \<noteq> [] \<and> \<not> plain (hd p) \<and> \<not> plain (last p)"
  by code_simp

lemma space_at_plain: "plain c \<Longrightarrow> space_at (c # s) = None"
  using go_spaces_not_plain by (fastforce simp: space_at_def find_None_iff prefix_def neq_Nil_conv)

lemma space_end_plain: "plain c \<Longrightarrow> space_end (s @ [c]) = None"
  using go_spaces_not_plain by (fastforce simp: space_end_def find_None_iff suffix_def dest: arg_cong [where f = last])

lemma TrimSpace_plain [gostr_simps]:
  assumes "s \<noteq> []" "plain (hd s)" "plain (last s)"
  shows "TrimSpace s = s"
proof -
  have "space_at s = None" using assms space_at_plain [of "hd s" "tl s"] by simp
  moreover have "space_end s = None" using assms space_end_plain [of "last s" "butlast s"] by simp
  ultimately show ?thesis by (simp add: TrimSpace_def trim_left_id trim_right_id)
qed

subsection \<open>Case mapping\<close>

text \<open>
  \<open>strings.ToUpper\<close> and \<open>strings.ToLower\<close> map ASCII letters byte by byte. Of the other code points
  only two have an ASCII upper case (U+0131 to \<open>I\<close> and U+017F to \<open>S\<close>) and two an ASCII lower case
  (U+0130 to \<open>i\<close> and U+212A to \<open>k\<close>). Any other code point is mapped to one outside ASCII, and is
  kept as it is here: the callers only compare the result with ASCII words, which cannot tell.
\<close>

definition upper_char :: "char \<Rightarrow> char" where
  "upper_char c = (if CHR ''a'' \<le> c \<and> c \<le> CHR ''z'' then char_of (of_char c - 32 :: nat) else c)"

definition lower_char :: "char \<Rightarrow> char" where
  "lower_char c = (if CHR ''A'' \<le> c \<and> c \<le> CHR ''Z'' then char_of (of_char c + 32 :: nat) else c)"

fun ToUpper :: "string \<Rightarrow> string" where
  "ToUpper [] = []"
| "ToUpper [a] = [upper_char a]"
| "ToUpper (a # b # s) =
     (if a = CHR 0xC4 \<and> b = CHR 0xB1 then CHR ''I'' # ToUpper s
      else if a = CHR 0xC5 \<and> b = CHR 0xBF then CHR ''S'' # ToUpper s
      else upper_char a # ToUpper (b # s))"

fun ToLower :: "string \<Rightarrow> string" where
  "ToLower [] = []"
| "ToLower [a] = [lower_char a]"
| "ToLower (a # b # s) =
     (if a = CHR 0xC4 \<and> b = CHR 0xB0 then CHR ''i'' # ToLower s
      else if a = CHR 0xE2 \<and> b = CHR 0x84 \<and> prefix [CHR 0xAA] s then CHR ''k'' # ToLower (tl s)
      else lower_char a # ToLower (b # s))"

lemma upper_char_id: "CHR ''A'' \<le> c \<Longrightarrow> c \<le> CHR ''Z'' \<Longrightarrow> upper_char c = c"
  by (simp add: upper_char_def less_eq_char_def)

lemma lower_char_id: "CHR ''a'' \<le> c \<Longrightarrow> c \<le> CHR ''z'' \<Longrightarrow> lower_char c = c"
  by (simp add: lower_char_def less_eq_char_def)

definition upper_word :: "string \<Rightarrow> bool" where
  "upper_word s \<longleftrightarrow> (\<forall>c \<in> set s. CHR ''A'' \<le> c \<and> c \<le> CHR ''Z'')"

definition lower_word :: "string \<Rightarrow> bool" where
  "lower_word s \<longleftrightarrow> (\<forall>c \<in> set s. CHR ''a'' \<le> c \<and> c \<le> CHR ''z'')"

lemma ToUpper_upper_word: "upper_word s \<Longrightarrow> ToUpper s = s"
  by (induction s rule: ToUpper.induct) (auto simp: upper_word_def upper_char_id less_eq_char_def)

lemma ToLower_lower_word: "lower_word s \<Longrightarrow> ToLower s = s"
  by (induction s rule: ToLower.induct) (auto simp: lower_word_def lower_char_id less_eq_char_def)

subsection \<open>Decimal numbers\<close>

definition digit_char :: "nat \<Rightarrow> char" where
  "digit_char d = char_of (48 + d)"

definition digit_val :: "char \<Rightarrow> nat" where
  "digit_val c = of_char c - 48"

definition is_digit :: "char \<Rightarrow> bool" where
  "is_digit c \<longleftrightarrow> CHR ''0'' \<le> c \<and> c \<le> CHR ''9''"

lemma digit_val_char [simp]: "d < 10 \<Longrightarrow> digit_val (digit_char d) = d"
  by (simp add: digit_val_def digit_char_def)

lemma is_digit_char [simp]: "d < 10 \<Longrightarrow> is_digit (digit_char d)"
  by (simp add: is_digit_def digit_char_def less_eq_char_def)

lemma is_digit_special [simp]: "\<not> is_digit (CHR ''-'')" "\<not> is_digit (CHR 0x00)"
  by (simp_all add: is_digit_def less_eq_char_def)

fun nat_str :: "nat \<Rightarrow> string" where
  "nat_str n = (if n < 10 then [digit_char n] else nat_str (n div 10) @ [digit_char (n mod 10)])"

declare nat_str.simps [simp del]

definition str_nat :: "string \<Rightarrow> nat" where
  "str_nat s = foldl (\<lambda>a c. 10 * a + digit_val c) 0 s"

lemma str_nat_snoc [simp]: "str_nat (s @ [c]) = 10 * str_nat s + digit_val c"
  by (simp add: str_nat_def)

lemma str_nat_str [simp]: "str_nat (nat_str n) = n"
proof (induction n rule: nat_str.induct)
  case (1 n)
  show ?case
  proof (cases "n < 10")
    case True
    then show ?thesis by (subst nat_str.simps) (simp add: str_nat_def)
  next
    case False
    with "1.IH" have "str_nat (nat_str (n div 10)) = n div 10" by simp
    with False show ?thesis by (subst nat_str.simps) simp
  qed
qed

lemma nat_str_digits: "c \<in> set (nat_str n) \<Longrightarrow> is_digit c"
proof (induction n rule: nat_str.induct)
  case (1 n)
  then show ?case by (subst (asm) nat_str.simps) (auto split: if_splits)
qed

lemma nat_str_nonempty: "nat_str n \<noteq> []"
  by (subst nat_str.simps) simp

text \<open>\<open>strconv.FormatInt\<close> in base 10, also \<open>%d\<close>.\<close>

definition FormatInt :: "int \<Rightarrow> string" where
  "FormatInt n = (if n < 0 then CHR ''-'' # nat_str (nat (- n)) else nat_str (nat n))"

lemma FormatInt_inj: "FormatInt a = FormatInt b \<Longrightarrow> a = b"
proof -
  assume eq: "FormatInt a = FormatInt b"
  have minus: "nat_str n \<noteq> CHR ''-'' # s" for n s
    using nat_str_digits [of "CHR ''-''" n] is_digit_special(1) by (metis list.set_intros(1))
  have inj: "nat_str x = nat_str y \<Longrightarrow> x = y" for x y
    by (metis str_nat_str)
  show ?thesis
    using eq minus [of "nat a"] minus [of "nat b"] inj [of "nat a" "nat b"] inj [of "nat (- a)" "nat (- b)"]
    by (auto simp: FormatInt_def split: if_splits) (metis minus)
qed

lemma FormatInt_no_nul: "CHR 0x00 \<notin> set (FormatInt n)"
  using nat_str_digits [of "CHR 0x00"] by (auto simp: FormatInt_def)

text \<open>Zero-padded fields of a fixed width.\<close>

fun pad_str :: "nat \<Rightarrow> nat \<Rightarrow> string" where
  "pad_str 0 n = []"
| "pad_str (Suc w) n = pad_str w (n div 10) @ [digit_char (n mod 10)]"

lemma length_pad_str [simp]: "length (pad_str w n) = w"
  by (induction w arbitrary: n) auto

lemma str_nat_pad_str: "n < 10 ^ w \<Longrightarrow> str_nat (pad_str w n) = n"
proof (induction w arbitrary: n)
  case (Suc w)
  then have "n div 10 < 10 ^ w" by (simp add: div_less_iff_less_mult mult.commute)
  then show ?case by (simp add: Suc.IH)
qed (simp add: str_nat_def)

lemma pad_str_digits: "\<forall>c \<in> set (pad_str w n). is_digit c"
  by (induction w arbitrary: n) auto

subsection \<open>\<open>strings.Trim\<close>, \<open>strings.Join\<close> and \<open>%q\<close>\<close>

text \<open>\<open>strings.Trim\<close> for a cutset of ASCII characters works byte by byte.\<close>

definition Trim :: "string \<Rightarrow> string \<Rightarrow> string" where
  "Trim s cs =
     rev (dropWhile (\<lambda>c. c \<in> set cs) (rev (dropWhile (\<lambda>c. c \<in> set cs) s)))"

lemma Trim_Nil_iff: "Trim s cs = [] \<longleftrightarrow> set s \<subseteq> set cs"
proof -
  have "dropWhile (\<lambda>c. c \<in> set cs) (rev (dropWhile (\<lambda>c. c \<in> set cs) s)) = [] \<longleftrightarrow>
      (\<forall>c \<in> set (dropWhile (\<lambda>c. c \<in> set cs) s). c \<in> set cs)"
    by (simp add: dropWhile_eq_Nil_conv)
  also have "\<dots> \<longleftrightarrow> set s \<subseteq> set cs"
    by (induction s) auto
  finally show ?thesis by (simp add: Trim_def)
qed

fun join :: "string \<Rightarrow> string list \<Rightarrow> string" where
  "join sep [] = []"
| "join sep [s] = s"
| "join sep (s # t # ts) = s @ sep @ join sep (t # ts)"

text \<open>
  \<open>%q\<close> puts a string between double quotes and escapes quotes, backslashes and control characters;
  bytes of code points outside ASCII are passed through, as Go does for printable ones.
\<close>

definition hex_digit :: "nat \<Rightarrow> char" where
  "hex_digit n = (if n < 10 then char_of (48 + n) else char_of (87 + n))"

definition quote_char :: "char \<Rightarrow> string" where
  "quote_char c =
     (if c = CHR 0x22 then [CHR 0x5C, CHR 0x22]
      else if c = CHR 0x5C then [CHR 0x5C, CHR 0x5C]
      else if c = CHR 0x07 then [CHR 0x5C, CHR ''a'']
      else if c = CHR 0x08 then [CHR 0x5C, CHR ''b'']
      else if c = CHR 0x0C then [CHR 0x5C, CHR ''f'']
      else if c = CHR 0x0A then [CHR 0x5C, CHR ''n'']
      else if c = CHR 0x0D then [CHR 0x5C, CHR ''r'']
      else if c = CHR 0x09 then [CHR 0x5C, CHR ''t'']
      else if c = CHR 0x0B then [CHR 0x5C, CHR ''v'']
      else if c < CHR 0x20 \<or> c = CHR 0x7F
      then [CHR 0x5C, CHR ''x'', hex_digit (of_char c div 16), hex_digit (of_char c mod 16)]
      else [c])"

definition quote :: "string \<Rightarrow> string" where
  "quote s = [CHR 0x22] @ concat (map quote_char s) @ [CHR 0x22]"

end
