(* ===== verification/Go_Calendar.thy ===== *)
theory Go_Calendar
  imports Go_Strings
begin

text \<open>
  The proleptic Gregorian calendar of Go's \<open>time\<close> package: the civil date of a day number and back,
  and the layout \<open>2006-01-02\<close> of \<open>Format\<close> and \<open>Parse\<close>. Days are counted from the Unix epoch.
\<close>

definition is_leap :: "int \<Rightarrow> bool" where
  "is_leap y \<longleftrightarrow> y mod 4 = 0 \<and> (y mod 100 \<noteq> 0 \<or> y mod 400 = 0)"

definition month_lengths :: "int \<Rightarrow> int list" where
  "month_lengths y = [31, if is_leap y then 29 else 28, 31, 30, 31, 30, 31, 31, 30, 31, 30, 31]"

definition year_length :: "int \<Rightarrow> int" where
  "year_length y = (if is_leap y then 366 else 365)"

lemma sum_month_lengths: "sum_list (month_lengths y) = year_length y"
  by (simp add: month_lengths_def year_length_def)

text \<open>Days from 1 January of year 1 to 1 January of year \<open>y\<close>; the epoch is day 719162 of that count.\<close>

definition days_before_year :: "int \<Rightarrow> int" where
  "days_before_year y = (let p = y - 1 in 365 * p + p div 4 - p div 100 + p div 400)"

abbreviation epoch_days :: int where
  "epoch_days \<equiv> 719162"

text \<open>The month that contains a day of the year, by walking through the month lengths.\<close>

fun find_month :: "int list \<Rightarrow> int \<Rightarrow> int \<Rightarrow> int \<times> int" where
  "find_month [] m d = (m, d + 1)"
| "find_month (n # ns) m d = (if d < n then (m, d + 1) else find_month ns (m + 1) (d - n))"

definition year_yday :: "int \<Rightarrow> int \<times> int" where
  "year_yday n =
     (let c4 = n div 146097; r = n mod 146097;
          c1 = min 3 (r div 36524); r1 = r - 36524 * c1;
          q = r1 div 1461; r2 = r1 mod 1461;
          a = min 3 (r2 div 365)
      in (400 * c4 + 100 * c1 + 4 * q + a + 1, r2 - 365 * a))"

definition civil :: "int \<Rightarrow> int \<times> int \<times> int" where
  "civil n =
     (let (y, yd) = year_yday (n + epoch_days); (m, d) = find_month (month_lengths y) 1 yd
      in (y, m, d))"

definition day_number :: "int \<Rightarrow> int \<Rightarrow> int \<Rightarrow> int" where
  "day_number y m d =
     days_before_year y + sum_list (take (nat (m - 1)) (month_lengths y)) + d - 1 - epoch_days"

definition valid_civil :: "int \<Rightarrow> int \<Rightarrow> int \<Rightarrow> bool" where
  "valid_civil y m d \<longleftrightarrow> 1 \<le> m \<and> m \<le> 12 \<and> 1 \<le> d \<and> d \<le> month_lengths y ! nat (m - 1)"

subsection \<open>The day number of a civil date inverts the civil date of a day number\<close>

lemma cycle_parts:
  fixes c4 c1 q a :: int
  assumes "0 \<le> c1" "c1 \<le> 3" "0 \<le> q" "q \<le> 24" "0 \<le> a" "a \<le> 3"
  shows "(400 * c4 + 100 * c1 + 4 * q + a) div 4 = 100 * c4 + 25 * c1 + q"
    and "(400 * c4 + 100 * c1 + 4 * q + a) div 100 = 4 * c4 + c1"
    and "(400 * c4 + 100 * c1 + 4 * q + a) div 400 = c4"
proof -
  show "(400 * c4 + 100 * c1 + 4 * q + a) div 4 = 100 * c4 + 25 * c1 + q"
    by (rule int_div_pos_eq [where r = a]; use assms in simp)
  show "(400 * c4 + 100 * c1 + 4 * q + a) div 100 = 4 * c4 + c1"
    by (rule int_div_pos_eq [where r = "4 * q + a"]; use assms in simp)
  show "(400 * c4 + 100 * c1 + 4 * q + a) div 400 = c4"
    by (rule int_div_pos_eq [where r = "100 * c1 + 4 * q + a"]; use assms in simp)
qed

lemma cycle_leap:
  fixes c4 c1 q :: int
  assumes "0 \<le> c1" "c1 \<le> 3" "0 \<le> q" "q \<le> 24" "q = 24 \<Longrightarrow> c1 = 3"
  shows "is_leap (400 * c4 + 100 * c1 + 4 * q + 3 + 1)"
proof (cases "q = 24")
  case True
  with assms have "400 * c4 + 100 * c1 + 4 * q + 3 + 1 = 400 * (c4 + 1)" by simp
  then show ?thesis by (simp only: is_leap_def) simp
next
  case False
  have "(400 * c4 + 100 * c1 + 4 * q + 3 + 1) mod 100 = 4 * q + 4"
    by (rule int_mod_pos_eq [where q = "4 * c4 + c1"]; use assms False in simp)
  moreover have "(400 * c4 + 100 * c1 + 4 * q + 3 + 1) mod 4 = 0"
    by (rule int_mod_pos_eq [where q = "100 * c4 + 25 * c1 + q + 1"]; simp)
  ultimately show ?thesis using assms(3) by (simp only: is_leap_def) simp
qed

text \<open>Cutting a remainder off at the last of the three longer parts.\<close>

lemma min_div:
  fixes r b :: int
  assumes "0 < b" "0 \<le> r" "r \<le> 4 * b"
  shows "0 \<le> min 3 (r div b)" and "min 3 (r div b) \<le> 3" and "0 \<le> r - b * min 3 (r div b)"
    and "r - b * min 3 (r div b) \<le> b" and "min 3 (r div b) < 3 \<Longrightarrow> r - b * min 3 (r div b) < b"
proof -
  have r: "r = b * (r div b) + r mod b" "0 \<le> r mod b" "r mod b < b" using assms by auto
  have d: "0 \<le> r div b" using assms by (simp add: pos_imp_zdiv_nonneg_iff)
  then show "0 \<le> min 3 (r div b)" "min 3 (r div b) \<le> 3" by auto
  show "min 3 (r div b) < 3 \<Longrightarrow> r - b * min 3 (r div b) < b" using r by (simp add: min_def split: if_splits) (use r in linarith)
  have "0 \<le> r - b * min 3 (r div b) \<and> r - b * min 3 (r div b) \<le> b"
  proof (cases "r div b \<le> 3")
    case True
    with r show ?thesis by (simp add: min_def) (use r in linarith)
  next
    case False
    then have "b * 4 \<le> b * (r div b)" using assms by (intro mult_left_mono) auto
    with r have "b * 4 \<le> r" by linarith
    with False assms show ?thesis by (simp add: min_def)
  qed
  then show "0 \<le> r - b * min 3 (r div b)" "r - b * min 3 (r div b) \<le> b" by auto
qed

lemma year_yday:
  assumes "year_yday n = (y, yd)"
  shows "days_before_year y + yd = n" and "0 \<le> yd" and "yd < year_length y"
proof -
  define c4 where "c4 = n div 146097"
  define r where "r = n mod 146097"
  define c1 where "c1 = min 3 (r div 36524)"
  define r1 where "r1 = r - 36524 * c1"
  define q where "q = r1 div 1461"
  define r2 where "r2 = r1 mod 1461"
  define a where "a = min 3 (r2 div 365)"
  have "(y, yd) = (400 * c4 + 100 * c1 + 4 * q + a + 1, r2 - 365 * a)"
    unfolding assms [symmetric] year_yday_def Let_def c4_def a_def r2_def q_def r1_def c1_def r_def
    by (rule refl)
  then have y: "y = 400 * c4 + 100 * c1 + 4 * q + a + 1" and yd: "yd = r2 - 365 * a" by auto
  have n: "n = 146097 * c4 + r" "0 \<le> r" "r < 146097" by (simp_all add: c4_def r_def)
  have c1: "0 \<le> c1" "c1 \<le> 3" "0 \<le> r1" "r1 \<le> 36524" "c1 < 3 \<Longrightarrow> r1 < 36524"
    using min_div [of 36524 r] n(2,3) unfolding c1_def r1_def by auto
  have q: "r1 = 1461 * q + r2" "0 \<le> r2" "r2 < 1461" by (simp_all add: q_def r2_def)
  have q24: "0 \<le> q" "q \<le> 24" using c1(3,4) q by linarith+
  have a: "0 \<le> a" "a \<le> 3" "0 \<le> yd" "yd \<le> 365" "a < 3 \<Longrightarrow> yd < 365"
    using min_div [of 365 r2] q(2,3) unfolding yd a_def by auto
  have "days_before_year y =
      365 * (400 * c4 + 100 * c1 + 4 * q + a) + (100 * c4 + 25 * c1 + q) - (4 * c4 + c1) + c4"
    using cycle_parts [OF c1(1,2) q24 a(1,2), of c4] by (simp only: days_before_year_def Let_def y) simp
  then show "days_before_year y + yd = n" using n(1) q(1) yd r1_def by simp
  show "0 \<le> yd" by (rule a)
  show "yd < year_length y"
  proof (cases "a = 3 \<and> yd = 365")
    case True
    then have r2: "r2 = 1460" by (simp add: yd)
    then have "q = 24 \<Longrightarrow> c1 = 3" using c1 q(1) by linarith
    then have "is_leap y" using True cycle_leap [OF c1(1,2) q24, of c4] by (simp add: y)
    then show ?thesis using True by (simp add: year_length_def)
  next
    case False
    then have "yd < 365" using a by force
    then show ?thesis by (simp add: year_length_def)
  qed
qed

lemma find_month:
  assumes "find_month ns m d = (m', d')" "0 \<le> d" "d < sum_list ns"
  shows "\<exists>k < length ns. m' = m + int k \<and> sum_list (take k ns) + d' - 1 = d \<and> 1 \<le> d' \<and> d' \<le> ns ! k"
  using assms
proof (induction ns arbitrary: m d)
  case (Cons n ns)
  show ?case
  proof (cases "d < n")
    case True
    with Cons.prems show ?thesis by (intro exI [of _ 0]) auto
  next
    case False
    with Cons obtain k where "k < length ns" "m' = m + 1 + int k"
      "sum_list (take k ns) + d' - 1 = d - n" "1 \<le> d'" "d' \<le> ns ! k"
      by fastforce
    then show ?thesis by (intro exI [of _ "Suc k"]) auto
  qed
qed simp

lemma civil_valid:
  assumes "civil n = (y, m, d)"
  shows "valid_civil y m d" and "day_number y m d = n"
proof -
  obtain yd where yd: "year_yday (n + epoch_days) = (y, yd)" "find_month (month_lengths y) 1 yd = (m, d)"
    using assms by (auto simp: civil_def split: prod.splits)
  note Y = year_yday [OF yd(1)]
  obtain k where k: "k < length (month_lengths y)" "m = 1 + int k"
    "sum_list (take k (month_lengths y)) + d - 1 = yd" "1 \<le> d" "d \<le> month_lengths y ! k"
    using find_month [OF yd(2)] Y by (auto simp: sum_month_lengths)
  have "length (month_lengths y) = 12" by (simp add: month_lengths_def)
  with k show "valid_civil y m d" by (simp add: valid_civil_def)
  show "day_number y m d = n" using Y(1) k(2,3) by (simp add: day_number_def)
qed

lemma civil_inj: "civil n = civil n' \<Longrightarrow> n = n'"
  by (metis civil_valid(2) prod_cases3)

subsection \<open>The layout \<open>2006-01-02\<close>\<close>

text \<open>
  Formatting pads the year to four digits (with a sign before it when it is negative) and month and
  day to two. Parsing wants exactly four digits, a dash, two digits, a dash and two digits, and a
  day that exists in its month.
\<close>

definition format_civil :: "int \<times> int \<times> int \<Rightarrow> string" where
  "format_civil = (\<lambda>(y, m, d).
     (if y < 0 then ''-'' else '''') @
     (if \<bar>y\<bar> < 10000 then pad_str 4 (nat \<bar>y\<bar>) else nat_str (nat \<bar>y\<bar>)) @
     ''-'' @ pad_str 2 (nat m) @ ''-'' @ pad_str 2 (nat d))"

definition parse_civil :: "string \<Rightarrow> (int \<times> int \<times> int) option" where
  "parse_civil s =
     (if length s = 10 \<and> list_all is_digit (take 4 s) \<and> s ! 4 = CHR ''-'' \<and>
         list_all is_digit (take 2 (drop 5 s)) \<and> s ! 7 = CHR ''-'' \<and> list_all is_digit (drop 8 s)
      then let y = int (str_nat (take 4 s)); m = int (str_nat (take 2 (drop 5 s)));
               d = int (str_nat (drop 8 s))
           in if valid_civil y m d then Some (y, m, d) else None
      else None)"

lemma parse_format_civil:
  assumes "valid_civil y m d" "0 \<le> y" "y < 10000"
  shows "parse_civil (format_civil (y, m, d)) = Some (y, m, d)"
proof -
  let ?s = "format_civil (y, m, d)"
  have s: "?s = pad_str 4 (nat y) @ ''-'' @ pad_str 2 (nat m) @ ''-'' @ pad_str 2 (nat d)"
    using assms by (simp add: format_civil_def)
  have md: "1 \<le> m" "m \<le> 12" "1 \<le> d" using assms by (auto simp: valid_civil_def)
  have "nat (m - 1) < length (month_lengths y)" using md by (simp add: month_lengths_def)
  then have "month_lengths y ! nat (m - 1) \<in> set (month_lengths y)" by (rule nth_mem)
  then have "month_lengths y ! nat (m - 1) \<le> 31" by (auto simp: month_lengths_def split: if_splits)
  with assms(1) have d: "d \<le> 31" by (simp add: valid_civil_def)
  have parts: "take 4 ?s = pad_str 4 (nat y)" "take 2 (drop 5 ?s) = pad_str 2 (nat m)"
    "drop 8 ?s = pad_str 2 (nat d)" "length ?s = 10" "?s ! 4 = CHR ''-''" "?s ! 7 = CHR ''-''"
    by (simp_all add: s nth_append)
  have vals: "str_nat (pad_str 4 (nat y)) = nat y" "str_nat (pad_str 2 (nat m)) = nat m"
    "str_nat (pad_str 2 (nat d)) = nat d"
    using assms md d by (auto intro!: str_nat_pad_str)
  show ?thesis
    using assms md by (simp add: parse_civil_def parts vals list_all_iff pad_str_digits)
qed

end
