(* ===== verification/Recon_Leg.thy ===== *)
theory Recon_Leg
  imports Go_Float Go_Calendar
begin

text \<open>
  Legs (\<open>internal/domain/recon/leg.go\<close>): the \<open>Leg\<close> struct, dates, validation and normalisation, the
  content hash and the derived idempotency key. The SHA-256 of \<open>crypto/sha256\<close>, as a lower-case
  hexadecimal string, is the argument \<open>sha256\<close> of the definitions that hash.
\<close>

subsection \<open>Data\<close>

abbreviation (input) Debit :: string where "Debit \<equiv> ''debit''"
abbreviation (input) Credit :: string where "Credit \<equiv> ''credit''"

abbreviation (input) LegOpen :: string where "LegOpen \<equiv> ''open''"
abbreviation (input) LegMatched :: string where "LegMatched \<equiv> ''matched''"
abbreviation (input) LegBroken :: string where "LegBroken \<equiv> ''break''"

abbreviation (input) AttrBatchRef :: string where "AttrBatchRef \<equiv> ''batch_ref''"

datatype Date = Date (dtime: Time)

record Leg =
  ID :: string
  Source :: string
  TxnRef :: string
  AmountMinor :: int
  Currency :: string
  ValueDate :: Date
  Direction :: string
  Counterparty :: string
  Attrs :: "(string, string) gomap"
  IngestedAt :: Time
  Status :: string
  MatchID :: string
  BreakID :: string

record WindowKey =
  wk_Currency :: string
  wk_Counterparty :: string

definition Key :: "Leg \<Rightarrow> WindowKey" where
  "Key l = \<lparr>wk_Currency = Currency l, wk_Counterparty = Counterparty l\<rparr>"

text \<open>\<open>l.Attrs[k]\<close> reads the empty string for a missing key.\<close>

definition attr :: "Leg \<Rightarrow> string \<Rightarrow> string" where
  "attr l k = (case gm_get (Attrs l) k of None \<Rightarrow> [] | Some v \<Rightarrow> v)"

subsection \<open>Dates\<close>

definition day_ns :: int where
  "day_ns = 24 * 60 * 60 * 10 ^ 9"

definition hour_ns :: int where
  "hour_ns = 60 * 60 * 10 ^ 9"

text \<open>\<open>time.Date\<close> carries months outside 1..12 into the year and days outside the month onwards.\<close>

definition NewDate :: "int \<Rightarrow> int \<Rightarrow> int \<Rightarrow> Date" where
  "NewDate y m d = Date (day_number (y + (m - 1) div 12) ((m - 1) mod 12 + 1) d * day_ns)"

definition ParseDate :: "string \<Rightarrow> Date result" where
  "ParseDate s =
     (case parse_civil s of
        None \<Rightarrow> Inl (Errorf (''parse value_date '' @ quote s @ '': '') (ErrLib ''time.Parse'') '''')
      | Some (y, m, d) \<Rightarrow> Inr (Date (day_number y m d * day_ns)))"

definition Date_String :: "Date \<Rightarrow> string" where
  "Date_String d = format_civil (civil (dtime d div day_ns))"

text \<open>
  The JSON form: the text between quotes, none of whose characters JSON escapes. What \<open>encoding/json\<close> decodes as a string is an
  argument, of which only the documented treatment of such texts matters.
\<close>

definition Date_MarshalJSON :: "Date \<Rightarrow> string" where
  "Date_MarshalJSON d = CHR 0x22 # Date_String d @ [CHR 0x22]"

definition Date_UnmarshalJSON :: "(string \<Rightarrow> string result) \<Rightarrow> string \<Rightarrow> Date result" where
  "Date_UnmarshalJSON json_string b =
     (case json_string b of
        Inl err \<Rightarrow> Inl (Errorf ''value_date must be a string: '' err '''')
      | Inr s \<Rightarrow> (case ParseDate s of Inl err \<Rightarrow> Inl err | Inr p \<Rightarrow> Inr p))"

definition json_strings :: "(string \<Rightarrow> string result) \<Rightarrow> bool" where
  "json_strings json_string \<longleftrightarrow>
     (\<forall>s. (\<forall>c \<in> set s. is_digit c \<or> c = CHR ''-'') \<longrightarrow> json_string (CHR 0x22 # s @ [CHR 0x22]) = Inr s)"

text \<open>\<open>Time.Sub\<close> saturates at the range of \<open>Duration\<close>.\<close>

definition time_sub :: "Time \<Rightarrow> Time \<Rightarrow> Duration" where
  "time_sub a b = max (- (2 ^ 63)) (min (2 ^ 63 - 1) (a - b))"

text \<open>\<open>Duration.Hours\<close>: whole hours and the rest, truncated towards zero.\<close>

definition duration_hours :: "Duration \<Rightarrow> rat" where
  "duration_hours d =
     (let h = sgn d * (\<bar>d\<bar> div hour_ns); ns = sgn d * (\<bar>d\<bar> mod hour_ns)
      in f64 (f64_of_int64 h + f64 (f64_of_int64 ns / of_int hour_ns)))"

definition DaysBetween :: "Date \<Rightarrow> Date \<Rightarrow> int" where
  "DaysBetween a b =
     (let diff = f64 (duration_hours (time_sub (dtime a) (dtime b)) / 24);
          diff = (if diff < 0 then - diff else diff)
      in int64_of_f64 (f64 (diff + 1 / 2)))"

text \<open>A calendar date is at midnight UTC.\<close>

definition at_midnight :: "Date \<Rightarrow> bool" where
  "at_midnight d \<longleftrightarrow> dtime d mod day_ns = 0"

definition day_of :: "Date \<Rightarrow> int" where
  "day_of d = dtime d div day_ns"

subsection \<open>Validation\<close>

abbreviation (input) upper_letters :: string where
  "upper_letters \<equiv> ''ABCDEFGHIJKLMNOPQRSTUVWXYZ''"

definition normalise :: "Leg \<Rightarrow> Leg" where
  "normalise l = l\<lparr>Currency := ToUpper (TrimSpace (Currency l)), Direction := ToLower (Direction l)\<rparr>"

definition leg_problems :: "Leg \<Rightarrow> string list" where
  "leg_problems l =
     (let l' = normalise l in
      (if TrimSpace (Source l) = '''' then [''source is required''] else []) @
      (if TrimSpace (TxnRef l) = '''' then [''txn_ref is required''] else []) @
      (if AmountMinor l \<le> 0 then [''amount_minor must be > 0''] else []) @
      (if length (Currency l') \<noteq> 3 \<or> Trim (Currency l') upper_letters \<noteq> ''''
       then [''currency must be a 3-letter ISO 4217 code''] else []) @
      (if IsZero (dtime (ValueDate l)) then [''value_date is required''] else []) @
      (if Direction l' \<noteq> Debit \<and> Direction l' \<noteq> Credit
       then [''direction must be debit or credit''] else []) @
      (if TrimSpace (Counterparty l) = '''' then [''counterparty is required''] else []))"

text \<open>\<open>Validate\<close> normalises the leg in place, also when it then reports problems.\<close>

definition Validate :: "Leg \<Rightarrow> Leg \<times> goerr option" where
  "Validate l =
     (normalise l,
      if leg_problems l = [] then None
      else Some (Errorf '''' ErrInvalidLeg ('': '' @ join ''; '' (leg_problems l))))"

subsection \<open>Identity\<close>

definition hash_fields :: "Leg \<Rightarrow> string list" where
  "hash_fields l =
     [Source l, TxnRef l, FormatInt (AmountMinor l), Currency l, Date_String (ValueDate l),
      Direction l, Counterparty l] @
     concat (map (\<lambda>k. [k, attr l k]) (sort (map fst (Attrs l))))"

text \<open>Every field is written followed by a zero byte.\<close>

definition hash_input :: "Leg \<Rightarrow> string" where
  "hash_input l = concat (map (\<lambda>w. w @ [CHR 0x00]) (hash_fields l))"

definition ContentHash :: "(string \<Rightarrow> string) \<Rightarrow> Leg \<Rightarrow> string" where
  "ContentHash sha256 l = sha256 (hash_input l)"

definition leg_id :: "(string \<Rightarrow> string) \<Rightarrow> Leg \<Rightarrow> string" where
  "leg_id sha256 l = Source l @ '':'' @ TxnRef l @ '':'' @ take 12 (ContentHash sha256 l)"

definition AssignID :: "(string \<Rightarrow> string) \<Rightarrow> Leg \<Rightarrow> Leg" where
  "AssignID sha256 l = l\<lparr>ID := leg_id sha256 l\<rparr>"

subsection \<open>What validation accepts\<close>

definition valid_leg :: "Leg \<Rightarrow> bool" where
  "valid_leg l \<longleftrightarrow>
     TrimSpace (Source l) \<noteq> [] \<and> TrimSpace (TxnRef l) \<noteq> [] \<and> 0 < AmountMinor l \<and>
     length (Currency l) = 3 \<and> upper_word (Currency l) \<and> \<not> IsZero (dtime (ValueDate l)) \<and>
     Direction l \<in> {Debit, Credit} \<and> TrimSpace (Counterparty l) \<noteq> []"

lemma upper_letters_iff: "c \<in> set upper_letters \<longleftrightarrow> CHR ''A'' \<le> c \<and> c \<le> CHR ''Z''"
proof -
  have "\<forall>c. c \<in> set upper_letters \<longleftrightarrow> CHR ''A'' \<le> c \<and> c \<le> CHR ''Z''" by code_simp
  then show ?thesis by blast
qed

lemma Trim_upper_letters: "Trim s upper_letters = [] \<longleftrightarrow> upper_word s"
  by (simp only: Trim_Nil_iff upper_word_def subset_iff upper_letters_iff Ball_def)

lemma leg_problems_Nil: "leg_problems l = [] \<longleftrightarrow> valid_leg (normalise l)"
  by (auto simp: leg_problems_def valid_leg_def Let_def Trim_upper_letters normalise_def)

lemma TrimSpace_upper_word: "upper_word s \<Longrightarrow> TrimSpace s = s"
proof (cases "s = []")
  case False
  assume "upper_word s"
  then have "plain c" if "c \<in> set s" for c
    using that by (auto simp: upper_word_def plain_def less_char_def less_eq_char_def)
  with False show ?thesis by (simp add: TrimSpace_plain)
qed simp

lemma ToLower_direction: "d \<in> {Debit, Credit} \<Longrightarrow> ToLower d = d"
  by (rule ToLower_lower_word) (auto simp: lower_word_def less_eq_char_def)

lemma normalise_valid: "valid_leg l \<Longrightarrow> normalise l = l"
  by (simp add: valid_leg_def normalise_def TrimSpace_upper_word ToUpper_upper_word ToLower_direction)

lemma Validate_valid: "valid_leg l \<Longrightarrow> Validate l = (l, None)"
  by (simp add: Validate_def normalise_valid leg_problems_Nil)

lemma Validate_None: "Validate l = (l', None) \<longleftrightarrow> l' = normalise l \<and> valid_leg l'"
  by (auto simp: Validate_def leg_problems_Nil)

subsection \<open>Dates: printing, parsing and distance\<close>

definition date_ok :: "Date \<Rightarrow> bool" where
  "date_ok d \<longleftrightarrow> at_midnight d \<and> (case civil (day_of d) of (y, _) \<Rightarrow> 0 \<le> y \<and> y < 10000)"

lemma midnight_eq: "at_midnight d \<Longrightarrow> Date (day_of d * day_ns) = d"
  by (cases d) (auto simp: at_midnight_def day_of_def)

lemma ParseDate_String: "date_ok d \<Longrightarrow> ParseDate (Date_String d) = Inr d"
proof -
  assume ok: "date_ok d"
  obtain y m dd where c: "civil (day_of d) = (y, m, dd)" by (cases "civil (day_of d)")
  with ok have y: "0 \<le> y" "y < 10000" by (auto simp: date_ok_def)
  have "parse_civil (Date_String d) = Some (y, m, dd)"
    using parse_format_civil [OF civil_valid(1) [OF c] y] c by (simp add: Date_String_def day_of_def)
  moreover have "day_number y m dd = day_of d" by (rule civil_valid(2) [OF c])
  ultimately show ?thesis using ok by (simp add: ParseDate_def midnight_eq date_ok_def)
qed

lemma Date_String_inj: "date_ok d \<Longrightarrow> date_ok d' \<Longrightarrow> Date_String d = Date_String d' \<Longrightarrow> d = d'"
  by (metis ParseDate_String sum.inject(2))

lemma duration_hours_days: "\<bar>k\<bar> < 2 ^ 40 \<Longrightarrow> duration_hours (k * day_ns) = of_int (24 * k)"
proof -
  assume k: "\<bar>k\<bar> < 2 ^ 40"
  have day: "day_ns = 24 * hour_ns" "0 < hour_ns" by (simp_all add: day_ns_def hour_ns_def)
  have "\<bar>k * day_ns\<bar> = 24 * \<bar>k\<bar> * hour_ns" using day(2) by (simp add: day(1) abs_mult)
  then have "\<bar>k * day_ns\<bar> div hour_ns = 24 * \<bar>k\<bar>" "\<bar>k * day_ns\<bar> mod hour_ns = 0"
    using day(2) by simp_all
  moreover have "sgn (k * day_ns) = sgn k" using day by (simp add: sgn_mult)
  moreover have "sgn k * (24 * \<bar>k\<bar>) = 24 * k" by (simp add: sgn_mult_abs mult.left_commute)
  moreover have "f64 (of_int (24 * k)) = of_int (24 * k)" using k by (intro f64_of_int) simp
  ultimately show ?thesis by (simp only: duration_hours_def Let_def f64_of_int64_def mult_zero_right of_int_0 f64_0 div_0 add_0_right)
qed

lemma DaysBetween_days:
  assumes "at_midnight a" "at_midnight b" "\<bar>dtime a - dtime b\<bar> < 2 ^ 63"
  shows "DaysBetween a b = \<bar>day_of a - day_of b\<bar>"
proof -
  define k where "k = day_of a - day_of b"
  have "dtime a = day_of a * day_ns" "dtime b = day_of b * day_ns"
    using assms(1,2) by (auto simp: at_midnight_def day_of_def)
  then have sub: "dtime a - dtime b = k * day_ns" by (simp add: k_def left_diff_distrib)
  have "\<bar>k\<bar> * day_ns < 2 ^ 63" using assms(3) by (simp add: sub abs_mult day_ns_def)
  then have k: "\<bar>k\<bar> < 2 ^ 40" by (simp add: day_ns_def)
  have "time_sub (dtime a) (dtime b) = k * day_ns"
    using assms(3) unfolding time_sub_def sub by (simp add: abs_less_iff)
  then have "f64 (duration_hours (time_sub (dtime a) (dtime b)) / 24) = of_int k"
    using k by (simp add: duration_hours_days)
  moreover have "f64 (of_int \<bar>k\<bar> + 1 / 2) = of_int \<bar>k\<bar> + 1 / 2"
    using k by (intro f64_half) simp
  ultimately have "DaysBetween a b = int64_of_f64 (of_int \<bar>k\<bar> + 1 / 2)"
    by (auto simp: DaysBetween_def Let_def)
  also have "\<dots> = \<bar>k\<bar>"
  proof -
    have "\<lfloor>(of_int \<bar>k\<bar> + 1 / 2 :: rat)\<rfloor> = \<bar>k\<bar>" by (rule floor_unique) auto
    moreover have "\<not> (of_int \<bar>k\<bar> + 1 / 2 :: rat) < 0" by (simp add: not_less)
    moreover have "in_i64 \<bar>k\<bar>" using k by (simp add: in_i64_def)
    ultimately show ?thesis by (simp only: int64_of_f64_def Let_def if_False if_True)
  qed
  finally show ?thesis by (simp add: k_def)
qed

subsection \<open>The content hash covers the business fields\<close>

text \<open>The business fields agree, the attributes as maps.\<close>

definition same_business :: "Leg \<Rightarrow> Leg \<Rightarrow> bool" where
  "same_business l l' \<longleftrightarrow>
     Source l = Source l' \<and> TxnRef l = TxnRef l' \<and> AmountMinor l = AmountMinor l' \<and>
     Currency l = Currency l' \<and> ValueDate l = ValueDate l' \<and> Direction l = Direction l' \<and>
     Counterparty l = Counterparty l' \<and> gm_get (Attrs l) = gm_get (Attrs l')"

text \<open>No hashed text contains the zero byte that ends a field.\<close>

definition nul_free :: "Leg \<Rightarrow> bool" where
  "nul_free l \<longleftrightarrow>
     (\<forall>s \<in> set ([Source l, TxnRef l, Currency l, Direction l, Counterparty l] @
                 map fst (Attrs l) @ map snd (Attrs l)). CHR 0x00 \<notin> set s)"

lemma sep_split: "z \<notin> set w \<Longrightarrow> z \<notin> set v \<Longrightarrow> w @ z # x = v @ z # y \<Longrightarrow> w = v \<and> x = y"
proof (induction w arbitrary: v)
  case Nil
  then show ?case by (cases v) auto
next
  case (Cons a w)
  then show ?case by (cases v) auto
qed

lemma terminated_inj:
  assumes "\<forall>w \<in> set ws. z \<notin> set w" "\<forall>w \<in> set vs. z \<notin> set w"
    and "concat (map (\<lambda>w. w @ [z]) ws) = concat (map (\<lambda>w. w @ [z]) vs)"
  shows "ws = vs"
  using assms
proof (induction ws arbitrary: vs)
  case Nil
  then show ?case by (cases vs) auto
next
  case (Cons w ws)
  then obtain v vs' where vs: "vs = v # vs'" by (cases vs) auto
  have eq: "w @ z # concat (map (\<lambda>w. w @ [z]) ws) = v @ z # concat (map (\<lambda>w. w @ [z]) vs')"
    using Cons.prems(3) by (simp add: vs)
  have "z \<notin> set w" "z \<notin> set v" using Cons.prems by (auto simp: vs)
  then have "w = v \<and> concat (map (\<lambda>w. w @ [z]) ws) = concat (map (\<lambda>w. w @ [z]) vs')"
    using eq by (rule sep_split)
  moreover from this have "ws = vs'" using Cons.prems(1,2) by (intro Cons.IH) (simp_all add: vs)
  ultimately show ?case by (simp add: vs)
qed

lemma format_civil_chars: "c \<in> set (format_civil (y, m, d)) \<Longrightarrow> is_digit c \<or> c = CHR ''-''"
  using pad_str_digits [of 4 "nat \<bar>y\<bar>"] pad_str_digits [of 2 "nat m"] pad_str_digits [of 2 "nat d"]
    nat_str_digits [of c "nat \<bar>y\<bar>"]
  by (simp only: format_civil_def prod.case) (auto split: if_splits)

lemma Date_String_no_nul: "CHR 0x00 \<notin> set (Date_String d)"
  using format_civil_chars [of "CHR 0x00"] by (cases "civil (dtime d div day_ns)") (auto simp: Date_String_def)

lemma attr_mem: "gm_ok (Attrs l) \<Longrightarrow> (k, v) \<in> set (Attrs l) \<Longrightarrow> attr l k = v"
  by (simp add: attr_def)

lemma hash_fields_nul_free: "gm_ok (Attrs l) \<Longrightarrow> nul_free l \<Longrightarrow> \<forall>w \<in> set (hash_fields l). CHR 0x00 \<notin> set w"
  by (auto simp: hash_fields_def nul_free_def FormatInt_no_nul Date_String_no_nul attr_mem)
    (metis Un_iff image_eqI snd_conv)

lemma attr_fields_inj:
  assumes "concat (map (\<lambda>k. [k, f k]) ks) = concat (map (\<lambda>k. [k, g k]) ks')"
  shows "ks = ks' \<and> (\<forall>k \<in> set ks. f k = g k)"
  using assms
proof (induction ks arbitrary: ks')
  case Nil
  then show ?case by (cases ks') auto
next
  case (Cons k ks)
  then show ?case by (cases ks') auto
qed

lemma attrs_by_keys:
  assumes "sort (map fst (Attrs l)) = sort (map fst (Attrs l'))"
    and "\<forall>k \<in> set (sort (map fst (Attrs l))). attr l k = attr l' k"
  shows "gm_get (Attrs l) = gm_get (Attrs l')"
proof
  fix k
  have keys: "fst ` set (Attrs l) = fst ` set (Attrs l')"
    by (metis assms(1) set_map set_sort)
  show "gm_get (Attrs l) k = gm_get (Attrs l') k"
  proof (cases "k \<in> fst ` set (Attrs l)")
    case True
    then obtain v where v: "gm_get (Attrs l) k = Some v"
      using map_of_eq_None_iff [of "Attrs l" k] by (cases "gm_get (Attrs l) k") auto
    from True keys obtain v' where v': "gm_get (Attrs l') k = Some v'"
      using map_of_eq_None_iff [of "Attrs l'" k] by (cases "gm_get (Attrs l') k") auto
    from True have "k \<in> set (sort (map fst (Attrs l)))" by simp
    with assms(2) have "attr l k = attr l' k" by (rule bspec)
    with v v' show ?thesis by (simp add: attr_def)
  next
    case False
    then have "gm_get (Attrs l) k = None" by (simp only: map_of_eq_None_iff) simp
    moreover from False keys have "gm_get (Attrs l') k = None" by (simp only: map_of_eq_None_iff) simp
    ultimately show ?thesis by simp
  qed
qed

lemma hash_fields_inj:
  assumes "date_ok (ValueDate l)" "date_ok (ValueDate l')" "hash_fields l = hash_fields l'"
  shows "same_business l l'"
proof -
  have f: "Source l = Source l'" "TxnRef l = TxnRef l'" "FormatInt (AmountMinor l) = FormatInt (AmountMinor l')"
    "Currency l = Currency l'" "Date_String (ValueDate l) = Date_String (ValueDate l')"
    "Direction l = Direction l'" "Counterparty l = Counterparty l'"
    "concat (map (\<lambda>k. [k, attr l k]) (sort (map fst (Attrs l)))) =
     concat (map (\<lambda>k. [k, attr l' k]) (sort (map fst (Attrs l'))))"
    using assms(3) unfolding hash_fields_def by simp_all
  have "gm_get (Attrs l) = gm_get (Attrs l')"
    using attr_fields_inj [OF f(8), THEN conjunct1] attr_fields_inj [OF f(8), THEN conjunct2]
    by (rule attrs_by_keys)
  moreover have "AmountMinor l = AmountMinor l'" by (rule FormatInt_inj [OF f(3)])
  moreover have "ValueDate l = ValueDate l'" by (rule Date_String_inj [OF assms(1,2) f(5)])
  ultimately show ?thesis using f by (simp add: same_business_def)
qed

lemma same_business_hash:
  assumes "gm_ok (Attrs l)" "gm_ok (Attrs l')" "same_business l l'"
  shows "hash_input l = hash_input l'"
proof -
  have "mset (Attrs l) = mset (Attrs l')"
    by (rule gm_mset_eq [OF assms(1,2)]) (use assms(3) in \<open>simp add: same_business_def\<close>)
  then have "sort (map fst (Attrs l)) = sort (map fst (Attrs l'))"
    by (intro properties_for_sort) simp_all
  moreover have "attr l = attr l'" using assms(3) by (simp add: attr_def same_business_def fun_eq_iff)
  ultimately show ?thesis using assms(3) by (simp add: hash_input_def hash_fields_def same_business_def)
qed

lemma hash_input_inj:
  assumes "gm_ok (Attrs l)" "gm_ok (Attrs l')" "nul_free l" "nul_free l'"
    "date_ok (ValueDate l)" "date_ok (ValueDate l')"
  shows "hash_input l = hash_input l' \<longleftrightarrow> same_business l l'"
proof
  assume "hash_input l = hash_input l'"
  then have "hash_fields l = hash_fields l'"
    unfolding hash_input_def
    by (rule terminated_inj [OF hash_fields_nul_free hash_fields_nul_free, OF assms(1,3,2,4)])
  then show "same_business l l'" using assms(5,6) by (intro hash_fields_inj)
next
  assume "same_business l l'"
  then show "hash_input l = hash_input l'" using assms(1,2) by (intro same_business_hash)
qed

lemma leg_id_iff:
  assumes "gm_ok (Attrs l)" "gm_ok (Attrs l')" "nul_free l" "nul_free l'"
    "date_ok (ValueDate l)" "date_ok (ValueDate l')"
    and len: "\<And>s. length (sha256 s) = 64"
    and no_collision: "take 12 (sha256 (hash_input l)) = take 12 (sha256 (hash_input l')) \<Longrightarrow>
      hash_input l = hash_input l'"
  shows "leg_id sha256 l = leg_id sha256 l' \<longleftrightarrow> same_business l l'"
proof
  assume eq: "leg_id sha256 l = leg_id sha256 l'"
  have split: "leg_id sha256 m = (Source m @ '':'' @ TxnRef m @ '':'') @ take 12 (sha256 (hash_input m))" for m
    by (simp add: leg_id_def ContentHash_def)
  have "take 12 (sha256 (hash_input l)) = take 12 (sha256 (hash_input l'))"
    using eq len unfolding split [of l] split [of l'] by (simp del: append.simps append_assoc)
  then show "same_business l l'"
    using hash_input_inj [OF assms(1-6)] no_collision by simp
next
  assume sb: "same_business l l'"
  then have "hash_input l = hash_input l'" by (intro same_business_hash assms)
  with sb show "leg_id sha256 l = leg_id sha256 l'"
    by (simp add: leg_id_def ContentHash_def same_business_def)
qed

text \<open>Identity reads neither the ingestion metadata nor the previous identifier.\<close>

lemma AssignID_idem: "AssignID sha256 (AssignID sha256 l) = AssignID sha256 l"
  by (simp add: AssignID_def leg_id_def ContentHash_def hash_input_def hash_fields_def attr_def)

subsection \<open>Concrete legs\<close>

definition plain_leg :: "string \<Rightarrow> string \<Rightarrow> int \<Rightarrow> string \<Rightarrow> (string, string) gomap \<Rightarrow> Leg" where
  "plain_leg src ref amt cp attrs =
     \<lparr>ID = '''', Source = src, TxnRef = ref, AmountMinor = amt, Currency = ''USD'',
      ValueDate = NewDate 2026 9 15, Direction = Debit, Counterparty = cp, Attrs = attrs,
      IngestedAt = time_zero, Status = '''', MatchID = '''', BreakID = ''''\<rparr>"

subsection \<open>Properties\<close>

text \<open>
  C20: \<open>Validate\<close> returns no error exactly when the leg, with its currency trimmed and upper-cased and
  its direction lower-cased, has a source, a reference and a counterparty that are not blank, a
  positive amount, a three-letter currency, a value date and the direction debit or credit; the leg
  it leaves behind is that normalised leg.
\<close>

theorem validate_accepts: "Validate l = (l', None) \<longleftrightarrow> l' = normalise l \<and> valid_leg l'"
  by (rule Validate_None)

text \<open>
  C34: every rejection of \<open>Validate\<close> is an error that \<open>errors.Is\<close> recognises as \<open>ErrInvalidLeg\<close>, and
  validating an accepted leg again accepts it unchanged, which is what replay relies on.
\<close>

theorem validate_stable:
  "case Validate l of (l', None) \<Rightarrow> Validate l' = (l', None) | (_, Some e) \<Rightarrow> err_is e ErrInvalidLeg"
  using Validate_valid [of "normalise l"] by (auto simp: Validate_def leg_problems_Nil)

text \<open>
  C16: the derived identifier is an idempotency key. For two legs whose texts are free of zero bytes
  and whose hashes do not collide in their first twelve digits, the identifiers are equal exactly
  when all business fields are, the attributes compared as maps; ingestion metadata plays no part.
\<close>

theorem leg_id_identity:
  assumes "gm_ok (Attrs l)" "gm_ok (Attrs l')" "nul_free l" "nul_free l'"
    and "date_ok (ValueDate l)" "date_ok (ValueDate l')"
    and "\<And>s. length (sha256 s) = 64"
    and "take 12 (sha256 (hash_input l)) = take 12 (sha256 (hash_input l')) \<Longrightarrow>
      hash_input l = hash_input l'"
  shows "ID (AssignID sha256 l) = ID (AssignID sha256 l') \<longleftrightarrow> same_business l l'"
  using leg_id_iff [OF assms] by (simp add: AssignID_def)

theorem leg_id_identity_witness:
  "let l = plain_leg ''rail'' ''R1'' 100 ''VISA'' []; l' = plain_leg ''rail'' ''R1'' 101 ''VISA'' [];
       sha256 = (\<lambda>s. replicate 64 (if s = hash_input l then CHR ''0'' else CHR ''1''))
   in ID (AssignID sha256 l) \<noteq> ID (AssignID sha256 l')"
proof -
  let ?l = "plain_leg ''rail'' ''R1'' 100 ''VISA'' []"
  let ?l' = "plain_leg ''rail'' ''R1'' 101 ''VISA'' []"
  let ?sha = "\<lambda>s. replicate 64 (if s = hash_input ?l then CHR ''0'' else CHR ''1'')"
  have ok: "gm_ok (Attrs ?l)" "gm_ok (Attrs ?l')" "nul_free ?l" "nul_free ?l'"
    "date_ok (ValueDate ?l)" "date_ok (ValueDate ?l')" by code_simp+
  have len: "length (?sha s) = 64" for s by simp
  have col: "hash_input ?l = hash_input ?l'"
    if "take 12 (?sha (hash_input ?l)) = take 12 (?sha (hash_input ?l'))"
    using that by (auto split: if_splits)
  have "\<not> same_business ?l ?l'" by (simp add: same_business_def plain_leg_def)
  then show ?thesis using leg_id_identity [OF ok, of ?sha, OF len col] by (simp add: Let_def)
qed

text \<open>
  C18: identity of content is not total. The zero byte that ends a hashed field may occur in a field:
  two valid legs that differ in their counterparty and their attributes have the same identifier,
  whatever the hash function, so the second one is taken for a redelivery of the first.
\<close>

theorem nul_byte_aliases:
  "\<exists>l l'. valid_leg l \<and> valid_leg l' \<and> \<not> same_business l l' \<and>
     (\<forall>sha256. ID (AssignID sha256 l) = ID (AssignID sha256 l'))"
proof (intro exI conjI allI)
  let ?l = "plain_leg ''rail'' ''R1'' 100 (''VISA'' @ [CHR 0x00] @ ''k'' @ [CHR 0x00] @ ''v'') []"
  let ?l' = "plain_leg ''rail'' ''R1'' 100 ''VISA'' [(''k'', ''v'')]"
  show "valid_leg ?l" "valid_leg ?l'" by code_simp+
  show "\<not> same_business ?l ?l'" by (simp add: same_business_def plain_leg_def)
  have "hash_input ?l = hash_input ?l'"
    by (simp add: hash_input_def hash_fields_def plain_leg_def attr_def)
  then show "ID (AssignID sha256 ?l) = ID (AssignID sha256 ?l')" for sha256
    by (simp add: AssignID_def leg_id_def ContentHash_def) (simp add: plain_leg_def)
qed

text \<open>
  C17: value dates survive the wire. For every date at midnight UTC in the years 0 to 9999 that the layout can express, \<open>ParseDate\<close> of
  \<open>Date.String\<close> and \<open>UnmarshalJSON\<close> of \<open>MarshalJSON\<close> give the date back; what does not decode to a string in that layout is
  an error.
\<close>

theorem date_round_trips:
  assumes "json_strings json_string"
  shows "(date_ok d \<longrightarrow> ParseDate (Date_String d) = Inr d \<and> Date_UnmarshalJSON json_string (Date_MarshalJSON d) = Inr d) \<and>
    ((\<exists>err. Date_UnmarshalJSON json_string b = Inl err) \<longleftrightarrow> (\<forall>s. json_string b = Inr s \<longrightarrow> parse_civil s = None))"
proof -
  have "\<forall>c \<in> set (Date_String d). is_digit c \<or> c = CHR ''-''"
    using format_civil_chars by (cases "civil (dtime d div day_ns)") (simp add: Date_String_def)
  then have "json_string (Date_MarshalJSON d) = Inr (Date_String d)" using assms by (simp add: json_strings_def Date_MarshalJSON_def)
  then have "date_ok d \<longrightarrow> ParseDate (Date_String d) = Inr d \<and> Date_UnmarshalJSON json_string (Date_MarshalJSON d) = Inr d"
    by (simp add: Date_UnmarshalJSON_def ParseDate_String)
  moreover have "(\<exists>err. Date_UnmarshalJSON json_string b = Inl err) \<longleftrightarrow> (\<forall>s. json_string b = Inr s \<longrightarrow> parse_civil s = None)"
    by (auto simp: Date_UnmarshalJSON_def ParseDate_def split: sum.splits option.splits)
  ultimately show ?thesis ..
qed

theorem date_round_trips_witness:
  "Date_UnmarshalJSON (\<lambda>b. Inr (butlast (tl b))) (Date_MarshalJSON (NewDate 2026 9 15)) = Inr (NewDate 2026 9 15)"
proof -
  have "json_strings (\<lambda>b. Inr (butlast (tl b)))" by (simp add: json_strings_def)
  moreover have "date_ok (NewDate 2026 9 15)" by code_simp
  ultimately show ?thesis using date_round_trips [of "\<lambda>b. Inr (butlast (tl b))" "NewDate 2026 9 15"] by blast
qed

text \<open>
  C20: \<open>DaysBetween\<close>, computed through a saturating duration and floating-point hours, is the absolute
  difference of the day numbers for any two dates at midnight less than \<open>2 ^ 63\<close> ns (292 years) apart.
\<close>

theorem days_between_exact:
  "at_midnight a \<Longrightarrow> at_midnight b \<Longrightarrow> \<bar>dtime a - dtime b\<bar> < 2 ^ 63 \<Longrightarrow>
     DaysBetween a b = \<bar>day_of a - day_of b\<bar>"
  by (rule DaysBetween_days)

theorem days_between_exact_witness:
  "at_midnight (NewDate 2026 9 15) \<and> at_midnight (NewDate 2026 9 17) \<and>
   DaysBetween (NewDate 2026 9 15) (NewDate 2026 9 17) = 2"
proof -
  have h: "at_midnight (NewDate 2026 9 15)" "at_midnight (NewDate 2026 9 17)"
    "\<bar>dtime (NewDate 2026 9 15) - dtime (NewDate 2026 9 17)\<bar> < 2 ^ 63"
    "\<bar>day_of (NewDate 2026 9 15) - day_of (NewDate 2026 9 17)\<bar> = 2"
    by code_simp+
  show ?thesis using h(1,2,4) days_between_exact [OF h(1-3)] by simp
qed

end
