(* ===== verification/Recon_Rules.thy ===== *)
theory Recon_Rules
  imports Recon_Leg
begin

text \<open>
  The matching rules (\<open>internal/domain/recon/rules.go\<close>): rule identifiers, the tunable parameters
  and their validation, the amount tolerance computed in floating point, the value-date window and
  the confidence of a tolerant match.
\<close>

subsection \<open>Rules\<close>

abbreviation (input) RuleT1Exact :: string where "RuleT1Exact \<equiv> ''T1.exact@v1''"
abbreviation (input) RuleT2Tolerant :: string where "RuleT2Tolerant \<equiv> ''T2.ref-tolerant@v1''"
abbreviation (input) RuleT2AmountDate :: string where "RuleT2AmountDate \<equiv> ''T2.amount-date@v1''"
abbreviation (input) RuleT2Late :: string where "RuleT2Late \<equiv> ''T2.late-arrival@v1''"
abbreviation (input) RuleT3Subset :: string where "RuleT3Subset \<equiv> ''T3.subset-sum@v1''"

record Rules =
  ToleranceBps :: int
  ToleranceAbsMinor :: int
  ValueDateWindowDays :: int
  T3MaxCandidates :: int
  T3MaxSubset :: int
  T3RequireBatchHint :: bool

definition DefaultRules :: Rules where
  "DefaultRules =
     \<lparr>ToleranceBps = 10, ToleranceAbsMinor = 2, ValueDateWindowDays = 2, T3MaxCandidates = 24,
      T3MaxSubset = 6, T3RequireBatchHint = True\<rparr>"

definition Rules_errs :: "Rules \<Rightarrow> goerr list" where
  "Rules_errs r =
     (if ToleranceBps r < 0 \<or> ToleranceBps r > 10000
      then [ErrText (''tolerance_bps must be within [0,10000], got '' @ FormatInt (ToleranceBps r))]
      else []) @
     (if ToleranceAbsMinor r < 0
      then [ErrText (''tolerance_abs_minor must be >= 0, got '' @ FormatInt (ToleranceAbsMinor r))]
      else []) @
     (if ValueDateWindowDays r < 0 \<or> ValueDateWindowDays r > 365
      then [ErrText (''value_date_window_days must be within [0,365], got '' @
              FormatInt (ValueDateWindowDays r))]
      else []) @
     (if T3MaxCandidates r < 2 \<or> T3MaxCandidates r > 64
      then [ErrText (''t3_max_candidates must be within [2,64], got '' @ FormatInt (T3MaxCandidates r))]
      else []) @
     (if T3MaxSubset r < 2 \<or> T3MaxSubset r > 12
      then [ErrText (''t3_max_subset must be within [2,12], got '' @ FormatInt (T3MaxSubset r))]
      else [])"

definition Rules_Validate :: "Rules \<Rightarrow> goerr option" where
  "Rules_Validate r = (if Rules_errs r = [] then None else Some (Joined (Rules_errs r)))"

subsection \<open>Tolerance, window, confidence\<close>

definition Tolerance :: "Rules \<Rightarrow> int \<Rightarrow> int" where
  "Tolerance r amount =
     (let amount = (if amount < 0 then i64 (- amount) else amount);
          rel = int64_of_f64 (of_int (math_round
                  (f64 (f64 (f64_of_int64 amount * f64_of_int64 (ToleranceBps r)) / 10000))))
      in if rel > ToleranceAbsMinor r then rel else ToleranceAbsMinor r)"

definition WithinTolerance :: "Rules \<Rightarrow> int \<Rightarrow> int \<Rightarrow> bool" where
  "WithinTolerance r a b =
     (let d = i64 (a - b); d = (if d < 0 then i64 (- d) else d) in d \<le> Tolerance r a)"

definition WithinDateWindow :: "Rules \<Rightarrow> Date \<Rightarrow> Date \<Rightarrow> bool" where
  "WithinDateWindow r a b \<longleftrightarrow> DaysBetween a b \<le> ValueDateWindowDays r"

definition tolerantConfidence :: "int \<Rightarrow> int \<Rightarrow> rat" where
  "tolerantConfidence residual tolerance =
     (let residual = (if residual < 0 then i64 (- residual) else residual)
      in if tolerance \<le> 0 then f64 (95 / 100)
         else let f = f64 (f64_of_int64 residual / f64_of_int64 tolerance);
                  f = (if f > 1 then 1 else f)
              in f64 (of_int (math_round (f64 (f64 (f64 (95 / 100) - f64 (f64 (15 / 100) * f)) * 1000))) / 1000))"

subsection \<open>Facts\<close>

definition rules_ok :: "Rules \<Rightarrow> bool" where
  "rules_ok r \<longleftrightarrow>
     0 \<le> ToleranceBps r \<and> ToleranceBps r \<le> 10000 \<and> 0 \<le> ToleranceAbsMinor r \<and>
     0 \<le> ValueDateWindowDays r \<and> ValueDateWindowDays r \<le> 365 \<and>
     2 \<le> T3MaxCandidates r \<and> T3MaxCandidates r \<le> 64 \<and> 2 \<le> T3MaxSubset r \<and> T3MaxSubset r \<le> 12"

lemma Rules_Validate_None: "Rules_Validate r = None \<longleftrightarrow> rules_ok r"
  by (auto simp: Rules_Validate_def Rules_errs_def rules_ok_def)

lemma Tolerance_ge_abs: "ToleranceAbsMinor r \<le> Tolerance r a"
  by (simp add: Tolerance_def Let_def)

lemma Tolerance_nonneg: "rules_ok r \<Longrightarrow> 0 \<le> Tolerance r a"
  using Tolerance_ge_abs [of r a] by (simp add: rules_ok_def)

lemma WithinTolerance_amount:
  "amount_ok a \<Longrightarrow> amount_ok b \<Longrightarrow> WithinTolerance r a b \<longleftrightarrow> \<bar>a - b\<bar> \<le> Tolerance r a"
  by (auto simp: WithinTolerance_def Let_def i64_simps)

text \<open>
  The relative tolerance in exact arithmetic: half a unit is rounded up. The quotient of two
  integers differs from a half by at least \<open>1 / 10000\<close>, more than the rounding error of the
  division, and the half itself is a floating-point number.
\<close>

lemma round_quotient:
  fixes p :: int
  assumes "0 \<le> p" "p < 2 ^ 53"
  shows "math_round (f64 (of_int p / 10000)) = (p + 5000) div 10000"
proof -
  define k where "k = (p + 5000) div 10000"
  have k: "10000 * k \<le> p + 5000" "p + 5000 < 10000 * k + 10000" by (simp_all add: k_def)
  then have k0: "0 \<le> k" "k < 2 ^ 52" using assms by simp_all
  let ?x = "of_int p / 10000 :: rat"
  have p: "of_int (10000 * k - 5000) \<le> (of_int p :: rat)" "of_int p \<le> (of_int (10000 * k + 4999) :: rat)"
    using k by (simp_all only: of_int_le_iff)
  have "of_int (k - 1) + 1 / 2 \<le> ?x" using p(1) by simp
  then have "f64 (of_int (k - 1) + 1 / 2) \<le> f64 ?x" by (rule f64_mono)
  moreover have "f64 (of_int (k - 1) + 1 / 2) = of_int (k - 1) + 1 / 2"
    using k0 by (intro f64_half) simp
  ultimately have lo: "of_int k - 1 / 2 \<le> f64 ?x" by simp
  have "\<bar>f64 ?x - ?x\<bar> \<le> \<bar>?x\<bar> / 2 ^ 53" by (rule f64_relative_error)
  also have "\<bar>?x\<bar> / 2 ^ 53 < 1 / 10000"
    using assms by (simp add: field_simps)
  finally have "f64 ?x < ?x + 1 / 10000" by linarith
  also have "\<dots> \<le> of_int k + 1 / 2" using p(2) by simp
  finally have hi: "f64 ?x < of_int k + 1 / 2" .
  have "\<lfloor>f64 ?x + 1 / 2\<rfloor> = k" by (rule floor_unique) (use lo hi in linarith)+
  moreover have "0 \<le> f64 ?x" using assms by (intro f64_nonneg) simp
  ultimately show ?thesis by (simp add: math_round_def k_def)
qed

lemma Tolerance_exact:
  assumes "0 \<le> a" "0 \<le> ToleranceBps r" "ToleranceBps r \<le> 10000" "a * 10000 < 2 ^ 53"
  shows "Tolerance r a = max (ToleranceAbsMinor r) ((a * ToleranceBps r + 5000) div 10000)"
proof -
  have p: "0 \<le> a * ToleranceBps r" "a * ToleranceBps r < 2 ^ 53"
    using assms mult_left_mono [OF assms(3,1)] by auto
  have small: "f64_of_int64 a = of_int a" "f64_of_int64 (ToleranceBps r) = of_int (ToleranceBps r)"
    using assms by simp_all
  have "f64 (of_int a * of_int (ToleranceBps r)) = of_int (a * ToleranceBps r)"
    using p f64_of_int [of "a * ToleranceBps r"] by simp
  then have "math_round (f64 (f64 (of_int a * of_int (ToleranceBps r)) / 10000)) =
      (a * ToleranceBps r + 5000) div 10000"
    using round_quotient [OF p] by simp
  moreover have "in_i64 ((a * ToleranceBps r + 5000) div 10000)"
    using p by (simp add: in_i64_def) linarith
  ultimately show ?thesis
    using assms(1) by (simp add: Tolerance_def Let_def small int64_of_f64_of_int max_def)
qed

text \<open>Amounts up to \<open>2 ^ 61\<close> have a tolerance of at most \<open>2 ^ 61\<close>, by the monotonicity of rounding.\<close>

definition small_rules :: "Rules \<Rightarrow> bool" where
  "small_rules r \<longleftrightarrow> rules_ok r \<and> ToleranceAbsMinor r \<le> 2 ^ 61"

lemma Tolerance_small:
  assumes r: "small_rules r" and a: "0 < a" "a \<le> 2 ^ 61"
  shows "0 \<le> Tolerance r a" "Tolerance r a \<le> 2 ^ 61"
proof -
  let ?b = "ToleranceBps r"
  have b: "0 \<le> ?b" "?b \<le> 10000" using r by (simp_all add: small_rules_def rules_ok_def)
  show "0 \<le> Tolerance r a" using r by (intro Tolerance_nonneg) (simp add: small_rules_def)
  have fa: "f64_of_int64 a \<le> 2 ^ 61" "0 \<le> f64_of_int64 a"
  proof -
    have "(of_int a :: rat) \<le> of_int (2 ^ 61)" using a(2) by (simp only: of_int_le_iff)
    then have "f64 (of_int a) \<le> f64 (of_int (2 ^ 61))" by (rule f64_mono)
    also have "f64 (of_int (2 ^ 61)) = 2 ^ 61" by code_simp
    finally show "f64_of_int64 a \<le> 2 ^ 61" by (simp only: f64_of_int64_def)
    show "0 \<le> f64_of_int64 a" using a(1) by (simp add: f64_of_int64_def f64_nonneg)
  qed
  have fb: "f64_of_int64 ?b = of_int ?b" using b by simp
  have b': "0 \<le> (of_int ?b :: rat)" "(of_int ?b :: rat) \<le> 10000" using b by simp_all
  have "f64_of_int64 a * of_int ?b \<le> 2 ^ 61 * 10000" using fa b' by (intro mult_mono) simp_all
  then have "f64 (f64_of_int64 a * of_int ?b) \<le> f64 (2 ^ 61 * 10000)" by (rule f64_mono)
  also have "f64 (2 ^ 61 * 10000) = 2 ^ 61 * 10000" by code_simp
  finally have "f64 (f64_of_int64 a * of_int ?b) / 10000 \<le> 2 ^ 61" by simp
  then have "f64 (f64 (f64_of_int64 a * of_int ?b) / 10000) \<le> f64 (2 ^ 61)" by (rule f64_mono)
  also have "f64 (2 ^ 61) = of_int (2 ^ 61)" by code_simp
  finally have "math_round (f64 (f64 (f64_of_int64 a * of_int ?b) / 10000)) \<le> math_round (of_int (2 ^ 61))"
    by (rule math_round_mono)
  then have hi: "math_round (f64 (f64 (f64_of_int64 a * of_int ?b) / 10000)) \<le> 2 ^ 61" by (simp only: math_round_of_int)
  have "math_round (of_int 0) \<le> math_round (f64 (f64 (f64_of_int64 a * of_int ?b) / 10000))"
    using fa b' by (intro math_round_mono f64_nonneg) (simp add: f64_nonneg)
  then have lo: "0 \<le> math_round (f64 (f64 (f64_of_int64 a * of_int ?b) / 10000))"
    by (simp only: math_round_of_int)
  have "int64_of_f64 (of_int (math_round (f64 (f64 (f64_of_int64 a * of_int ?b) / 10000)))) \<le> 2 ^ 61"
    using lo hi by (subst int64_of_f64_of_int) (auto simp: in_i64_def)
  then show "Tolerance r a \<le> 2 ^ 61"
    using a r unfolding Tolerance_def Let_def fb small_rules_def by simp
qed

subsection \<open>Confidence\<close>

text \<open>The confidence as a function of the residual's share of the tolerance.\<close>

definition confidence_at :: "rat \<Rightarrow> rat" where
  "confidence_at f =
     f64 (of_int (math_round (f64 (f64 (f64 (95 / 100) - f64 (f64 (15 / 100) * f)) * 1000))) / 1000)"

lemma confidence_at_antimono: "f \<le> g \<Longrightarrow> confidence_at g \<le> confidence_at f"
proof -
  assume "f \<le> g"
  moreover have "0 \<le> f64 (15 / 100)" by (rule f64_nonneg) simp
  ultimately have "f64 (f64 (15 / 100) * f) \<le> f64 (f64 (15 / 100) * g)"
    by (intro f64_mono mult_left_mono)
  then have "f64 (f64 (95 / 100) - f64 (f64 (15 / 100) * g)) * 1000
      \<le> f64 (f64 (95 / 100) - f64 (f64 (15 / 100) * f)) * 1000"
    by (intro mult_right_mono f64_mono) simp_all
  then show ?thesis unfolding confidence_at_def
    by (intro f64_mono divide_right_mono of_int_le_iff [THEN iffD2] math_round_mono) simp_all
qed

lemma confidence_at_0: "confidence_at 0 = f64 (95 / 100)"
  by code_simp

lemma confidence_at_1: "confidence_at 1 = f64 (80 / 100)"
  by code_simp

lemma tolerantConfidence_at:
  assumes "0 < tolerance" "- (2 ^ 63) < residual" "residual < 2 ^ 63"
  shows "tolerantConfidence residual tolerance =
    confidence_at (min 1 (f64 (f64_of_int64 \<bar>residual\<bar> / f64_of_int64 tolerance)))"
proof -
  have "(if residual < 0 then i64 (- residual) else residual) = \<bar>residual\<bar>"
    using abs64_abs [OF assms(2,3)] by (simp add: abs64_def)
  then show ?thesis
    using assms(1) by (simp add: tolerantConfidence_def confidence_at_def Let_def min_def not_less)
qed

lemma tolerantConfidence_bounds:
  assumes "- (2 ^ 63) < residual" "residual < 2 ^ 63"
  shows "f64 (80 / 100) \<le> tolerantConfidence residual tolerance"
    and "tolerantConfidence residual tolerance \<le> f64 (95 / 100)"
proof -
  have ord: "f64 (80 / 100) \<le> f64 (95 / 100)" by (rule f64_mono) simp
  have "f64 (80 / 100) \<le> tolerantConfidence residual tolerance \<and>
    tolerantConfidence residual tolerance \<le> f64 (95 / 100)"
  proof (cases "0 < tolerance")
    case True
    define f where "f = min 1 (f64 (f64_of_int64 \<bar>residual\<bar> / f64_of_int64 tolerance))"
    have "f \<le> 1" by (simp add: f_def)
    moreover have "0 \<le> f"
      using True by (auto simp: f_def f64_of_int64_def intro!: f64_nonneg divide_nonneg_nonneg)
    ultimately show ?thesis
      using confidence_at_antimono [of f 1] confidence_at_antimono [of 0 f]
      unfolding tolerantConfidence_at [OF True assms] f_def [symmetric] confidence_at_0 confidence_at_1
      by simp
  next
    case False
    then have "tolerantConfidence residual tolerance = f64 (95 / 100)"
      by (simp add: tolerantConfidence_def)
    then show ?thesis using ord by simp
  qed
  then show "f64 (80 / 100) \<le> tolerantConfidence residual tolerance"
    and "tolerantConfidence residual tolerance \<le> f64 (95 / 100)" by blast+
qed

lemma tolerantConfidence_0: "tolerantConfidence 0 tolerance = f64 (95 / 100)"
proof (cases "0 < tolerance")
  case True
  have "min 1 (f64 (f64_of_int64 \<bar>0\<bar> / f64_of_int64 tolerance)) = 0"
    by (simp add: f64_of_int64_def f64_of_int [of 0, simplified])
  then show ?thesis
    using tolerantConfidence_at [OF True, of 0] confidence_at_0 by simp
next
  case False
  then show ?thesis by (simp add: tolerantConfidence_def)
qed

lemma tolerantConfidence_antimono:
  assumes "\<bar>residual\<bar> \<le> \<bar>residual'\<bar>" "\<bar>residual'\<bar> < 2 ^ 63"
  shows "tolerantConfidence residual' tolerance \<le> tolerantConfidence residual tolerance"
proof (cases "0 < tolerance")
  case True
  have r: "- (2 ^ 63) < residual" "residual < 2 ^ 63" "- (2 ^ 63) < residual'" "residual' < 2 ^ 63"
    using assms by auto
  have "0 \<le> f64_of_int64 tolerance" using True by (simp add: f64_of_int64_def f64_nonneg)
  moreover have "f64_of_int64 \<bar>residual\<bar> \<le> f64_of_int64 \<bar>residual'\<bar>"
    using assms(1) unfolding f64_of_int64_def by (intro f64_mono) (simp only: of_int_le_iff)
  ultimately have "f64 (f64_of_int64 \<bar>residual\<bar> / f64_of_int64 tolerance)
      \<le> f64 (f64_of_int64 \<bar>residual'\<bar> / f64_of_int64 tolerance)"
    by (intro f64_mono divide_right_mono)
  then show ?thesis
    unfolding tolerantConfidence_at [OF True r(1,2)] tolerantConfidence_at [OF True r(3,4)]
    by (intro confidence_at_antimono) auto
next
  case False
  then show ?thesis by (simp add: tolerantConfidence_def)
qed

subsection \<open>Properties\<close>

text \<open>
  C38: \<open>Rules.Validate\<close> accepts exactly the parameter sets with 0 to 10000 basis points, a tolerance
  and a window that are not negative, a window of at most a year, 2 to 64 candidates and subsets of
  2 to 12 legs; the shipped defaults are among them.
\<close>

theorem rules_validated: "(Rules_Validate r = None \<longleftrightarrow> rules_ok r) \<and> Rules_Validate DefaultRules = None"
  by (auto simp: Rules_Validate_None) (simp add: DefaultRules_def rules_ok_def)

text \<open>
  C21: for amounts up to \<open>2 ^ 53 / 10000\<close> minor units the floating-point tolerance is exact: the larger
  of the absolute tolerance and the amount times basis points over 10000, rounded half up.
\<close>

theorem tolerance_exact:
  assumes "0 \<le> a" "0 \<le> ToleranceBps r" "ToleranceBps r \<le> 10000" "a * 10000 < 2 ^ 53"
  shows "Tolerance r a = max (ToleranceAbsMinor r) ((a * ToleranceBps r + 5000) div 10000)"
  by (rule Tolerance_exact [OF assms])

theorem tolerance_exact_witness: "Tolerance DefaultRules 10500 = 11"
proof -
  have h: "0 \<le> (10500 :: int)" "0 \<le> ToleranceBps DefaultRules" "ToleranceBps DefaultRules \<le> 10000"
    "10500 * 10000 < (2 ^ 53 :: int)" by (simp_all add: DefaultRules_def)
  show ?thesis using tolerance_exact [OF h] by (simp add: DefaultRules_def)
qed

text \<open>
  the confidence of a tolerant match lies between the floating-point numbers 0.80 and 0.95, is
  0.95 for a zero residual, and never grows with the size of the residual.
\<close>

theorem confidence_graded:
  assumes "\<bar>residual\<bar> \<le> \<bar>residual'\<bar>" "\<bar>residual'\<bar> < 2 ^ 63"
  shows "f64 (80 / 100) \<le> tolerantConfidence residual' tol \<and>
    tolerantConfidence residual' tol \<le> tolerantConfidence residual tol \<and>
    tolerantConfidence residual tol \<le> tolerantConfidence 0 tol \<and>
    tolerantConfidence 0 tol = f64 (95 / 100)"
proof (intro conjI)
  show "f64 (80 / 100) \<le> tolerantConfidence residual' tol"
    using assms by (intro tolerantConfidence_bounds) auto
  show "tolerantConfidence residual' tol \<le> tolerantConfidence residual tol"
    using assms by (rule tolerantConfidence_antimono)
  show "tolerantConfidence residual tol \<le> tolerantConfidence 0 tol"
    using assms by (intro tolerantConfidence_antimono) auto
  show "tolerantConfidence 0 tol = f64 (95 / 100)" by (rule tolerantConfidence_0)
qed

theorem confidence_graded_witness: "tolerantConfidence (- 7) 10 \<le> tolerantConfidence 3 10"
proof -
  have h: "\<bar>3 :: int\<bar> \<le> \<bar>- 7\<bar>" "\<bar>- 7 :: int\<bar> < 2 ^ 63" by simp_all
  show ?thesis using confidence_graded [OF h, of 10] by blast
qed

end
