(* ===== verification/Recon_Types.thy ===== *)
theory Recon_Types
  imports Recon_Rules
begin

text \<open>
  The records the engine produces and persists: matches and breaks (\<open>match.go\<close>), events and change
  sets (\<open>event.go\<close>), classifier input and verdict (\<open>classifier.go\<close>), all under
  \<open>internal/domain/recon\<close>, and the identifiers derived from leg identifiers.

  An event carries its payload as a value: the texts of a leg are valid UTF-8 (they come out of
  \<open>encoding/json\<close>, which replaces anything else), so decoding an encoded payload gives the value
  back. Encoding fails for an instant whose year has not four digits, which \<open>NewEvent\<close> reports.
\<close>

subsection \<open>Tiers\<close>

datatype Tier = TierExact | TierTolerant | TierManyToOne

fun tier_int :: "Tier \<Rightarrow> int" where
  "tier_int TierExact = 1"
| "tier_int TierTolerant = 2"
| "tier_int TierManyToOne = 3"

lemma tier_int_inj: "tier_int s = tier_int t \<Longrightarrow> s = t"
  by (cases s; cases t) simp_all

instantiation Tier :: linorder
begin

definition less_eq_Tier :: "Tier \<Rightarrow> Tier \<Rightarrow> bool" where
  "s \<le> t \<longleftrightarrow> tier_int s \<le> tier_int t"

definition less_Tier :: "Tier \<Rightarrow> Tier \<Rightarrow> bool" where
  "s < t \<longleftrightarrow> tier_int s < tier_int t"

instance
  by standard (auto simp: less_eq_Tier_def less_Tier_def intro: tier_int_inj)

end

subsection \<open>Matches and breaks\<close>

record Match =
  MID :: string
  MLegIDs :: "string list"
  MTier :: Tier
  MRuleID :: string
  MConfidence :: rat
  MResidualMinor :: int
  MCurrency :: string
  MatchedAt :: Time

abbreviation (input) CatFee :: string where "CatFee \<equiv> ''fee''"
abbreviation (input) CatFXDrift :: string where "CatFXDrift \<equiv> ''fx_drift''"
abbreviation (input) CatTiming :: string where "CatTiming \<equiv> ''timing''"
abbreviation (input) CatDuplicate :: string where "CatDuplicate \<equiv> ''duplicate''"
abbreviation (input) CatMissingCounterparty :: string where
  "CatMissingCounterparty \<equiv> ''missing_counterparty''"
abbreviation (input) CatUnclassified :: string where "CatUnclassified \<equiv> ''unclassified''"

abbreviation (input) BreakOpen :: string where "BreakOpen \<equiv> ''open''"
abbreviation (input) BreakResolved :: string where "BreakResolved \<equiv> ''resolved''"

record Break =
  BID :: string
  BLegIDs :: "string list"
  BCurrency :: string
  BCounterparty :: string
  BCategory :: string
  BConfidence :: rat
  BClassifierID :: string
  BTrigger :: string
  BStatus :: string
  OpenedAt :: Time
  ResolvedAt :: "Time option"
  BReason :: string
  BActor :: string
  AgeSeconds :: int

definition Age :: "Break \<Rightarrow> Time \<Rightarrow> Duration" where
  "Age b now = (let end = (case ResolvedAt b of None \<Rightarrow> now | Some t \<Rightarrow> t) in time_sub end (OpenedAt b))"

definition DeriveID :: "(string \<Rightarrow> string) \<Rightarrow> string \<Rightarrow> string list \<Rightarrow> string" where
  "DeriveID sha256 pre legIDs =
     (let ids = sort legIDs; sum = sha256 (join [CHR 0x00] ids) in pre @ ''_'' @ take 20 sum)"

subsection \<open>Classifier interface\<close>

abbreviation (input) TriggerRefConflict :: string where "TriggerRefConflict \<equiv> ''ref_conflict''"
abbreviation (input) TriggerDuplicate :: string where "TriggerDuplicate \<equiv> ''duplicate''"
abbreviation (input) TriggerWindowExpired :: string where "TriggerWindowExpired \<equiv> ''window_expired''"

record ClassifyInput =
  in_Legs :: "Leg list"
  in_Related :: "Leg list"
  in_Trigger :: string
  in_Rules :: Rules

record Classification =
  c_Category :: string
  c_Confidence :: rat
  c_ClassifierID :: string
  c_Evidence :: string

subsection \<open>Events and change sets\<close>

abbreviation (input) EvLegIngested :: string where "EvLegIngested \<equiv> ''leg.ingested''"
abbreviation (input) EvLegDuplicate :: string where "EvLegDuplicate \<equiv> ''leg.duplicate''"
abbreviation (input) EvLegExpired :: string where "EvLegExpired \<equiv> ''leg.expired''"
abbreviation (input) EvMatchCreated :: string where "EvMatchCreated \<equiv> ''match.created''"
abbreviation (input) EvBreakOpened :: string where "EvBreakOpened \<equiv> ''break.opened''"
abbreviation (input) EvBreakResolved :: string where "EvBreakResolved \<equiv> ''break.resolved''"
abbreviation (input) EvWindowClosed :: string where "EvWindowClosed \<equiv> ''window.closed''"
abbreviation (input) EvReplayStarted :: string where "EvReplayStarted \<equiv> ''replay.started''"

record ResolutionPayload =
  rp_BreakID :: string
  rp_Reason :: string
  rp_Actor :: string
  rp_At :: Time
  rp_MatchID :: string

datatype Payload =
    PLeg Leg
  | PMatch Match
  | PBreak Break
  | PResolution ResolutionPayload
  | PExpired string bool
  | PClosed int Duration
  | PReplay int int

record Event =
  Seq :: int
  Type :: string
  At :: Time
  AggregateID :: string
  Payload :: Payload

text \<open>\<open>Time.MarshalJSON\<close> accepts the instants of the years 0 to 9999.\<close>

definition time_json_ok :: "Time \<Rightarrow> bool" where
  "time_json_ok t \<longleftrightarrow> day_number 0 1 1 * day_ns \<le> t \<and> t < day_number 10000 1 1 * day_ns"

fun payload_times :: "Payload \<Rightarrow> Time list" where
  "payload_times (PLeg l) = [IngestedAt l]"
| "payload_times (PMatch m) = [MatchedAt m]"
| "payload_times (PBreak b) = OpenedAt b # (case ResolvedAt b of None \<Rightarrow> [] | Some t \<Rightarrow> [t])"
| "payload_times (PResolution r) = [rp_At r]"
| "payload_times (PExpired _ _) = []"
| "payload_times (PClosed _ _) = []"
| "payload_times (PReplay _ _) = []"

definition NewEvent :: "string \<Rightarrow> Time \<Rightarrow> string \<Rightarrow> Payload \<Rightarrow> Event result" where
  "NewEvent typ now aggregateID payload =
     (if list_all time_json_ok (payload_times payload)
      then Inr \<lparr>Seq = 0, Type = typ, At = now, AggregateID = aggregateID, Payload = payload\<rparr>
      else Inl (Errorf (''marshal '' @ typ @ '' payload: '') (ErrLib ''json.Marshal'') ''''))"

record ChangeSet =
  csLegs :: "Leg list"
  csMatches :: "Match list"
  csBreaks :: "Break list"
  csEvents :: "Event list"

definition empty_cs :: ChangeSet where
  "empty_cs = \<lparr>csLegs = [], csMatches = [], csBreaks = [], csEvents = []\<rparr>"

definition cs_Empty :: "ChangeSet \<Rightarrow> bool" where
  "cs_Empty c \<longleftrightarrow> csLegs c = [] \<and> csMatches c = [] \<and> csBreaks c = [] \<and> csEvents c = []"

definition addEvent :: "ChangeSet \<Rightarrow> string \<Rightarrow> Time \<Rightarrow> string \<Rightarrow> Payload \<Rightarrow> ChangeSet result" where
  "addEvent c typ now aggregateID payload =
     (case NewEvent typ now aggregateID payload of
        Inl err \<Rightarrow> Inl err
      | Inr ev \<Rightarrow> Inr (c\<lparr>csEvents := csEvents c @ [ev]\<rparr>))"

text \<open>
  Decoding a payload into a leg sets the fields that its object has, \<open>value_date\<close> through
  \<open>Date.UnmarshalJSON\<close>, and leaves the others at their zero value.
\<close>

definition zero_leg :: Leg where
  "zero_leg =
     \<lparr>ID = '''', Source = '''', TxnRef = '''', AmountMinor = 0, Currency = '''',
      ValueDate = Date time_zero, Direction = '''', Counterparty = '''', Attrs = [],
      IngestedAt = time_zero, Status = '''', MatchID = '''', BreakID = ''''\<rparr>"

fun decode_leg :: "Payload \<Rightarrow> Leg result" where
  "decode_leg (PLeg l) =
     (case ParseDate (Date_String (ValueDate l)) of
        Inl err \<Rightarrow> Inl err
      | Inr d \<Rightarrow> Inr (l\<lparr>ValueDate := d\<rparr>))"
| "decode_leg (PMatch m) = Inr (zero_leg\<lparr>ID := MID m, Currency := MCurrency m\<rparr>)"
| "decode_leg (PBreak b) =
     Inr (zero_leg\<lparr>ID := BID b, Currency := BCurrency b, Counterparty := BCounterparty b,
            Status := BStatus b\<rparr>)"
| "decode_leg (PResolution r) = Inr (zero_leg\<lparr>BreakID := rp_BreakID r, MatchID := rp_MatchID r\<rparr>)"
| "decode_leg (PExpired _ _) = Inr zero_leg"
| "decode_leg (PClosed _ _) = Inr zero_leg"
| "decode_leg (PReplay _ _) = Inr zero_leg"

definition unmarshalLeg :: "(string \<Rightarrow> string) \<Rightarrow> Payload \<Rightarrow> Leg result" where
  "unmarshalLeg sha256 raw =
     (case decode_leg raw of
        Inl err \<Rightarrow> Inl (Errorf ''decode leg payload: '' err '''')
      | Inr l \<Rightarrow>
          (case Validate l of
             (_, Some err) \<Rightarrow> Inl err
           | (l, None) \<Rightarrow>
               Inr ((AssignID sha256 l)\<lparr>Status := '''', MatchID := '''', BreakID := ''''\<rparr>)))"

subsection \<open>Facts\<close>

lemma DeriveID_perm: "mset ids = mset ids' \<Longrightarrow> DeriveID sha256 p ids = DeriveID sha256 p ids'"
proof -
  assume "mset ids = mset ids'"
  then have "sort ids = sort ids'" by (intro properties_for_sort) simp_all
  then show ?thesis by (simp add: DeriveID_def)
qed

lemma addEvent_Inr:
  "addEvent c typ now a p = Inr c' \<longleftrightarrow>
     list_all time_json_ok (payload_times p) \<and>
     c' = c\<lparr>csEvents := csEvents c @ [\<lparr>Seq = 0, Type = typ, At = now, AggregateID = a, Payload = p\<rparr>]\<rparr>"
  by (auto simp: addEvent_def NewEvent_def)

end
