(* ===== verification/Recon_Index.thy ===== *)
theory Recon_Index
  imports Recon_Types
begin

text \<open>
  The in-memory index of open legs (\<open>internal/domain/recon/index.go\<close>): a primary map from
  identifiers to legs and three secondary maps, by window and source, by reference and by batch.

  The invariant \<open>ix_ok\<close> says that every secondary map holds exactly the legs of the primary one
  under their keys and keeps no empty bucket. Under it every query is a sorted selection from the
  primary map (\<open>query\<close>), so that no answer depends on the iteration order of a Go map.
\<close>

subsection \<open>The index\<close>

type_synonym bucket = "(string, Leg) gomap"

record Index =
  ttl :: Duration
  byKey :: "(WindowKey, (string, bucket) gomap) gomap"
  byRef :: "(string, bucket) gomap"
  byBatch :: "(string, bucket) gomap"
  byID :: bucket

definition NewIndex :: "Duration \<Rightarrow> Index" where
  "NewIndex t = \<lparr>ttl = t, byKey = [], byRef = [], byBatch = [], byID = []\<rparr>"

definition Len :: "Index \<Rightarrow> nat" where
  "Len ix = length (byID ix)"

definition put :: "(string, bucket) gomap \<Rightarrow> string \<Rightarrow> Leg \<Rightarrow> (string, bucket) gomap" where
  "put m key lp = gm_put key (gm_put (ID lp) lp (gm_inner m key)) m"

definition del :: "(string, bucket) gomap \<Rightarrow> string \<Rightarrow> string \<Rightarrow> (string, bucket) gomap" where
  "del m key i =
     (let b = gm_del i (gm_inner m key) in if b = [] then gm_del key m else gm_put key b m)"

definition Add :: "Index \<Rightarrow> Leg \<Rightarrow> Index" where
  "Add ix l =
     (if gm_get (byID ix) (ID l) \<noteq> None then ix
      else let k = Key l; m = gm_inner (byKey ix) k; b = attr l AttrBatchRef
           in ix\<lparr>byKey := gm_put k (gm_put (Source l) (gm_put (ID l) l (gm_inner m (Source l))) m) (byKey ix),
                 byRef := put (byRef ix) (TxnRef l) l,
                 byBatch := (if b \<noteq> '''' then put (byBatch ix) b l else byBatch ix),
                 byID := gm_put (ID l) l (byID ix)\<rparr>)"

definition Remove1 :: "string \<Rightarrow> Index \<Rightarrow> Index" where
  "Remove1 i ix =
     (case gm_get (byID ix) i of
        None \<Rightarrow> ix
      | Some lp \<Rightarrow>
          let k = Key lp; m = gm_inner (byKey ix) k; s = gm_del i (gm_inner m (Source lp));
              m' = (if s = [] then gm_del (Source lp) m else gm_put (Source lp) s m);
              b = attr lp AttrBatchRef
          in ix\<lparr>byKey := (if m' = [] then gm_del k (byKey ix) else gm_put k m' (byKey ix)),
                byRef := del (byRef ix) (TxnRef lp) i,
                byBatch := (if b \<noteq> '''' then del (byBatch ix) b i else byBatch ix),
                byID := gm_del i (byID ix)\<rparr>)"

definition Remove :: "Index \<Rightarrow> string list \<Rightarrow> Index" where
  "Remove ix ids = fold Remove1 ids ix"

definition Get :: "Index \<Rightarrow> string \<Rightarrow> Leg option" where
  "Get ix i = gm_get (byID ix) i"

subsection \<open>Queries\<close>

definition leg_key :: "Leg \<Rightarrow> Time \<times> string \<times> string" where
  "leg_key l = (dtime (ValueDate l), TxnRef l, ID l)"

definition sortLegs :: "Leg list \<Rightarrow> Leg list" where
  "sortLegs ls = sort_key leg_key ls"

definition collect :: "bucket \<Rightarrow> (Leg \<Rightarrow> bool) \<Rightarrow> Leg list" where
  "collect m keep = (if m = [] then [] else sortLegs (filter keep (map snd m)))"

definition Candidates :: "Index \<Rightarrow> Leg \<Rightarrow> Leg list" where
  "Candidates ix l =
     sortLegs (concat (map (\<lambda>(src, m). if src = Source l then [] else map snd m)
       (gm_inner (byKey ix) (Key l))))"

definition CandidatesByRef :: "Index \<Rightarrow> Leg \<Rightarrow> Leg list" where
  "CandidatesByRef ix l =
     collect (gm_inner (byRef ix) (TxnRef l)) (\<lambda>c. Source c \<noteq> Source l \<and> Key c = Key l)"

definition SameSourceInWindow :: "Index \<Rightarrow> Leg \<Rightarrow> Leg list" where
  "SameSourceInWindow ix l =
     collect (gm_inner (gm_inner (byKey ix) (Key l)) (Source l)) (\<lambda>c. ID c \<noteq> ID l)"

definition ByRef :: "Index \<Rightarrow> Leg \<Rightarrow> Leg list" where
  "ByRef ix l = collect (gm_inner (byRef ix) (TxnRef l)) (\<lambda>c. ID c \<noteq> ID l)"

definition RefLegs :: "Index \<Rightarrow> string \<Rightarrow> Leg list" where
  "RefLegs ix txnRef = collect (gm_inner (byRef ix) txnRef) (\<lambda>_. True)"

definition ByBatch :: "Index \<Rightarrow> Leg \<Rightarrow> string \<Rightarrow> Leg list" where
  "ByBatch ix l batch =
     collect (gm_inner (byBatch ix) batch) (\<lambda>c. ID c \<noteq> ID l \<and> Key c = Key l)"

definition Expired :: "Index \<Rightarrow> Time \<Rightarrow> Duration \<Rightarrow> Leg list" where
  "Expired ix now olderThan =
     (let cutoff = (if olderThan \<ge> 0 then now + i64 (- olderThan) else now + i64 (- ttl ix))
      in collect (byID ix) (\<lambda>c. \<not> IngestedAt c > cutoff))"

definition All :: "Index \<Rightarrow> Leg list" where
  "All ix = collect (byID ix) (\<lambda>_. True)"

subsection \<open>Invariant\<close>

text \<open>A secondary map: under every key the legs of the primary map with that key, and no empty bucket.\<close>

definition sec_ok :: "(Leg \<Rightarrow> 'k option) \<Rightarrow> ('k, bucket) gomap \<Rightarrow> bucket \<Rightarrow> bool" where
  "sec_ok keyof m ids \<longleftrightarrow>
     gm_ok m \<and> (\<forall>k b. gm_get m k = Some b \<longrightarrow> gm_ok b \<and> b \<noteq> []) \<and>
     (\<forall>k i. gm_get (gm_inner m k) i =
        (case gm_get ids i of None \<Rightarrow> None | Some l \<Rightarrow> if keyof l = Some k then Some l else None))"

definition batch_key :: "Leg \<Rightarrow> string option" where
  "batch_key l = (let b = attr l AttrBatchRef in if b = '''' then None else Some b)"

definition ids_ok :: "bucket \<Rightarrow> bool" where
  "ids_ok ids \<longleftrightarrow> gm_ok ids \<and> (\<forall>i l. gm_get ids i = Some l \<longrightarrow> ID l = i)"

definition key_ok :: "(WindowKey, (string, bucket) gomap) gomap \<Rightarrow> bucket \<Rightarrow> bool" where
  "key_ok m ids \<longleftrightarrow>
     gm_ok m \<and> (\<forall>k b. gm_get m k = Some b \<longrightarrow> b \<noteq> []) \<and>
     (\<forall>k. gm_ok (gm_inner m k) \<and>
        (\<forall>s b. gm_get (gm_inner m k) s = Some b \<longrightarrow> gm_ok b \<and> b \<noteq> []) \<and>
        (\<forall>s i. gm_get (gm_inner (gm_inner m k) s) i =
          (case gm_get ids i of
             None \<Rightarrow> None
           | Some l \<Rightarrow> if Key l = k \<and> Source l = s then Some l else None)))"

definition ix_ok :: "Index \<Rightarrow> bool" where
  "ix_ok ix \<longleftrightarrow>
     ids_ok (byID ix) \<and> key_ok (byKey ix) (byID ix) \<and>
     sec_ok (\<lambda>l. Some (TxnRef l)) (byRef ix) (byID ix) \<and> sec_ok batch_key (byBatch ix) (byID ix)"

text \<open>What a query is for: the sorted legs of the primary map that satisfy a predicate.\<close>

definition query :: "Index \<Rightarrow> (Leg \<Rightarrow> bool) \<Rightarrow> Leg list" where
  "query ix P = sortLegs (filter P (map snd (byID ix)))"

subsection \<open>Every operation keeps the invariant\<close>

declare map_of_eq_Some_iff [simp del]

lemma gm_put_not_Nil [simp]: "gm_put k v m \<noteq> []"
  by (cases m) auto

lemma gm_inner_drop:
  "gm_inner (if b = [] then gm_del k m else gm_put k b m) k' = (if k' = k then b else gm_inner m k')"
  by simp

lemma sec_okD:
  assumes "sec_ok keyof m ids"
  shows "gm_ok m" "gm_get m k = Some b \<Longrightarrow> gm_ok b" "gm_get m k = Some b \<Longrightarrow> b \<noteq> []" "gm_ok (gm_inner m k)"
    "gm_get (gm_inner m k) i =
       (case gm_get ids i of None \<Rightarrow> None | Some l \<Rightarrow> if keyof l = Some k then Some l else None)"
  using assms by (auto simp: sec_ok_def gm_inner_def split: option.splits)

lemma sec_ok_put:
  assumes "sec_ok keyof m ids" "keyof l = Some k" "gm_get ids (ID l) = None"
  shows "sec_ok keyof (put m k l) (gm_put (ID l) l ids)"
proof -
  show ?thesis
    using assms(2,3) sec_okD [OF assms(1)] gm_put_not_Nil
    by (auto simp: sec_ok_def put_def split: option.splits if_splits)
qed

lemma sec_ok_skip:
  assumes "sec_ok keyof m ids" "keyof l = None" "gm_get ids (ID l) = None"
  shows "sec_ok keyof m (gm_put (ID l) l ids)"
  using assms by (auto simp: sec_ok_def)

lemma sec_ok_del:
  assumes "sec_ok keyof m ids" "keyof l = Some k" "gm_get ids i = Some l"
  shows "sec_ok keyof (del m k i) (gm_del i ids)"
proof -
  note sec = sec_okD [OF assms(1)]
  define b where "b = gm_del i (gm_inner m k)"
  have look: "gm_get b j = (if j = i then None else
      (case gm_get ids j of None \<Rightarrow> None | Some l \<Rightarrow> if keyof l = Some k then Some l else None))" for j
    using sec(5) [of k j] by (simp add: b_def)
  have del: "del m k i = (if b = [] then gm_del k m else gm_put k b m)"
    by (simp add: del_def Let_def b_def)
  have "gm_ok b" using sec(4) by (simp add: b_def)
  then have "gm_ok (del m k i)" "\<forall>k' c. gm_get (del m k i) k' = Some c \<longrightarrow> gm_ok c \<and> c \<noteq> []"
    using sec(1,2,3) unfolding del by (auto split: if_splits)
  moreover have "gm_get (gm_inner (del m k i) k') j = (case gm_get (gm_del i ids) j of
      None \<Rightarrow> None | Some x \<Rightarrow> if keyof x = Some k' then Some x else None)" for k' j
    unfolding del gm_inner_drop using sec(5) [of k' j] look [of j] assms(2,3)
    by (auto split: option.splits)
  ultimately show ?thesis unfolding sec_ok_def by blast
qed

lemma sec_ok_keep:
  assumes "sec_ok keyof m ids" "keyof l = None" "gm_get ids i = Some l"
  shows "sec_ok keyof m (gm_del i ids)"
  using assms by (auto simp: sec_ok_def)

lemma key_okD:
  assumes "key_ok m ids"
  shows "gm_ok m" "gm_get m k = Some n \<Longrightarrow> n \<noteq> []" "gm_ok (gm_inner m k)"
    "gm_get (gm_inner m k) s = Some b \<Longrightarrow> gm_ok b" "gm_get (gm_inner m k) s = Some b \<Longrightarrow> b \<noteq> []"
    "gm_ok (gm_inner (gm_inner m k) s)"
    "gm_get (gm_inner (gm_inner m k) s) i =
       (case gm_get ids i of
          None \<Rightarrow> None
        | Some l \<Rightarrow> if Key l = k \<and> Source l = s then Some l else None)"
proof -
  show "gm_ok (gm_inner (gm_inner m k) s)"
    using assms unfolding key_ok_def gm_inner_def [of "gm_inner m k" s] by (auto split: option.splits)
qed (use assms in \<open>auto simp: key_ok_def\<close>)

lemma key_ok_add:
  assumes "key_ok m ids" "gm_get ids (ID l) = None"
  defines "n \<equiv> gm_inner m (Key l)"
  shows "key_ok (gm_put (Key l) (gm_put (Source l) (gm_put (ID l) l (gm_inner n (Source l))) n) m)
    (gm_put (ID l) l ids)"
proof -
  note key = key_okD [OF assms(1)]
  show ?thesis unfolding key_ok_def
    using assms(2) key gm_put_not_Nil
    by (auto simp: n_def split: option.splits if_splits)
qed

lemma key_ok_del:
  assumes "key_ok m ids" "gm_get ids i = Some l"
  defines "n \<equiv> gm_inner m (Key l)"
  defines "b \<equiv> gm_del i (gm_inner n (Source l))"
  defines "n' \<equiv> (if b = [] then gm_del (Source l) n else gm_put (Source l) b n)"
  shows "key_ok (if n' = [] then gm_del (Key l) m else gm_put (Key l) n' m) (gm_del i ids)"
proof -
  note key = key_okD [OF assms(1)]
  have b: "gm_ok b" "gm_get b j = (if j = i then None else
      (case gm_get ids j of None \<Rightarrow> None
       | Some x \<Rightarrow> if Key x = Key l \<and> Source x = Source l then Some x else None))" for j
    using key(6,7) by (simp_all add: b_def n_def)
  have n': "gm_ok n'" "gm_get n' s = Some c \<Longrightarrow> gm_ok c \<and> c \<noteq> []" for s c
    using key(3,4,5) b(1) by (auto simp: n'_def n_def split: if_splits)
  have inner: "gm_get (gm_inner n' s) j = (if j = i then None else
      (case gm_get ids j of None \<Rightarrow> None
       | Some x \<Rightarrow> if Key x = Key l \<and> Source x = s then Some x else None))" for s j
    using key(7) [of "Key l" s j] assms(2) b(2) [of j] unfolding n'_def gm_inner_drop n_def
    by (auto split: option.splits)
  let ?m = "if n' = [] then gm_del (Key l) m else gm_put (Key l) n' m"
  have m_inner: "gm_inner ?m k = (if k = Key l then n' else gm_inner m k)" for k by (rule gm_inner_drop)
  have "gm_ok ?m" "\<forall>k c. gm_get ?m k = Some c \<longrightarrow> c \<noteq> []" using key(1,2) by auto
  moreover have "gm_get (gm_inner (gm_inner ?m k) s) j = (case gm_get (gm_del i ids) j of
      None \<Rightarrow> None | Some x \<Rightarrow> if Key x = k \<and> Source x = s then Some x else None)" for k s j
    unfolding m_inner using key(7) [of k s j] inner [of s j] assms(2) by (auto split: option.splits)
  moreover have "gm_ok (gm_inner ?m k)" "gm_get (gm_inner ?m k) s = Some c \<Longrightarrow> gm_ok c \<and> c \<noteq> []" for k s c
    unfolding m_inner using key(3,4,5) n' by (auto split: if_splits)
  ultimately show ?thesis unfolding key_ok_def by blast
qed

lemma ids_ok_put: "ids_ok ids \<Longrightarrow> ids_ok (gm_put (ID l) l ids)"
  by (auto simp: ids_ok_def)

lemma ids_ok_del: "ids_ok ids \<Longrightarrow> ids_ok (gm_del i ids)"
  by (auto simp: ids_ok_def)

lemma ix_ok_New [simp]: "ix_ok (NewIndex t)"
  by (simp add: ix_ok_def NewIndex_def ids_ok_def key_ok_def sec_ok_def gm_inner_def)

lemma ix_ok_Add:
  assumes "ix_ok ix"
  shows "ix_ok (Add ix l)"
proof (cases "gm_get (byID ix) (ID l)")
  case None
  have ref: "(\<lambda>l. Some (TxnRef l)) l = Some (TxnRef l)" by simp
  have "sec_ok batch_key (if attr l AttrBatchRef \<noteq> '''' then put (byBatch ix) (attr l AttrBatchRef) l
      else byBatch ix) (gm_put (ID l) l (byID ix))"
    using assms None by (auto simp: ix_ok_def batch_key_def Let_def intro: sec_ok_put sec_ok_skip)
  moreover have "sec_ok (\<lambda>l. Some (TxnRef l)) (put (byRef ix) (TxnRef l) l) (gm_put (ID l) l (byID ix))"
    using assms None by (intro sec_ok_put) (simp_all add: ix_ok_def)
  ultimately show ?thesis
    using assms None by (simp add: ix_ok_def Add_def Let_def key_ok_add ids_ok_put)
qed (use assms in \<open>simp add: Add_def\<close>)

lemma ix_ok_Remove1:
  assumes "ix_ok ix"
  shows "ix_ok (Remove1 i ix)"
proof (cases "gm_get (byID ix) i")
  case (Some l)
  have "sec_ok batch_key (if attr l AttrBatchRef \<noteq> '''' then del (byBatch ix) (attr l AttrBatchRef) i
      else byBatch ix) (gm_del i (byID ix))"
    using assms Some by (auto simp: ix_ok_def batch_key_def Let_def intro: sec_ok_del sec_ok_keep)
  moreover have "sec_ok (\<lambda>l. Some (TxnRef l)) (del (byRef ix) (TxnRef l) i) (gm_del i (byID ix))"
    using assms Some by (intro sec_ok_del) (simp_all add: ix_ok_def)
  ultimately show ?thesis
    using assms Some key_ok_del [of "byKey ix" "byID ix" i l]
    by (simp add: ix_ok_def Remove1_def Let_def ids_ok_del)
qed (use assms in \<open>simp add: Remove1_def\<close>)

lemma ix_ok_Remove: "ix_ok ix \<Longrightarrow> ix_ok (Remove ix ids)"
  unfolding Remove_def by (induction ids arbitrary: ix) (simp_all add: ix_ok_Remove1)

subsection \<open>Lookups\<close>

lemma Get_New [simp]: "Get (NewIndex t) = Map.empty"
  by (auto simp: Get_def NewIndex_def)

lemma Get_Add: "Get (Add ix l) = (if Get ix (ID l) = None then (Get ix)(ID l \<mapsto> l) else Get ix)"
  by (auto simp: Get_def Add_def Let_def fun_eq_iff)

lemma Get_Remove1: "Get (Remove1 i ix) = (Get ix)(i := None)"
  by (auto simp: Get_def Remove1_def Let_def fun_eq_iff split: option.splits)

lemma Get_Remove: "Get (Remove ix ids) i = (if i \<in> set ids then None else Get ix i)"
  unfolding Remove_def by (induction ids arbitrary: ix) (simp_all add: Get_Remove1)

lemma Get_ID: "ix_ok ix \<Longrightarrow> Get ix i = Some l \<Longrightarrow> ID l = i"
  by (simp add: ix_ok_def ids_ok_def Get_def)

lemma ttl_simps [simp]: "ttl (Add ix l) = ttl ix" "ttl (Remove1 i ix) = ttl ix" "ttl (NewIndex t) = t"
  by (simp_all add: Add_def Remove1_def NewIndex_def Let_def split: option.splits)

lemma ttl_Remove [simp]: "ttl (Remove ix ids) = ttl ix"
  unfolding Remove_def by (induction ids arbitrary: ix) simp_all

subsection \<open>Every query is a sorted selection\<close>

text \<open>Legs with distinct identifiers have one sorted order, whatever order they are collected in.\<close>

lemma sortLegs_cong:
  assumes "distinct xs" "distinct ys" "set xs = set ys" "inj_on ID (set xs)"
  shows "sortLegs xs = sortLegs ys"
proof -
  have "mset xs = mset ys" using assms(1-3) by (simp add: set_eq_iff_mset_eq_distinct)
  moreover have "inj_on leg_key (set xs)" using assms(4) by (auto simp: inj_on_def leg_key_def)
  ultimately show ?thesis unfolding sortLegs_def
    by (intro sort_key_eq_sort_key) (auto simp: inj_on_def)
qed

lemma set_sortLegs [simp]: "set (sortLegs xs) = set xs"
  by (simp add: sortLegs_def)

lemma distinct_sortLegs [simp]: "distinct (sortLegs xs) = distinct xs"
  by (simp add: sortLegs_def)

lemma bucket_ids:
  assumes "gm_ok b" "\<And>i l. gm_get b i = Some l \<Longrightarrow> ID l = i"
  shows "distinct (map snd b)" "inj_on ID (set (map snd b))"
proof -
  have "ID l = i" if "(i, l) \<in> set b" for i l
    using that assms(2) [of i l] by (simp only: gm_mem [OF assms(1)])
  then have "map ID (map snd b) = map fst b" by auto
  then have "distinct (map ID (map snd b))" using assms(1) by (simp only:)
  then show "distinct (map snd b)" "inj_on ID (set (map snd b))" unfolding distinct_map by auto
qed

lemma ids_ok_inj: "ids_ok ids \<Longrightarrow> inj_on ID (set (map snd ids))"
  by (rule bucket_ids) (auto simp: ids_ok_def)

lemma legs_mem: "ix_ok ix \<Longrightarrow> l \<in> set (map snd (byID ix)) \<longleftrightarrow> Get ix (ID l) = Some l"
proof -
  assume ok: "ix_ok ix"
  then have g: "gm_ok (byID ix)" and i: "\<And>i l. gm_get (byID ix) i = Some l \<Longrightarrow> ID l = i"
    by (simp_all add: ix_ok_def ids_ok_def)
  have "l \<in> set (map snd (byID ix)) \<longleftrightarrow> (\<exists>i. gm_get (byID ix) i = Some l)"
    by (simp only: gm_vals [OF g] ran_def mem_Collect_eq)
  then show ?thesis using i by (auto simp: Get_def)
qed

lemma collect_query:
  assumes ok: "ix_ok ix" and b: "gm_ok b"
    and look: "\<And>i. gm_get b i = (case Get ix i of None \<Rightarrow> None | Some l \<Rightarrow> if Q l then Some l else None)"
  shows "collect b P = query ix (\<lambda>l. Q l \<and> P l)"
proof -
  have ids: "ids_ok (byID ix)" using ok by (simp add: ix_ok_def)
  have bid: "gm_get b i = Some l \<Longrightarrow> ID l = i" for i l
    using look [of i] Get_ID [OF ok] by (auto split: option.splits if_splits)
  have mem: "l \<in> set (map snd b) \<longleftrightarrow> l \<in> set (map snd (byID ix)) \<and> Q l" for l
  proof -
    have "l \<in> set (map snd b) \<longleftrightarrow> (\<exists>i. gm_get b i = Some l)"
      by (simp only: gm_vals [OF b] ran_def mem_Collect_eq)
    also have "\<dots> \<longleftrightarrow> Get ix (ID l) = Some l \<and> Q l"
    proof
      assume "\<exists>i. gm_get b i = Some l"
      then obtain i where i: "gm_get b i = Some l" ..
      then have "ID l = i" by (rule bid)
      then show "Get ix (ID l) = Some l \<and> Q l" using i look [of i] by (auto split: option.splits if_splits)
    next
      assume "Get ix (ID l) = Some l \<and> Q l"
      then show "\<exists>i. gm_get b i = Some l" using look [of "ID l"] by auto
    qed
    finally show ?thesis by (simp only: legs_mem [OF ok])
  qed
  have "distinct (map snd (byID ix))" using ids by (intro bucket_ids) (auto simp: ids_ok_def)
  then have "sortLegs (filter P (map snd b)) = query ix (\<lambda>l. Q l \<and> P l)"
    unfolding query_def using ids_ok_inj [OF ids] mem bucket_ids(1) [OF b bid]
    by (intro sortLegs_cong) (auto simp: inj_on_def)
  then show ?thesis by (auto simp: collect_def sortLegs_def)
qed

lemma ix_secD:
  assumes "ix_ok ix"
  shows "sec_ok (\<lambda>l. Some (TxnRef l)) (byRef ix) (byID ix)" "sec_ok batch_key (byBatch ix) (byID ix)"
    "key_ok (byKey ix) (byID ix)" "ids_ok (byID ix)"
  using assms by (simp_all add: ix_ok_def)

lemma ByRef_query: "ix_ok ix \<Longrightarrow> ByRef ix l = query ix (\<lambda>c. TxnRef c = TxnRef l \<and> ID c \<noteq> ID l)"
  unfolding ByRef_def
  by (rule collect_query) (simp_all add: Get_def sec_okD [OF ix_secD(1)] split: option.splits)

lemma RefLegs_query: "ix_ok ix \<Longrightarrow> RefLegs ix r = query ix (\<lambda>c. TxnRef c = r)"
  using collect_query [of ix "gm_inner (byRef ix) r" "\<lambda>c. TxnRef c = r" "\<lambda>_. True"]
  by (simp add: RefLegs_def Get_def sec_okD [OF ix_secD(1)] split: option.splits)

lemma CandidatesByRef_query:
  "ix_ok ix \<Longrightarrow> CandidatesByRef ix l =
     query ix (\<lambda>c. TxnRef c = TxnRef l \<and> Source c \<noteq> Source l \<and> Key c = Key l)"
  unfolding CandidatesByRef_def
  by (rule collect_query) (simp_all add: Get_def sec_okD [OF ix_secD(1)] split: option.splits)

lemma ByBatch_query:
  "ix_ok ix \<Longrightarrow> ByBatch ix l batch =
     query ix (\<lambda>c. batch_key c = Some batch \<and> ID c \<noteq> ID l \<and> Key c = Key l)"
  unfolding ByBatch_def by (rule collect_query) (simp_all add: Get_def sec_okD [OF ix_secD(2)])

lemma SameSourceInWindow_query:
  "ix_ok ix \<Longrightarrow> SameSourceInWindow ix l =
     query ix (\<lambda>c. (Key c = Key l \<and> Source c = Source l) \<and> ID c \<noteq> ID l)"
  unfolding SameSourceInWindow_def by (rule collect_query) (simp_all add: Get_def key_okD [OF ix_secD(3)])

lemma All_query: "ix_ok ix \<Longrightarrow> All ix = query ix (\<lambda>_. True)"
  by (simp add: All_def collect_def query_def sortLegs_def)

lemma Expired_query:
  "ix_ok ix \<Longrightarrow> Expired ix now olderThan = query ix (\<lambda>c. IngestedAt c \<le>
     (if olderThan \<ge> 0 then now + i64 (- olderThan) else now + i64 (- ttl ix)))"
  by (simp add: Expired_def collect_def query_def sortLegs_def Let_def not_less)

lemma distinct_concat_keyed:
  assumes "gm_ok m" "\<And>s b. (s, b) \<in> set m \<Longrightarrow> distinct (f s b)"
    "\<And>s b x. (s, b) \<in> set m \<Longrightarrow> x \<in> set (f s b) \<Longrightarrow> g x = s"
  shows "distinct (concat (map (\<lambda>(s, b). f s b) m))"
  using assms
proof (induction m)
  case (Cons p m)
  obtain s b where p: "p = (s, b)" by (cases p)
  have "set (f s b) \<inter> set (concat (map (\<lambda>(s, b). f s b) m)) = {}"
  proof (rule ccontr)
    assume "\<not> ?thesis"
    then obtain x s' b' where x: "x \<in> set (f s b)" "(s', b') \<in> set m" "x \<in> set (f s' b')" by auto
    then have "g x = s" "g x = s'" using Cons.prems(3) by (auto simp: p)
    then show False using Cons.prems(1) x(2) by (force simp: p)
  qed
  moreover have "distinct (concat (map (\<lambda>(s, b). f s b) m))"
  proof (rule Cons.IH)
    show "gm_ok m" using Cons.prems(1) by simp
    show "distinct (f s b)" if "(s, b) \<in> set m" for s b using that by (intro Cons.prems(2)) simp
    show "g x = s" if "(s, b) \<in> set m" "x \<in> set (f s b)" for s b x
      using that Cons.prems(3) [of s b x] by simp
  qed
  ultimately show ?case using Cons.prems(2) [of s b] by (simp add: p)
qed simp

lemma query_eqI:
  assumes ok: "ix_ok ix" and "distinct xs"
    and mem: "\<And>c. c \<in> set xs \<longleftrightarrow> Get ix (ID c) = Some c \<and> P c"
  shows "sortLegs xs = query ix P"
  unfolding query_def
proof (rule sortLegs_cong)
  have "gm_ok (byID ix)" and i: "\<And>i l. gm_get (byID ix) i = Some l \<Longrightarrow> ID l = i"
    using ix_secD(4) [OF ok] by (simp_all add: ids_ok_def)
  then show "distinct (filter P (map snd (byID ix)))" by (intro distinct_filter bucket_ids(1))
  show eq: "set xs = set (filter P (map snd (byID ix)))"
    unfolding set_filter using mem legs_mem [OF ok] by blast
  show "inj_on ID (set xs)"
    unfolding eq set_filter by (rule inj_on_subset [OF ids_ok_inj [OF ix_secD(4) [OF ok]]]) blast
qed (rule assms(2))

lemma distinct_vals: "ix_ok ix \<Longrightarrow> distinct (filter P (map snd (byID ix)))"
proof -
  assume "ix_ok ix"
  then have "gm_ok (byID ix)" and i: "\<And>i l. gm_get (byID ix) i = Some l \<Longrightarrow> ID l = i"
    using ix_secD(4) [of ix] by (simp_all add: ids_ok_def)
  then show ?thesis by (intro distinct_filter bucket_ids(1))
qed

lemma Candidates_query:
  assumes ok: "ix_ok ix"
  shows "Candidates ix l = query ix (\<lambda>c. Key c = Key l \<and> Source c \<noteq> Source l)"
proof -
  note key = key_okD [OF ix_secD(3) [OF ok]]
  define m where "m = gm_inner (byKey ix) (Key l)"
  define pick where "pick = (\<lambda>src (b :: bucket). if src = Source l then [] else map snd b)"
  have m: "gm_ok m" using key(3) by (simp add: m_def)
  have buck: "gm_ok b" "gm_get b i = Some c \<longleftrightarrow> Get ix i = Some c \<and> Key c = Key l \<and> Source c = s"
    if "(s, b) \<in> set m" for s b i c
  proof -
    have b: "gm_get m s = Some b" using that gm_mem [OF m] by blast
    then show "gm_ok b" using key(4) by (simp add: m_def)
    have "gm_inner m s = b" using b by (simp add: gm_inner_def)
    then show "gm_get b i = Some c \<longleftrightarrow> Get ix i = Some c \<and> Key c = Key l \<and> Source c = s"
      using key(7) [of "Key l" s i] by (auto simp: m_def Get_def split: option.splits if_splits)
  qed
  have val: "c \<in> set (map snd b) \<longleftrightarrow> Get ix (ID c) = Some c \<and> Key c = Key l \<and> Source c = s"
    if "(s, b) \<in> set m" for s b c
    unfolding gm_vals [OF buck(1) [OF that]] ran_def using buck(2) [OF that] Get_ID [OF ok] by auto
  have in_m: "\<exists>b. (Source c, b) \<in> set m" if "Get ix (ID c) = Some c" "Key c = Key l" for c
  proof -
    have "gm_get (gm_inner m (Source c)) (ID c) = Some c"
      using key(7) [of "Key l" "Source c" "ID c"] that by (simp add: m_def Get_def)
    then obtain b where "gm_get m (Source c) = Some b" by (auto simp: gm_inner_def split: option.splits)
    then show ?thesis using gm_mem [OF m] by blast
  qed
  let ?xs = "concat (map (\<lambda>(s, b). pick s b) m)"
  have "distinct ?xs"
  proof (rule distinct_concat_keyed [where g = Source, OF m])
    fix s b assume sb: "(s, b) \<in> set m"
    have "distinct (map snd b)"
      by (rule bucket_ids(1) [OF buck(1) [OF sb]]) (use buck(2) [OF sb] Get_ID [OF ok] in blast)
    then show "distinct (pick s b)" by (simp add: pick_def)
    show "x \<in> set (pick s b) \<Longrightarrow> Source x = s" for x
      using val [OF sb, of x] by (simp add: pick_def split: if_splits)
  qed
  moreover have "c \<in> set ?xs \<longleftrightarrow> Get ix (ID c) = Some c \<and> Key c = Key l \<and> Source c \<noteq> Source l" for c
  proof -
    have "c \<in> set ?xs \<longleftrightarrow> (\<exists>s b. (s, b) \<in> set m \<and> s \<noteq> Source l \<and> c \<in> set (map snd b))"
      by (auto simp: pick_def)
    also have "\<dots> \<longleftrightarrow> (\<exists>s b. (s, b) \<in> set m \<and> s \<noteq> Source l \<and>
        Get ix (ID c) = Some c \<and> Key c = Key l \<and> Source c = s)"
      by (rule ex_cong1, rule ex_cong1) (use val in metis)
    also have "\<dots> \<longleftrightarrow> Get ix (ID c) = Some c \<and> Key c = Key l \<and> Source c \<noteq> Source l"
      using in_m [of c] by auto
    finally show ?thesis .
  qed
  ultimately have "sortLegs ?xs = query ix (\<lambda>c. Key c = Key l \<and> Source c \<noteq> Source l)"
    by (rule query_eqI [OF ok])
  then show ?thesis by (simp add: Candidates_def pick_def m_def)
qed

lemmas index_queries = ByRef_query RefLegs_query CandidatesByRef_query ByBatch_query
  SameSourceInWindow_query Candidates_query All_query Expired_query

lemma set_query: "ix_ok ix \<Longrightarrow> c \<in> set (query ix P) \<longleftrightarrow> Get ix (ID c) = Some c \<and> P c"
  using legs_mem [of ix c] by (simp add: query_def)

lemma distinct_query: "ix_ok ix \<Longrightarrow> distinct (query ix P)"
  unfolding query_def by (simp only: distinct_sortLegs distinct_vals)

text \<open>A query reads the lookups alone, not the order in which the maps list their entries.\<close>

lemma query_lookup:
  assumes "ix_ok ix" "ix_ok ix'" "Get ix = Get ix'"
  shows "query ix P = query ix' P"
proof -
  have "sortLegs (filter P (map snd (byID ix))) = query ix' P"
  proof (rule query_eqI [OF assms(2) distinct_vals [OF assms(1)]])
    fix c show "c \<in> set (filter P (map snd (byID ix))) \<longleftrightarrow> Get ix' (ID c) = Some c \<and> P c"
      unfolding set_filter assms(3) [symmetric] using legs_mem [OF assms(1)] by blast
  qed
  then show ?thesis by (simp only: query_def)
qed

lemma Len_lookup: "ix_ok ix \<Longrightarrow> Len ix = card (dom (Get ix))"
  unfolding Len_def Get_def ix_ok_def ids_ok_def
  by (metis (no_types, lifting) distinct_card dom_map_of_conv_image_fst length_map list.set_map)

lemma sec_ok_Nil: "sec_ok keyof m [] \<Longrightarrow> m = []"
proof (rule ccontr)
  assume ok: "sec_ok keyof m []" and "m \<noteq> []"
  then obtain k b where kb: "gm_get m k = Some b" using gm_empty_iff [of m] by (auto simp: fun_eq_iff)
  then have "gm_inner m k = b" by (simp add: gm_inner_def)
  then have "gm_get b = Map.empty" using sec_okD(5) [OF ok, of k] by (simp add: fun_eq_iff)
  then show False using gm_empty_iff [of b] sec_okD(3) [OF ok kb] by blast
qed

lemma key_ok_Nil: "key_ok m [] \<Longrightarrow> m = []"
proof (rule ccontr)
  assume ok: "key_ok m []" and "m \<noteq> []"
  then obtain k n where kn: "gm_get m k = Some n" using gm_empty_iff [of m] by (auto simp: fun_eq_iff)
  then have n: "gm_inner m k = n" by (simp add: gm_inner_def)
  obtain s b where sb: "gm_get n s = Some b"
    using key_okD(2) [OF ok kn] gm_empty_iff [of n] by (auto simp: fun_eq_iff)
  then have "gm_inner n s = b" by (simp add: gm_inner_def)
  then have "gm_get b = Map.empty" using key_okD(7) [OF ok, of k s] n by (simp add: fun_eq_iff)
  then show False using gm_empty_iff [of b] key_okD(5) [OF ok, of k s b] sb n by simp
qed

lemma ix_empty: "ix_ok ix \<Longrightarrow> Get ix = Map.empty \<Longrightarrow> ix = NewIndex (ttl ix)"
proof -
  assume ok: "ix_ok ix" and "Get ix = Map.empty"
  then have b: "byID ix = []" using gm_empty_iff [of "byID ix"] by (simp add: Get_def fun_eq_iff)
  have "byKey ix = []" "byRef ix = []" "byBatch ix = []"
    using ix_secD [OF ok] key_ok_Nil sec_ok_Nil by (auto simp: b)
  with b show ?thesis by (simp add: NewIndex_def)
qed

subsection \<open>Histories of the index\<close>

datatype ix_op = OAdd Leg | ORemove "string list"

fun ix_step :: "ix_op \<Rightarrow> Index \<Rightarrow> Index" where
  "ix_step (OAdd l) ix = Add ix l"
| "ix_step (ORemove ids) ix = Remove ix ids"

text \<open>The abstract index: a finite map from identifiers to legs.\<close>

fun map_step :: "ix_op \<Rightarrow> (string \<rightharpoonup> Leg) \<Rightarrow> (string \<rightharpoonup> Leg)" where
  "map_step (OAdd l) m = (if ID l \<in> dom m then m else m(ID l \<mapsto> l))"
| "map_step (ORemove ids) m = m |` (- set ids)"

definition ix_run :: "ix_op list \<Rightarrow> Duration \<Rightarrow> Index" where
  "ix_run ops t = fold ix_step ops (NewIndex t)"

lemma ix_step_refines:
  assumes "ix_ok ix"
  shows "ix_ok (ix_step op ix) \<and> Get (ix_step op ix) = map_step op (Get ix) \<and> ttl (ix_step op ix) = ttl ix"
proof (cases op)
  case (OAdd l)
  then show ?thesis using assms by (auto simp: ix_ok_Add Get_Add)
next
  case (ORemove ids)
  then show ?thesis using assms by (auto simp: ix_ok_Remove Get_Remove restrict_map_def fun_eq_iff)
qed

lemma ix_run_refines:
  assumes "ix_ok ix"
  shows "ix_ok (fold ix_step ops ix) \<and> Get (fold ix_step ops ix) = fold map_step ops (Get ix) \<and>
    ttl (fold ix_step ops ix) = ttl ix"
  using assms
proof (induction ops arbitrary: ix)
  case (Cons op ops)
  then show ?case using ix_step_refines [of ix op] by simp
qed simp

lemma ix_run_New:
  "ix_ok (ix_run ops t)" "Get (ix_run ops t) = fold map_step ops Map.empty"
  "ttl (ix_run ops t) = t"
  using ix_run_refines [of "NewIndex t" ops] by (simp_all add: ix_run_def)

subsection \<open>Properties\<close>

text \<open>
  C24: the index refines a finite map. After any sequence of \<open>Add\<close> and \<open>Remove\<close> on a new index the
  three secondary maps agree with the primary one and hold no empty bucket, and the lookups are those
  of a map in which adding a known identifier and removing an unknown one change nothing.
\<close>

theorem index_refines:
  "ix_ok (ix_run ops t) \<and>
   Get (ix_run ops t) = fold map_step ops Map.empty \<and>
   Len (ix_run ops t) = card (dom (fold map_step ops Map.empty))"
  using ix_run_New [of ops t] Len_lookup [of "ix_run ops t"] by simp

text \<open>
  the secondary indexes answer exactly what a scan of all open legs would. In any reachable index a
  leg is returned by a query if and only if it is open and satisfies the query's description, once,
  in the order of value date, reference and identifier.
\<close>

theorem index_queries_exact:
  shows "Candidates (ix_run ops t) l = query (ix_run ops t) (\<lambda>c. Key c = Key l \<and> Source c \<noteq> Source l) \<and>
    CandidatesByRef (ix_run ops t) l = query (ix_run ops t) (\<lambda>c. TxnRef c = TxnRef l \<and> Source c \<noteq> Source l \<and> Key c = Key l) \<and>
    SameSourceInWindow (ix_run ops t) l = query (ix_run ops t) (\<lambda>c. (Key c = Key l \<and> Source c = Source l) \<and> ID c \<noteq> ID l) \<and>
    ByRef (ix_run ops t) l = query (ix_run ops t) (\<lambda>c. TxnRef c = TxnRef l \<and> ID c \<noteq> ID l) \<and>
    RefLegs (ix_run ops t) r = query (ix_run ops t) (\<lambda>c. TxnRef c = r) \<and>
    ByBatch (ix_run ops t) l batch = query (ix_run ops t) (\<lambda>c. batch_key c = Some batch \<and> ID c \<noteq> ID l \<and> Key c = Key l) \<and>
    All (ix_run ops t) = query (ix_run ops t) (\<lambda>_. True) \<and>
    (c \<in> set (query (ix_run ops t) P) \<longleftrightarrow> Get (ix_run ops t) (ID c) = Some c \<and> P c) \<and>
    distinct (query (ix_run ops t) P) \<and>
    sorted (map leg_key (query (ix_run ops t) P))"
proof (intro conjI)
  show "sorted (map leg_key (query (ix_run ops t) P))" by (simp add: query_def sortLegs_def)
qed (simp_all only: index_queries set_query distinct_query ix_run_New)

text \<open>
  no answer depends on the iteration order of a Go map or on the history of the index: two indexes
  with the same open legs give the same candidate lists, in the same order.
\<close>

theorem index_order_free:
  assumes "ix_ok ix" "ix_ok ix'" "Get ix = Get ix'" "ttl ix = ttl ix'"
  shows "Candidates ix l = Candidates ix' l \<and>
    CandidatesByRef ix l = CandidatesByRef ix' l \<and>
    SameSourceInWindow ix l = SameSourceInWindow ix' l \<and>
    ByRef ix l = ByRef ix' l \<and>
    RefLegs ix r = RefLegs ix' r \<and>
    ByBatch ix l batch = ByBatch ix' l batch \<and>
    Expired ix now olderThan = Expired ix' now olderThan \<and>
    All ix = All ix'"
  using query_lookup [OF assms(1-3)] assms by (simp add: index_queries)

theorem index_order_free_witness:
  "let a = plain_leg ''rail'' ''R1'' 100 ''VISA'' []\<lparr>ID := ''a''\<rparr>;
       b = plain_leg ''bank'' ''R1'' 100 ''VISA'' []\<lparr>ID := ''b''\<rparr>
   in All (Add (Add (NewIndex 60) a) b) = All (Add (Add (NewIndex 60) b) a)"
proof -
  let ?a = "plain_leg ''rail'' ''R1'' 100 ''VISA'' []\<lparr>ID := ''a''\<rparr>"
  let ?b = "plain_leg ''bank'' ''R1'' 100 ''VISA'' []\<lparr>ID := ''b''\<rparr>"
  have "ix_ok (Add (Add (NewIndex 60) ?a) ?b)" "ix_ok (Add (Add (NewIndex 60) ?b) ?a)"
    by (simp_all add: ix_ok_Add)
  moreover have "Get (Add (Add (NewIndex 60) ?a) ?b) = Get (Add (Add (NewIndex 60) ?b) ?a)"
    by (auto simp: Get_Add)
  ultimately show ?thesis
    using index_order_free [of "Add (Add (NewIndex 60) ?a) ?b" "Add (Add (NewIndex 60) ?b) ?a"]
    unfolding Let_def by (simp only: ttl_simps)
qed

text \<open>
  the index does not leak. Once its last leg is gone, an index is the empty one again: no bucket of
  any secondary map outlives its legs.
\<close>

theorem index_no_leak:
  assumes "fold map_step ops Map.empty = Map.empty"
  shows "ix_run ops t = NewIndex t"
  using ix_empty [OF ix_run_New(1), of ops t] assms by (simp add: ix_run_New)

theorem index_no_leak_witness:
  "ix_run [OAdd (plain_leg ''rail'' ''R1'' 100 ''VISA'' [(''batch_ref'', ''B'')]), ORemove ['''']]
     60 = NewIndex 60"
  by (rule index_no_leak) (simp add: plain_leg_def restrict_map_def fun_eq_iff)

end
