(* ===== verification/Recon_SubsetSum.thy ===== *)
theory Recon_SubsetSum
  imports Recon_Types
begin

text \<open>
  The bounded subset-sum search of the many-to-one tier (\<open>subsetSum\<close> in
  \<open>internal/domain/recon/matcher.go\<close>). The recursive closure \<open>dfs\<close> with its captured variables \<open>out\<close>
  and \<open>budget\<close> is a pair of functions that pass them along; a suffix of the sorted pool stands for
  the start index. Sums wrap around as \<open>int64\<close> does, and the facts below show when they do not.

  \<open>subset_fits\<close> is the specification: a sub-multiset of the pool, of a size within the bounds, whose
  amounts add up to the target within the tolerance. The search is sound for it, and complete whenever
  the number of nodes of the search tree, \<open>nodes\<close>, is within the budget.
\<close>

subsection \<open>The search\<close>

function (sequential) dfs ::
    "int \<Rightarrow> int \<Rightarrow> int \<Rightarrow> Leg list \<Rightarrow> int \<Rightarrow> int \<Rightarrow> Leg list \<Rightarrow> int \<Rightarrow> bool \<times> Leg list \<times> int"
  and dfs_loop ::
    "int \<Rightarrow> int \<Rightarrow> int \<Rightarrow> Leg list \<Rightarrow> int \<Rightarrow> int \<Rightarrow> Leg list \<Rightarrow> int \<Rightarrow> bool \<times> Leg list \<times> int"
where
  "dfs tol minSize maxSize rest remaining depth out budget =
     (if budget \<le> 0 then (False, out, budget)
      else let budget = budget - 1 in
        if depth \<ge> minSize \<and> abs64 remaining \<le> tol then (True, out, budget)
        else if depth = maxSize then (False, out, budget)
        else dfs_loop tol minSize maxSize rest remaining depth out budget)"
| "dfs_loop tol minSize maxSize [] remaining depth out budget = (False, out, budget)"
| "dfs_loop tol minSize maxSize (x # rest) remaining depth out budget =
     (let a = AmountMinor x in
      if a > i64 (remaining + tol)
      then dfs_loop tol minSize maxSize rest remaining depth out budget
      else
        (case dfs tol minSize maxSize rest (i64 (remaining - a)) (depth + 1) (out @ [x]) budget of
           (True, out, budget) \<Rightarrow> (True, out, budget)
         | (False, out, budget) \<Rightarrow>
             dfs_loop tol minSize maxSize rest remaining depth (butlast out) budget))"
  by pat_completeness auto

termination
  by (relation "measure (case_sum (\<lambda>(_, _, _, xs, _). 2 * length xs + 1) (\<lambda>(_, _, _, xs, _). 2 * length xs))")
    auto

definition search_budget :: int where
  "search_budget = 200000"

definition subsetSum :: "Leg list \<Rightarrow> int \<Rightarrow> int \<Rightarrow> int \<Rightarrow> int \<Rightarrow> Leg list option" where
  "subsetSum pool target tol minSize maxSize =
     (if maxSize \<le> 0 \<or> pool = [] then None
      else let sorted = sort_key (\<lambda>l. - AmountMinor l) pool in
        (case dfs tol minSize maxSize sorted target 0 [] search_budget of
           (True, out, _) \<Rightarrow> Some out
         | (False, _, _) \<Rightarrow> None))"

declare dfs.simps [simp del]

subsection \<open>Soundness\<close>

abbreviation total :: "Leg list \<Rightarrow> int" where
  "total ls \<equiv> (\<Sum>l \<leftarrow> ls. AmountMinor l)"

text \<open>A continuation \<open>ys\<close> of a partial choice of \<open>depth\<close> legs that completes it.\<close>

definition completes :: "int \<Rightarrow> int \<Rightarrow> int \<Rightarrow> Leg list \<Rightarrow> int \<Rightarrow> int \<Rightarrow> Leg list \<Rightarrow> bool" where
  "completes tol minSize maxSize rest remaining depth ys \<longleftrightarrow>
     subseq ys rest \<and> minSize \<le> depth + int (length ys) \<and> depth + int (length ys) \<le> maxSize \<and>
     \<bar>remaining - total ys\<bar> \<le> tol"

text \<open>The remaining amount stays between \<open>- tol\<close> and \<open>2 ^ 63 - tol\<close>, where no operation wraps.\<close>

definition no_wrap :: "int \<Rightarrow> int \<Rightarrow> bool" where
  "no_wrap tol remaining \<longleftrightarrow> 0 \<le> tol \<and> tol < 2 ^ 63 \<and> - tol \<le> remaining \<and> remaining + tol < 2 ^ 63"

lemma no_wrap_add: "no_wrap tol r \<Longrightarrow> i64 (r + tol) = r + tol"
  by (rule i64_id) (auto simp: no_wrap_def in_i64_def)

lemma no_wrap_sub:
  "no_wrap tol r \<Longrightarrow> 0 < a \<Longrightarrow> a \<le> r + tol \<Longrightarrow> i64 (r - a) = r - a \<and> no_wrap tol (r - a)"
  by (auto simp: no_wrap_def in_i64_def intro!: i64_id)

lemma no_wrap_abs: "no_wrap tol r \<Longrightarrow> abs64 r = \<bar>r\<bar>"
  by (rule abs64_abs) (auto simp: no_wrap_def)

lemma dfs_sound:
  "dfs tol minSize maxSize rest remaining depth out budget = (ok, out', budget') \<Longrightarrow>
     no_wrap tol remaining \<Longrightarrow> \<forall>x \<in> set rest. 0 < AmountMinor x \<Longrightarrow> depth \<le> maxSize \<Longrightarrow>
     if ok then \<exists>ys. out' = out @ ys \<and> completes tol minSize maxSize rest remaining depth ys
     else out' = out"
  "dfs_loop tol minSize maxSize rest remaining depth out budget = (ok, out', budget') \<Longrightarrow>
     no_wrap tol remaining \<Longrightarrow> \<forall>x \<in> set rest. 0 < AmountMinor x \<Longrightarrow> depth < maxSize \<Longrightarrow>
     if ok then \<exists>ys. out' = out @ ys \<and> completes tol minSize maxSize rest remaining depth ys
     else out' = out"
proof (induction tol minSize maxSize rest remaining depth out budget and
    tol minSize maxSize rest remaining depth out budget
    arbitrary: ok out' budget' and ok out' budget' rule: dfs_dfs_loop.induct)
  case (1 tol minSize maxSize rest remaining depth out budget)
  show ?case
  proof (cases "budget \<le> 0 \<or> (depth \<ge> minSize \<and> abs64 remaining \<le> tol) \<or> depth = maxSize")
    case True
    then show ?thesis
      using 1(2-5) no_wrap_abs [OF 1(3)]
      by (auto simp: dfs.simps [of _ _ _ rest] completes_def Let_def split: if_splits)
  next
    case False
    then have "dfs_loop tol minSize maxSize rest remaining depth out (budget - 1) = (ok, out', budget')"
      using 1(2) by (simp add: dfs.simps [of _ _ _ rest] Let_def split: if_splits)
    moreover have "depth < maxSize" using False 1(5) by simp
    ultimately show ?thesis using 1(1) [OF _ refl] 1(3,4) False by blast
  qed
next
  case (2 tol minSize maxSize remaining depth out budget)
  then show ?case by simp
next
  case (3 tol minSize maxSize x rest remaining depth out budget)
  let ?a = "AmountMinor x"
  have a: "0 < ?a" and pos: "\<forall>y \<in> set rest. 0 < AmountMinor y" using 3(6) by auto
  have keep: "completes tol minSize maxSize rest remaining depth ys \<Longrightarrow>
      completes tol minSize maxSize (x # rest) remaining depth ys" for ys
    by (auto simp: completes_def intro: list_emb_Cons)
  show ?case
  proof (cases "?a > i64 (remaining + tol)")
    case True
    then have "dfs_loop tol minSize maxSize rest remaining depth out budget = (ok, out', budget')"
      using 3(4) by simp
    from 3(1) [OF refl True this 3(5) pos 3(7)] show ?thesis using keep by auto
  next
    case False
    then have w: "i64 (remaining - ?a) = remaining - ?a" "no_wrap tol (remaining - ?a)"
      using no_wrap_sub [OF 3(5) a] no_wrap_add [OF 3(5)] by auto
    obtain ok1 out1 b1 where d: "dfs tol minSize maxSize rest (i64 (remaining - ?a)) (depth + 1) (out @ [x])
        budget = (ok1, out1, b1)" by (rule prod_cases3)
    have s: "if ok1 then \<exists>ys. out1 = (out @ [x]) @ ys \<and>
        completes tol minSize maxSize rest (i64 (remaining - ?a)) (depth + 1) ys else out1 = out @ [x]"
      by (rule 3(2) [OF refl False d]) (use w pos 3(7) in auto)
    show ?thesis
    proof (cases ok1)
      case True
      with s obtain ys where ys: "out1 = out @ x # ys"
        "completes tol minSize maxSize rest (remaining - ?a) (depth + 1) ys" using w by auto
      then have "completes tol minSize maxSize (x # rest) remaining depth (x # ys)"
        by (simp add: completes_def algebra_simps)
      moreover have "ok" "out' = out @ x # ys" using 3(4) False d True ys by (auto simp: Let_def)
      ultimately show ?thesis by auto
    next
      case F: False
      have out: "butlast out1 = out" using s F by simp
      have "dfs_loop tol minSize maxSize rest remaining depth (butlast out1) b1 = (ok, out', budget')"
        using 3(4) False d F by (simp add: Let_def)
      from 3(3) [OF refl False d [symmetric] _ refl this 3(5) pos 3(7)] F
      show ?thesis unfolding out using keep by auto
    qed
  qed
qed

lemma subseq_mset: "subseq ys xs \<Longrightarrow> mset ys \<subseteq># mset xs"
  by (induction rule: list_emb.induct) (auto intro: subset_mset.order_trans)

text \<open>Whatever the amounts are, and even if they wrap, the result is a subsequence of the sorted pool.\<close>

lemma dfs_subseq:
  "dfs tol minSize maxSize rest remaining depth out budget = (ok, out', budget') \<Longrightarrow>
     if ok then \<exists>ys. out' = out @ ys \<and> subseq ys rest \<and> minSize \<le> depth + int (length ys) else out' = out"
  "dfs_loop tol minSize maxSize rest remaining depth out budget = (ok, out', budget') \<Longrightarrow>
     if ok then \<exists>ys. out' = out @ ys \<and> subseq ys rest \<and> minSize \<le> depth + int (length ys) else out' = out"
proof (induction tol minSize maxSize rest remaining depth out budget and
    tol minSize maxSize rest remaining depth out budget
    arbitrary: ok out' budget' and ok out' budget' rule: dfs_dfs_loop.induct)
  case (1 tol minSize maxSize rest remaining depth out budget)
  show ?case
  proof (cases "budget \<le> 0 \<or> (depth \<ge> minSize \<and> abs64 remaining \<le> tol) \<or> depth = maxSize")
    case True
    then show ?thesis
      using 1(2) by (auto simp: dfs.simps [of _ _ _ rest] Let_def split: if_splits)
  next
    case False
    then have "dfs_loop tol minSize maxSize rest remaining depth out (budget - 1) = (ok, out', budget')"
      using 1(2) by (simp add: dfs.simps [of _ _ _ rest] Let_def split: if_splits)
    then show ?thesis using 1(1) [OF _ refl] False by blast
  qed
next
  case (3 tol minSize maxSize x rest remaining depth out budget)
  let ?a = "AmountMinor x"
  have keep: "subseq ys rest \<Longrightarrow> subseq ys (x # rest)" for ys by (rule list_emb_Cons)
  show ?case
  proof (cases "?a > i64 (remaining + tol)")
    case True
    then have "dfs_loop tol minSize maxSize rest remaining depth out budget = (ok, out', budget')"
      using 3(4) by simp
    from 3(1) [OF refl True this] show ?thesis using keep by auto
  next
    case False
    obtain ok1 out1 b1 where d: "dfs tol minSize maxSize rest (i64 (remaining - ?a)) (depth + 1) (out @ [x])
        budget = (ok1, out1, b1)" by (rule prod_cases3)
    have s: "if ok1 then \<exists>ys. out1 = (out @ [x]) @ ys \<and> subseq ys rest \<and> minSize \<le> depth + 1 + int (length ys)
        else out1 = out @ [x]"
      by (rule 3(2) [OF refl False d])
    show ?thesis
    proof (cases ok1)
      case True
      with s obtain ys where "out1 = out @ x # ys" "subseq ys rest" "minSize \<le> depth + int (length (x # ys))"
        by auto
      moreover have "ok" "out' = out1" using 3(4) False d True by (auto simp: Let_def)
      ultimately have "out' = out @ x # ys \<and> subseq (x # ys) (x # rest) \<and> minSize \<le> depth + int (length (x # ys))"
        by simp
      then have "\<exists>zs. out' = out @ zs \<and> subseq zs (x # rest) \<and> minSize \<le> depth + int (length zs)" by (rule exI)
      then show ?thesis using \<open>ok\<close> by (simp only: if_True)
    next
      case F: False
      have out: "butlast out1 = out" using s F by simp
      have "dfs_loop tol minSize maxSize rest remaining depth (butlast out1) b1 = (ok, out', budget')"
        using 3(4) False d F by (simp add: Let_def)
      from 3(3) [OF refl False d [symmetric] _ refl this] F
      show ?thesis unfolding out using keep by auto
    qed
  qed
qed simp

lemma subsetSum_subseq:
  assumes "subsetSum pool target tol minSize maxSize = Some out"
  shows "subseq out (sort_key (\<lambda>l. - AmountMinor l) pool)" "minSize \<le> int (length out)"
proof -
  obtain b where d: "dfs tol minSize maxSize (sort_key (\<lambda>l. - AmountMinor l) pool) target 0 []
      search_budget = (True, out, b)"
    using assms by (auto simp: subsetSum_def Let_def split: if_splits prod.splits bool.splits)
  from dfs_subseq(1) [OF d] show "subseq out (sort_key (\<lambda>l. - AmountMinor l) pool)" "minSize \<le> int (length out)"
    by auto
qed

lemma distinct_submset: "mset xs \<subseteq># mset ys \<Longrightarrow> distinct ys \<Longrightarrow> distinct xs"
  unfolding distinct_count_atmost_1 subseteq_mset_def
  by (metis count_eq_zero_iff count_greater_zero_iff le_antisym le_less_linear less_one not_one_le_zero
      order_less_le set_mset_mset)

lemma subsetSum_set:
  assumes "subsetSum pool target tol minSize maxSize = Some out"
  shows "set out \<subseteq> set pool" "distinct (map f pool) \<Longrightarrow> distinct (map f out)"
proof -
  note sub = subsetSum_subseq(1) [OF assms]
  then have m: "mset out \<subseteq># mset pool" using subseq_mset [OF sub] by simp
  then show "set out \<subseteq> set pool" by (metis set_mset_mono set_mset_mset)
  assume d: "distinct (map f pool)"
  have "mset (map f out) \<subseteq># mset (map f pool)" using image_mset_subseteq_mono [OF m] by simp
  then show "distinct (map f out)" using d
    by (rule distinct_submset)
qed

subsection \<open>Completeness\<close>

text \<open>
  The nodes of the search tree over \<open>n\<close> legs with at most \<open>k\<close> more to choose: one for every subset of
  at most \<open>k\<close> of them.
\<close>

fun nodes :: "nat \<Rightarrow> nat \<Rightarrow> nat" where
  "nodes 0 k = 1"
| "nodes (Suc n) 0 = 1"
| "nodes (Suc n) (Suc k) = nodes n k + nodes n (Suc k)"

lemma nodes_binomial: "nodes n k = (\<Sum>j \<le> k. n choose j)"
proof (induction n k rule: nodes.induct)
  case (1 k)
  then show ?case by (induction k) simp_all
next
  case (3 n k)
  have "(\<Sum>j \<le> Suc k. Suc n choose j) = 1 + (\<Sum>j \<le> k. Suc n choose Suc j)"
    by (simp only: sum.atMost_Suc_shift) simp
  also have "\<dots> = (\<Sum>j \<le> k. n choose j) + (1 + (\<Sum>j \<le> k. n choose Suc j))"
    by (simp add: sum.distrib)
  also have "1 + (\<Sum>j \<le> k. n choose Suc j) = (\<Sum>j \<le> Suc k. n choose j)"
    by (simp only: sum.atMost_Suc_shift) simp
  finally show ?case using 3 by simp
qed simp

lemma nodes_pos: "0 < nodes n k"
  by (induction n k rule: nodes.induct) simp_all

lemma nodes_mono: "n \<le> n' \<Longrightarrow> k \<le> k' \<Longrightarrow> nodes n k \<le> nodes n' k'"
  unfolding nodes_binomial
  by (rule order_trans [OF sum_mono sum_mono2]) (auto intro: binomial_right_mono)

lemma default_search_fits: "n \<le> 24 \<Longrightarrow> k \<le> 6 \<Longrightarrow> nodes n k \<le> 200000"
proof -
  assume "n \<le> 24" "k \<le> 6"
  then have "nodes n k \<le> nodes 24 6" by (rule nodes_mono)
  also have "nodes 24 6 = (\<Sum>j \<in> {0, 1, 2, 3, 4, 5, 6}. 24 choose j)"
    unfolding nodes_binomial by (rule sum.cong) auto
  also have "\<dots> \<le> 200000" by (simp add: binomial_fact' fact_numeral)
  finally show ?thesis .
qed

lemma total_nonneg: "\<forall>x \<in> set xs. 0 < AmountMinor x \<Longrightarrow> 0 \<le> total xs"
  by (induction xs) auto

lemma completes_ConsE:
  assumes "completes tol minSize maxSize (x # rest) remaining depth ys"
  obtains "completes tol minSize maxSize rest remaining depth ys"
  | zs where "ys = x # zs" "completes tol minSize maxSize rest (remaining - AmountMinor x) (depth + 1) zs"
proof -
  from assms have "subseq ys (x # rest)" by (simp add: completes_def)
  then consider "subseq ys rest" | zs where "ys = x # zs" "subseq zs rest"
    by (cases rule: list_emb.cases) auto
  then show ?thesis
  proof cases
    case 1
    then show ?thesis using assms that(1) by (simp add: completes_def)
  next
    case (2 zs)
    then show ?thesis using assms that(2) [of zs] by (simp add: completes_def algebra_simps)
  qed
qed

lemma too_big:
  assumes "completes tol minSize maxSize rest (remaining - a) depth zs" "\<forall>x \<in> set rest. 0 < AmountMinor x"
  shows "a \<le> remaining + tol"
proof -
  have "0 \<le> total zs"
    using assms by (intro total_nonneg) (auto simp: completes_def dest: list_emb_set)
  then show ?thesis using assms(1) by (auto simp: completes_def)
qed

lemma nodes_step:
  "depth < maxSize \<Longrightarrow> int (nodes (Suc n) (nat (maxSize - depth))) =
     int (nodes n (nat (maxSize - (depth + 1)))) + int (nodes n (nat (maxSize - depth)))"
proof -
  assume "depth < maxSize"
  then have "nat (maxSize - depth) = Suc (nat (maxSize - (depth + 1)))" by simp
  then show ?thesis by simp
qed

lemma nodes_ge_1: "1 \<le> int (nodes n k)"
  using nodes_pos [of n k] by linarith

text \<open>
  A search that fails within its budget has visited every choice. The loop does not look at the empty
  continuation, which its caller has rejected.
\<close>

lemma dfs_complete:
  "dfs tol minSize maxSize rest remaining depth out budget = (False, out', budget') \<Longrightarrow>
     no_wrap tol remaining \<Longrightarrow> \<forall>x \<in> set rest. 0 < AmountMinor x \<Longrightarrow> depth \<le> maxSize \<Longrightarrow>
     int (nodes (length rest) (nat (maxSize - depth))) \<le> budget \<Longrightarrow>
     (\<forall>ys. \<not> completes tol minSize maxSize rest remaining depth ys) \<and>
     budget - int (nodes (length rest) (nat (maxSize - depth))) \<le> budget'"
  "dfs_loop tol minSize maxSize rest remaining depth out budget = (False, out', budget') \<Longrightarrow>
     no_wrap tol remaining \<Longrightarrow> \<forall>x \<in> set rest. 0 < AmountMinor x \<Longrightarrow> depth < maxSize \<Longrightarrow>
     int (nodes (length rest) (nat (maxSize - depth))) - 1 \<le> budget \<Longrightarrow>
     (\<forall>ys. ys \<noteq> [] \<longrightarrow> \<not> completes tol minSize maxSize rest remaining depth ys) \<and>
     budget - (int (nodes (length rest) (nat (maxSize - depth))) - 1) \<le> budget'"
proof (induction tol minSize maxSize rest remaining depth out budget and
    tol minSize maxSize rest remaining depth out budget
    arbitrary: out' budget' and out' budget' rule: dfs_dfs_loop.induct)
  case (1 tol minSize maxSize rest remaining depth out budget)
  let ?n = "int (nodes (length rest) (nat (maxSize - depth)))"
  have n1: "1 \<le> ?n" by (rule nodes_ge_1)
  then have b: "\<not> budget \<le> 0" using 1(6) by linarith
  have rej: "\<not> (depth \<ge> minSize \<and> abs64 remaining \<le> tol)"
    using 1(2) b by (auto simp: dfs.simps [of _ _ _ rest] Let_def split: if_splits)
  have nil: "\<not> completes tol minSize maxSize rest remaining depth []"
    using rej no_wrap_abs [OF 1(3)] by (auto simp: completes_def)
  show ?case
  proof (cases "depth = maxSize")
    case True
    then have "completes tol minSize maxSize rest remaining depth ys \<Longrightarrow> ys = []" for ys
      by (auto simp: completes_def)
    moreover have "budget' = budget - 1"
      using 1(2) b rej True by (auto simp: dfs.simps [of _ _ _ rest] Let_def)
    ultimately show ?thesis using nil n1 by fastforce
  next
    case False
    then have l: "dfs_loop tol minSize maxSize rest remaining depth out (budget - 1) = (False, out', budget')"
      using 1(2) b rej by (auto simp: dfs.simps [of _ _ _ rest] Let_def)
    have "depth < maxSize" using False 1(5) by simp
    moreover have "?n - 1 \<le> budget - 1" using 1(6) by simp
    ultimately have "(\<forall>ys. ys \<noteq> [] \<longrightarrow> \<not> completes tol minSize maxSize rest remaining depth ys) \<and>
        budget - 1 - (?n - 1) \<le> budget'"
      by (rule 1(1) [OF b refl rej False l 1(3,4)])
    then show ?thesis using nil by (auto simp: neq_Nil_conv) (metis neq_Nil_conv nil)
  qed
next
  case (2 tol minSize maxSize remaining depth out budget)
  then show ?case by (auto simp: completes_def)
next
  case (3 tol minSize maxSize x rest remaining depth out budget)
  let ?a = "AmountMinor x"
  let ?n = "int (nodes (length rest) (nat (maxSize - depth)))"
  let ?m = "int (nodes (length rest) (nat (maxSize - (depth + 1))))"
  have a: "0 < ?a" and pos: "\<forall>y \<in> set rest. 0 < AmountMinor y" using 3(6) by auto
  have nm: "int (nodes (length (x # rest)) (nat (maxSize - depth))) = ?m + ?n"
    using nodes_step [OF 3(7)] by simp
  have ge: "1 \<le> ?n" "1 \<le> ?m" by (rule nodes_ge_1)+
  have bud: "?m + ?n - 1 \<le> budget" using 3(8) nm by simp
  show ?case
  proof (cases "?a > i64 (remaining + tol)")
    case True
    then have "dfs_loop tol minSize maxSize rest remaining depth out budget = (False, out', budget')"
      using 3(4) by simp
    moreover have "?n - 1 \<le> budget" using bud ge by linarith
    ultimately have ih: "(\<forall>ys. ys \<noteq> [] \<longrightarrow> \<not> completes tol minSize maxSize rest remaining depth ys) \<and>
        budget - (?n - 1) \<le> budget'" by (rule 3(1) [OF refl True _ 3(5) pos 3(7)])
    have "\<not> completes tol minSize maxSize (x # rest) remaining depth ys" if "ys \<noteq> []" for ys
      using that ih True no_wrap_add [OF 3(5)] too_big [OF _ pos]
      by (auto elim!: completes_ConsE) fastforce
    then show ?thesis using ih ge nm by auto
  next
    case False
    then have w: "i64 (remaining - ?a) = remaining - ?a" "no_wrap tol (remaining - ?a)"
      using no_wrap_sub [OF 3(5) a] no_wrap_add [OF 3(5)] by auto
    obtain ok1 out1 b1 where d: "dfs tol minSize maxSize rest (i64 (remaining - ?a)) (depth + 1) (out @ [x])
        budget = (ok1, out1, b1)" by (rule prod_cases3)
    have ok1: "\<not> ok1" using 3(4) False d by (auto simp: Let_def)
    then have d': "dfs tol minSize maxSize rest (i64 (remaining - ?a)) (depth + 1) (out @ [x])
        budget = (False, out1, b1)" using d by simp
    have ih1: "(\<forall>ys. \<not> completes tol minSize maxSize rest (i64 (remaining - ?a)) (depth + 1) ys) \<and>
        budget - ?m \<le> b1"
      by (rule 3(2) [OF refl False d']) (use w pos 3(7) bud ge in auto)
    have l: "dfs_loop tol minSize maxSize rest remaining depth (butlast out1) b1 = (False, out', budget')"
      using 3(4) False d' by (simp add: Let_def)
    have "?n - 1 \<le> b1" using ih1 bud by linarith
    then have ih2: "(\<forall>ys. ys \<noteq> [] \<longrightarrow> \<not> completes tol minSize maxSize rest remaining depth ys) \<and>
        b1 - (?n - 1) \<le> budget'"
      by (rule 3(3) [OF refl False d' [symmetric] refl refl l 3(5) pos 3(7)])
    have "\<not> completes tol minSize maxSize (x # rest) remaining depth ys" if "ys \<noteq> []" for ys
      using that ih1 ih2 w(1) by (auto elim!: completes_ConsE)
    then show ?thesis using ih1 ih2 nm by auto
  qed
qed

subsection \<open>The specification\<close>

definition subset_fits :: "Leg list \<Rightarrow> int \<Rightarrow> int \<Rightarrow> int \<Rightarrow> int \<Rightarrow> Leg list \<Rightarrow> bool" where
  "subset_fits pool target tol minSize maxSize out \<longleftrightarrow>
     mset out \<subseteq># mset pool \<and> minSize \<le> int (length out) \<and> int (length out) \<le> maxSize \<and>
     \<bar>target - total out\<bar> \<le> tol"

lemma mset_subseq:
 "mset zs \<subseteq># mset xs \<Longrightarrow> \<exists>ys. subseq ys xs \<and> mset ys = mset zs"
proof (induction xs arbitrary: zs)
  case (Cons x xs)
  show ?case
  proof (cases "x \<in> set zs")
    case True
    then have z: "mset zs = add_mset x (mset (remove1 x zs))" by simp
    have "add_mset x (mset (remove1 x zs)) \<subseteq># add_mset x (mset xs)"
      using Cons.prems unfolding z [symmetric] by simp
    then have "mset (remove1 x zs) \<subseteq># mset xs" by (simp only: mset_subset_eq_add_mset_cancel)
    then obtain ys where "subseq ys xs" "mset ys = mset (remove1 x zs)" using Cons.IH by blast
    then have "subseq (x # ys) (x # xs)" "mset (x # ys) = mset zs" by (simp_all only: z mset.simps subseq_Cons2)
    then show ?thesis by blast
  next
    case False
    then have "mset zs \<subseteq># mset xs"
      using Cons.prems by (auto simp: subseteq_mset_def count_eq_zero_iff) (metis count_mset_0_iff le0)
    then show ?thesis using Cons.IH by (blast intro: list_emb_Cons)
  qed
qed simp

lemma total_mset: "mset ys = mset zs \<Longrightarrow> total ys = total zs \<and> length ys = length zs"
  by (metis mset_eq_length mset_map sum_mset_sum_list)

lemma fits_iff_completes:
  "(\<exists>out. subset_fits pool target tol minSize maxSize out) \<longleftrightarrow>
   (\<exists>ys. completes tol minSize maxSize (sort_key f pool) target 0 ys)"
proof
  assume "\<exists>out. subset_fits pool target tol minSize maxSize out"
  then obtain out where o: "subset_fits pool target tol minSize maxSize out" ..
  then have "mset out \<subseteq># mset (sort_key f pool)" by (simp add: subset_fits_def)
  then obtain ys where ys: "subseq ys (sort_key f pool)" "mset ys = mset out" using mset_subseq by blast
  then show "\<exists>ys. completes tol minSize maxSize (sort_key f pool) target 0 ys"
    using o total_mset [OF ys(2)] by (auto simp: completes_def subset_fits_def)
next
  assume "\<exists>ys. completes tol minSize maxSize (sort_key f pool) target 0 ys"
  then obtain ys where ys: "completes tol minSize maxSize (sort_key f pool) target 0 ys" ..
  then have "mset ys \<subseteq># mset (sort_key f pool)" by (intro subseq_mset) (simp add: completes_def)
  then show "\<exists>out. subset_fits pool target tol minSize maxSize out"
    using ys by (auto simp: completes_def subset_fits_def)
qed

lemma subsetSum_Some:
  assumes "subsetSum pool target tol minSize maxSize = Some out" "\<forall>x \<in> set pool. 0 < AmountMinor x"
    "no_wrap tol target"
  shows "subset_fits pool target tol minSize maxSize out"
proof -
  let ?s = "sort_key (\<lambda>l. - AmountMinor l) pool"
  obtain b where d: "dfs tol minSize maxSize ?s target 0 [] search_budget = (True, out, b)" and "0 < maxSize"
    using assms(1) by (auto simp: subsetSum_def Let_def split: if_splits prod.splits bool.splits)
  then have "completes tol minSize maxSize ?s target 0 out"
    using dfs_sound(1) [OF d assms(3)] assms(2) by auto
  then show ?thesis using subseq_mset [of out ?s] by (auto simp: completes_def subset_fits_def)
qed

lemma subsetSum_None:
  assumes "subsetSum pool target tol minSize maxSize = None" "\<forall>x \<in> set pool. 0 < AmountMinor x"
    "no_wrap tol target" "1 \<le> minSize" "int (nodes (length pool) (nat maxSize)) \<le> search_budget"
  shows "\<not> subset_fits pool target tol minSize maxSize out"
proof (cases "maxSize \<le> 0 \<or> pool = []")
  case True
  then show ?thesis using assms(4) by (auto simp: subset_fits_def)
next
  case False
  let ?s = "sort_key (\<lambda>l. - AmountMinor l) pool"
  obtain o' b where d: "dfs tol minSize maxSize ?s target 0 [] search_budget = (False, o', b)"
    using assms(1) False by (auto simp: subsetSum_def Let_def split: prod.splits bool.splits)
  have "\<forall>ys. \<not> completes tol minSize maxSize ?s target 0 ys"
    using dfs_complete(1) [OF d assms(3)] assms(2,5) False by simp
  then show ?thesis using fits_iff_completes by blast
qed

subsection \<open>Properties\<close>

text \<open>
  C18: what \<open>subsetSum\<close> returns is a sub-multiset of the pool, of a size within the bounds, whose amounts
  differ from the target by at most the tolerance, for positive amounts and a target and tolerance
  whose sum fits \<open>int64\<close>; no intermediate sum wraps, however large the amounts of the pool are.
\<close>

theorem subset_sum_sound:
  assumes "subsetSum pool target tol minSize maxSize = Some out"
    and "\<forall>x \<in> set pool. 0 < AmountMinor x" and "no_wrap tol target"
  shows "subset_fits pool target tol minSize maxSize out"
  by (rule subsetSum_Some [OF assms])

theorem subset_sum_sound_witness:
  "let pool = map (\<lambda>a. plain_leg ''rail'' ''R'' a ''VISA'' []) [30, 50, 20, 90];
       out = map (\<lambda>a. plain_leg ''rail'' ''R'' a ''VISA'' []) [50, 30, 20]
   in subset_fits pool 100 1 2 3 out"
  unfolding Let_def by (rule subset_sum_sound) code_simp+

text \<open>
  C12: within its node budget the search is a decision procedure: if the subsets of at most \<open>maxSize\<close> legs
  of the pool number at most 200000, \<open>subsetSum\<close> finds a subset exactly when there is one.
\<close>

theorem subset_sum_decides:
  assumes "\<forall>x \<in> set pool. 0 < AmountMinor x" and "no_wrap tol target" and "1 \<le> minSize"
    and "(\<Sum>j \<le> nat maxSize. length pool choose j) \<le> 200000"
  shows "(\<exists>out. subsetSum pool target tol minSize maxSize = Some out) \<longleftrightarrow>
    (\<exists>out. subset_fits pool target tol minSize maxSize out)"
proof -
  have "nodes (length pool) (nat maxSize) \<le> 200000" using assms(4) by (simp only: nodes_binomial)
  then have "int (nodes (length pool) (nat maxSize)) \<le> search_budget" by (simp add: search_budget_def)
  then show ?thesis
    using subsetSum_Some [OF _ assms(1,2)] subsetSum_None [OF _ assms(1-3)]
    by (cases "subsetSum pool target tol minSize maxSize") auto
qed

theorem subset_sum_decides_witness:
  "let pool = map (\<lambda>a. plain_leg ''rail'' ''R'' a ''VISA'' []) [30, 50, 20, 90]
   in \<not> (\<exists>out. subset_fits pool 65 1 2 3 out)"
proof -
  let ?pool = "map (\<lambda>a. plain_leg ''rail'' ''R'' a ''VISA'' []) [30, 50, 20, 90]"
  have h: "\<forall>x \<in> set ?pool. 0 < AmountMinor x" "no_wrap 1 65" "(1 :: int) \<le> 2" by code_simp+
  have "length ?pool = 4" by simp
  moreover have "(\<Sum>j \<le> nat 3. 4 choose j) \<le> 200000"
    using default_search_fits [of 4 "nat 3"] unfolding nodes_binomial by simp
  ultimately have n: "(\<Sum>j \<le> nat 3. length ?pool choose j) \<le> 200000" by (simp only:)
  have "subsetSum ?pool 65 1 2 3 = None" by code_simp
  then show ?thesis using subset_sum_decides [OF h n] unfolding Let_def by simp
qed

text \<open>
  with the default limits of 24 candidates and 6 legs the budget never runs out (190051 nodes at
  most), so the many-to-one search misses no subset.
\<close>

theorem subset_sum_default:
  assumes "\<forall>x \<in> set pool. 0 < AmountMinor x" and "no_wrap tol target" and "1 \<le> minSize"
    and "int (length pool) \<le> T3MaxCandidates DefaultRules" and "maxSize \<le> T3MaxSubset DefaultRules"
  shows "subsetSum pool target tol minSize maxSize = None \<longleftrightarrow>
    (\<forall>out. \<not> subset_fits pool target tol minSize maxSize out)"
proof -
  have "nodes (length pool) (nat maxSize) \<le> 200000"
    using assms(4,5) by (intro default_search_fits) (auto simp: DefaultRules_def)
  then have "int (nodes (length pool) (nat maxSize)) \<le> search_budget" by (simp add: search_budget_def)
  then show ?thesis
    using subsetSum_Some [OF _ assms(1,2)] subsetSum_None [OF _ assms(1-3)]
    by (cases "subsetSum pool target tol minSize maxSize") auto
qed

theorem subset_sum_default_witness:
  "let pool = map (\<lambda>a. plain_leg ''rail'' ''R'' a ''VISA'' []) [30, 50]
   in \<forall>out. \<not> subset_fits pool 90 2 2 6 out"
proof -
  let ?pool = "map (\<lambda>a. plain_leg ''rail'' ''R'' a ''VISA'' []) [30, 50]"
  have h: "\<forall>x \<in> set ?pool. 0 < AmountMinor x" "no_wrap 2 90" "(1 :: int) \<le> 2"
    "int (length ?pool) \<le> T3MaxCandidates DefaultRules" "6 \<le> T3MaxSubset DefaultRules" by code_simp+
  have "subsetSum ?pool 90 2 2 6 = None" by code_simp
  then show ?thesis using subset_sum_default [OF h] unfolding Let_def by simp
qed



end
