(* ===== verification/Recon_Matcher.thy ===== *)
theory Recon_Matcher
  imports Recon_Index Recon_SubsetSum
begin

text \<open>
  The deterministic matcher (\<open>internal/domain/recon/matcher.go\<close>): the ordered tiers over the open-leg
  index. The receiver \<open>m.rules\<close> is the argument \<open>r\<close>, a \<open>refExists\<close> callback is an optional function,
  and \<open>(Match, bool)\<close> is an option. The lazily computed window scan is a value, since computing it has
  no effect.

  The facts give the specification of a match rule by rule (\<open>pair_spec\<close>, \<open>many_spec\<close>): which legs it
  joins, how their amounts and dates relate, and that an earlier tier always wins.
\<close>

subsection \<open>Building matches\<close>

definition pair :: "(string \<Rightarrow> string) \<Rightarrow> Leg \<Rightarrow> Leg \<Rightarrow> Tier \<Rightarrow> string \<Rightarrow> rat \<Rightarrow> Match" where
  "pair sha256 l c tier rule conf =
     (let ids = sort [ID l, ID c] in
      \<lparr>MID = DeriveID sha256 ''m'' ids, MLegIDs = ids, MTier = tier, MRuleID = rule, MConfidence = conf,
       MResidualMinor = i64 (AmountMinor c - AmountMinor l), MCurrency = Currency l,
       MatchedAt = time_zero\<rparr>)"

definition sum64 :: "Leg list \<Rightarrow> int" where
  "sum64 ls = foldl (\<lambda>s x. i64 (s + AmountMinor x)) 0 ls"

definition many :: "(string \<Rightarrow> string) \<Rightarrow> Leg \<Rightarrow> Leg list \<Rightarrow> Tier \<Rightarrow> string \<Rightarrow> int \<Rightarrow> Match" where
  "many sha256 anchor ls tier rule tol =
     (let ids = sort (ID anchor # map ID ls);
          residual = i64 (sum64 ls - AmountMinor anchor);
          conf = f64 (tolerantConfidence residual tol - f64 (10 / 100)) in
      \<lparr>MID = DeriveID sha256 ''m'' ids, MLegIDs = ids, MTier = tier, MRuleID = rule, MConfidence = conf,
       MResidualMinor = residual, MCurrency = Currency anchor, MatchedAt = time_zero\<rparr>)"

subsection \<open>Helpers\<close>

definition settlementKey :: "Leg \<Rightarrow> string" where
  "settlementKey l = (let b = attr l AttrBatchRef in if b \<noteq> '''' then b else TxnRef l)"

definition filterLegs :: "Leg list \<Rightarrow> (Leg \<Rightarrow> bool) \<Rightarrow> Leg list" where
  "filterLegs ls keep = filter keep ls"

definition inWindow :: "Rules \<Rightarrow> Leg \<Rightarrow> Leg list \<Rightarrow> Leg list" where
  "inWindow r l cands = filter (\<lambda>c. WithinDateWindow r (ValueDate c) (ValueDate l)) cands"

definition groupBySource :: "Leg list \<Rightarrow> (string, Leg list) gomap" where
  "groupBySource ls = foldl (\<lambda>g l. gm_put (Source l) (gm_inner g (Source l) @ [l]) g) [] ls"

definition sortedKeys :: "(string, Leg list) gomap \<Rightarrow> string list" where
  "sortedKeys m = sort (map fst m)"

definition capCandidates :: "Leg list \<Rightarrow> int \<Rightarrow> Leg list" where
  "capCandidates ls n = (if int (length ls) \<le> n then ls else take (nat n) ls)"

subsection \<open>Tiers\<close>

definition tier1 :: "(string \<Rightarrow> string) \<Rightarrow> Leg \<Rightarrow> Leg list \<Rightarrow> Match option" where
  "tier1 sha256 l cands =
     (case find (\<lambda>c. TxnRef c = TxnRef l \<and> AmountMinor c = AmountMinor l) cands of
        Some c \<Rightarrow> Some (pair sha256 l c TierExact RuleT1Exact 1)
      | None \<Rightarrow> None)"

fun tier2_best :: "Rules \<Rightarrow> Leg \<Rightarrow> (Leg \<times> int) option \<Rightarrow> Leg list \<Rightarrow> (Leg \<times> int) option" where
  "tier2_best r l best [] = best"
| "tier2_best r l best (c # cands) =
     (if TxnRef c \<noteq> TxnRef l \<or> \<not> WithinTolerance r (AmountMinor l) (AmountMinor c)
      then tier2_best r l best cands
      else let d = abs64 (i64 (AmountMinor c - AmountMinor l)) in
        tier2_best r l
          (case best of
             None \<Rightarrow> Some (c, d)
           | Some (_, bestDiff) \<Rightarrow> if d < bestDiff then Some (c, d) else best) cands)"

definition tier2Ref :: "(string \<Rightarrow> string) \<Rightarrow> Rules \<Rightarrow> Leg \<Rightarrow> Leg list \<Rightarrow> Match option" where
  "tier2Ref sha256 r l cands =
     (case tier2_best r l None cands of
        None \<Rightarrow> None
      | Some (best, bestDiff) \<Rightarrow>
          let conf = tolerantConfidence bestDiff (Tolerance r (AmountMinor l))
          in Some (pair sha256 l best TierTolerant RuleT2Tolerant conf))"

type_synonym refExists = "string \<Rightarrow> string \<Rightarrow> bool"

definition tier2AmountDate ::
    "(string \<Rightarrow> string) \<Rightarrow> Rules \<Rightarrow> Leg \<Rightarrow> Leg list \<Rightarrow> Index \<Rightarrow> refExists option \<Rightarrow> Match option" where
  "tier2AmountDate sha256 r l scan ix ex =
     (case filter (\<lambda>c. AmountMinor c = AmountMinor l) scan of
        [hit] \<Rightarrow>
          if \<exists>s \<in> set (SameSourceInWindow ix l).
               AmountMinor s = AmountMinor l \<and> WithinDateWindow r (ValueDate s) (ValueDate hit)
          then None
          else if (case ex of None \<Rightarrow> False
                   | Some known \<Rightarrow> known (TxnRef hit) (Source l) \<or> known (TxnRef l) (Source hit))
          then None
          else Some (pair sha256 l hit TierTolerant RuleT2AmountDate (f64 (75 / 100)))
      | _ \<Rightarrow> None)"

text \<open>Orientation (a): the leg settles several legs of one other source.\<close>

fun tier3_one :: "(string \<Rightarrow> string) \<Rightarrow> Rules \<Rightarrow> Leg \<Rightarrow> (string, Leg list) gomap \<Rightarrow> string list \<Rightarrow> Match option" where
  "tier3_one sha256 r l bySource [] = None"
| "tier3_one sha256 r l bySource (src # srcs) =
     (let p = capCandidates (gm_inner bySource src) (T3MaxCandidates r);
          tol = Tolerance r (AmountMinor l) in
      case subsetSum p (AmountMinor l) tol 2 (T3MaxSubset r) of
        Some sub \<Rightarrow> Some (many sha256 l sub TierManyToOne RuleT3Subset tol)
      | None \<Rightarrow> tier3_one sha256 r l bySource srcs)"

text \<open>Orientation (b): the leg completes the legs of its source that an open leg settles.\<close>

fun tier3_many :: "(string \<Rightarrow> string) \<Rightarrow> Rules \<Rightarrow> Leg \<Rightarrow> Leg list \<Rightarrow> Leg list \<Rightarrow> Match option" where
  "tier3_many sha256 r l same [] = None"
| "tier3_many sha256 r l same (s # settlements) =
     (if AmountMinor s \<le> AmountMinor l \<or> \<not> WithinDateWindow r (ValueDate s) (ValueDate l)
      then tier3_many sha256 r l same settlements
      else
        let p = filterLegs same (\<lambda>o'. WithinDateWindow r (ValueDate o') (ValueDate s) \<and>
                                      AmountMinor o' < AmountMinor s);
            p = capCandidates p (T3MaxCandidates r);
            tol = Tolerance r (AmountMinor s) in
        case subsetSum p (i64 (AmountMinor s - AmountMinor l)) tol 1 (T3MaxSubset r - 1) of
          None \<Rightarrow> tier3_many sha256 r l same settlements
        | Some rest \<Rightarrow> Some (many sha256 s (l # rest) TierManyToOne RuleT3Subset tol))"

definition tier3_pool :: "Rules \<Rightarrow> Leg \<Rightarrow> Leg list \<Rightarrow> Index \<Rightarrow> Leg list" where
  "tier3_pool r l scan ix =
     (if T3RequireBatchHint r
      then inWindow r l (filterLegs (ByBatch ix l (settlementKey l)) (\<lambda>c. Source c \<noteq> Source l))
      else scan)"

definition tier3_settlements :: "Rules \<Rightarrow> Leg \<Rightarrow> Leg list \<Rightarrow> Index \<Rightarrow> Leg list" where
  "tier3_settlements r l scan ix =
     (let myBatch = attr l AttrBatchRef in
      if T3RequireBatchHint r
      then sortLegs (filterLegs (RefLegs ix myBatch) (\<lambda>s. Source s \<noteq> Source l \<and> Key s = Key l) @
                     filterLegs (ByBatch ix l myBatch) (\<lambda>s. Source s \<noteq> Source l))
      else scan)"

definition tier3_same :: "Rules \<Rightarrow> Leg \<Rightarrow> Index \<Rightarrow> Leg list" where
  "tier3_same r l ix =
     (if T3RequireBatchHint r
      then filterLegs (ByBatch ix l (attr l AttrBatchRef)) (\<lambda>o'. Source o' = Source l)
      else SameSourceInWindow ix l)"

definition tier3 :: "(string \<Rightarrow> string) \<Rightarrow> Rules \<Rightarrow> Leg \<Rightarrow> Leg list \<Rightarrow> Index \<Rightarrow> Match option" where
  "tier3 sha256 r l scan ix =
     (let bySource = groupBySource (tier3_pool r l scan ix) in
      case tier3_one sha256 r l bySource (sortedKeys bySource) of
        Some mt \<Rightarrow> Some mt
      | None \<Rightarrow>
          if T3RequireBatchHint r \<and> attr l AttrBatchRef = '''' then None
          else tier3_many sha256 r l (tier3_same r l ix) (tier3_settlements r l scan ix))"

definition matcher_find ::
    "(string \<Rightarrow> string) \<Rightarrow> Rules \<Rightarrow> Leg \<Rightarrow> Index \<Rightarrow> refExists option \<Rightarrow> Match option" where
  "matcher_find sha256 r l ix ex =
     (let byRef = inWindow r l (CandidatesByRef ix l) in
      case tier1 sha256 l byRef of
        Some mt \<Rightarrow> Some mt
      | None \<Rightarrow>
        (case tier2Ref sha256 r l byRef of
           Some mt \<Rightarrow> Some mt
         | None \<Rightarrow>
             let scan = inWindow r l (Candidates ix l) in
             case tier2AmountDate sha256 r l scan ix ex of
               Some mt \<Rightarrow> Some mt
             | None \<Rightarrow> tier3 sha256 r l scan ix))"

subsection \<open>What the tiers select from\<close>

text \<open>A possible partner: an open leg of another source in the same window with a close value date.\<close>

definition partner :: "Rules \<Rightarrow> Index \<Rightarrow> Leg \<Rightarrow> Leg \<Rightarrow> bool" where
  "partner r ix l c \<longleftrightarrow>
     Get ix (ID c) = Some c \<and> Key c = Key l \<and> Source c \<noteq> Source l \<and>
     WithinDateWindow r (ValueDate c) (ValueDate l)"

text \<open>An open leg of the same source in the same window.\<close>

definition sibling :: "Index \<Rightarrow> Leg \<Rightarrow> Leg \<Rightarrow> bool" where
  "sibling ix l c \<longleftrightarrow> Get ix (ID c) = Some c \<and> Key c = Key l \<and> Source c = Source l \<and> ID c \<noteq> ID l"

lemma byRef_iff:
  "ix_ok ix \<Longrightarrow> c \<in> set (inWindow r l (CandidatesByRef ix l)) \<longleftrightarrow> partner r ix l c \<and> TxnRef c = TxnRef l"
  by (auto simp: inWindow_def CandidatesByRef_query set_query partner_def)

lemma scan_iff: "ix_ok ix \<Longrightarrow> c \<in> set (inWindow r l (Candidates ix l)) \<longleftrightarrow> partner r ix l c"
  by (auto simp: inWindow_def Candidates_query set_query partner_def)

lemma distinct_scan: "ix_ok ix \<Longrightarrow> distinct (inWindow r l (Candidates ix l))"
  by (simp add: inWindow_def Candidates_query distinct_query)

lemma same_iff: "ix_ok ix \<Longrightarrow> c \<in> set (SameSourceInWindow ix l) \<longleftrightarrow> sibling ix l c"
  by (auto simp: SameSourceInWindow_query set_query sibling_def)

lemma groupBySource_inner: "gm_inner (groupBySource ls) s = filter (\<lambda>l. Source l = s) ls"
proof -
  have "gm_inner (foldl (\<lambda>g l. gm_put (Source l) (gm_inner g (Source l) @ [l]) g) g ls) s =
      gm_inner g s @ filter (\<lambda>l. Source l = s) ls" for g
    by (induction ls arbitrary: g) auto
  then show ?thesis by (simp add: groupBySource_def gm_inner_def)
qed

lemma capCandidates_take: "\<exists>n. capCandidates ls m = take n ls"
  by (auto simp: capCandidates_def) (metis take_all_iff order_refl)

lemma capCandidates_set: "set (capCandidates ls m) \<subseteq> set ls"
  using capCandidates_take [of ls m] set_take_subset by metis

lemma capCandidates_distinct: "distinct (map f ls) \<Longrightarrow> distinct (map f (capCandidates ls m))"
  using capCandidates_take [of ls m] by (metis distinct_take take_map)

lemma pool_iff:
  assumes "ix_ok ix" "c \<in> set (tier3_pool r l (inWindow r l (Candidates ix l)) ix)"
  shows "partner r ix l c"
  using assms
  by (auto simp: tier3_pool_def scan_iff split: if_splits)
    (auto simp: inWindow_def filterLegs_def ByBatch_query set_query partner_def)

lemma ids_distinct:
  assumes "ix_ok ix" "distinct xs" "\<And>c. c \<in> set xs \<Longrightarrow> Get ix (ID c) = Some c"
  shows "distinct (map ID xs)"
  using assms(2,3) by (auto simp: distinct_map inj_on_def) (metis option.inject)

lemma pool_distinct:
  assumes "ix_ok ix"
  shows "distinct (map ID (tier3_pool r l (inWindow r l (Candidates ix l)) ix))"
proof (rule ids_distinct [OF assms])
  show "distinct (tier3_pool r l (inWindow r l (Candidates ix l)) ix)"
    using assms
    by (auto simp: tier3_pool_def inWindow_def filterLegs_def ByBatch_query Candidates_query distinct_query)
qed (use pool_iff [OF assms] in \<open>auto simp: partner_def\<close>)

lemma same_sibling: "ix_ok ix \<Longrightarrow> c \<in> set (tier3_same r l ix) \<Longrightarrow> sibling ix l c"
  by (auto simp: tier3_same_def same_iff split: if_splits)
    (auto simp: filterLegs_def ByBatch_query set_query sibling_def)

lemma same_distinct: "ix_ok ix \<Longrightarrow> distinct (map ID (tier3_same r l ix))"
proof (rule ids_distinct)
  show "ix_ok ix \<Longrightarrow> distinct (tier3_same r l ix)"
    by (auto simp: tier3_same_def filterLegs_def ByBatch_query SameSourceInWindow_query distinct_query)
qed (auto dest: same_sibling simp: sibling_def)

lemma settlement_iff:
  assumes "ix_ok ix" "s \<in> set (tier3_settlements r l (inWindow r l (Candidates ix l)) ix)"
  shows "Get ix (ID s) = Some s \<and> Key s = Key l \<and> Source s \<noteq> Source l"
  using assms
  by (auto simp: tier3_settlements_def Let_def scan_iff partner_def filterLegs_def ByBatch_query
      RefLegs_query set_query split: if_splits)

subsection \<open>What a match is\<close>

definition exact_spec :: "(string \<Rightarrow> string) \<Rightarrow> Rules \<Rightarrow> Index \<Rightarrow> Leg \<Rightarrow> Match \<Rightarrow> bool" where
  "exact_spec sha256 r ix l m \<longleftrightarrow>
     (\<exists>c. partner r ix l c \<and> TxnRef c = TxnRef l \<and> AmountMinor c = AmountMinor l \<and>
          m = pair sha256 l c TierExact RuleT1Exact 1)"

definition ref_spec :: "(string \<Rightarrow> string) \<Rightarrow> Rules \<Rightarrow> Index \<Rightarrow> Leg \<Rightarrow> Match \<Rightarrow> bool" where
  "ref_spec sha256 r ix l m \<longleftrightarrow>
     (\<exists>c d. partner r ix l c \<and> TxnRef c = TxnRef l \<and> AmountMinor c \<noteq> AmountMinor l \<and>
        WithinTolerance r (AmountMinor l) (AmountMinor c) \<and>
        d = abs64 (i64 (AmountMinor c - AmountMinor l)) \<and>
        (\<forall>c'. partner r ix l c' \<and> TxnRef c' = TxnRef l \<and> WithinTolerance r (AmountMinor l) (AmountMinor c')
           \<longrightarrow> d \<le> abs64 (i64 (AmountMinor c' - AmountMinor l))) \<and>
        m = pair sha256 l c TierTolerant RuleT2Tolerant (tolerantConfidence d (Tolerance r (AmountMinor l))))"

definition amount_spec ::
    "(string \<Rightarrow> string) \<Rightarrow> Rules \<Rightarrow> Index \<Rightarrow> refExists option \<Rightarrow> Leg \<Rightarrow> Match \<Rightarrow> bool" where
  "amount_spec sha256 r ix ex l m \<longleftrightarrow>
     (\<exists>c. partner r ix l c \<and> TxnRef c \<noteq> TxnRef l \<and> AmountMinor c = AmountMinor l \<and>
        (\<forall>c'. partner r ix l c' \<and> AmountMinor c' = AmountMinor l \<longrightarrow> c' = c) \<and>
        (\<forall>s. sibling ix l s \<and> AmountMinor s = AmountMinor l \<longrightarrow>
           \<not> WithinDateWindow r (ValueDate s) (ValueDate c)) \<and>
        (\<forall>known. ex = Some known \<longrightarrow> \<not> known (TxnRef c) (Source l) \<and> \<not> known (TxnRef l) (Source c)) \<and>
        m = pair sha256 l c TierTolerant RuleT2AmountDate (f64 (75 / 100)))"

text \<open>The shape of a many-to-one match: an anchor and the legs it settles.\<close>

definition many_shape :: "(string \<Rightarrow> string) \<Rightarrow> Rules \<Rightarrow> Index \<Rightarrow> Leg \<Rightarrow> Match \<Rightarrow> Leg \<Rightarrow> Leg list \<Rightarrow> bool" where
  "many_shape sha256 r ix l m anchor ls \<longleftrightarrow>
     m = many sha256 anchor ls TierManyToOne RuleT3Subset (Tolerance r (AmountMinor anchor)) \<and>
     distinct (map ID ls) \<and>
     (anchor = l \<and> (\<exists>s. \<forall>x \<in> set ls. partner r ix l x \<and> Source x = s) \<or>
      (\<exists>rest. ls = l # rest \<and> partner r ix l anchor \<and> AmountMinor l < AmountMinor anchor \<and>
        (\<forall>x \<in> set rest. sibling ix l x \<and> WithinDateWindow r (ValueDate x) (ValueDate anchor))))"

subsection \<open>The tiers implement their rules\<close>

lemma find_set: "find P xs = Some x \<Longrightarrow> x \<in> set xs \<and> P x"
  by (induction xs) (auto split: if_splits)

lemma tier1_Some:
  assumes "ix_ok ix" "tier1 sha256 l (inWindow r l (CandidatesByRef ix l)) = Some m"
  shows "exact_spec sha256 r ix l m"
proof -
  obtain c where f: "find (\<lambda>c. TxnRef c = TxnRef l \<and> AmountMinor c = AmountMinor l)
      (inWindow r l (CandidatesByRef ix l)) = Some c" and m: "m = pair sha256 l c TierExact RuleT1Exact 1"
    using assms(2) by (auto simp: tier1_def split: option.splits)
  from find_set [OF f] have "partner r ix l c" "TxnRef c = TxnRef l" "AmountMinor c = AmountMinor l"
    by (simp_all add: byRef_iff [OF assms(1)])
  then show ?thesis unfolding exact_spec_def using m by blast
qed

lemma tier1_None:
  "ix_ok ix \<Longrightarrow> tier1 sha256 l (inWindow r l (CandidatesByRef ix l)) = None \<longleftrightarrow>
     (\<forall>c. partner r ix l c \<and> TxnRef c = TxnRef l \<longrightarrow> AmountMinor c \<noteq> AmountMinor l)"
proof -
  assume ok: "ix_ok ix"
  have "tier1 sha256 l cs = None \<longleftrightarrow> \<not> (\<exists>c. c \<in> set cs \<and> TxnRef c = TxnRef l \<and> AmountMinor c = AmountMinor l)"
    for cs unfolding find_None_iff [symmetric] by (simp add: tier1_def split: option.splits)
  then show ?thesis by (auto simp: byRef_iff [OF ok])
qed

abbreviation ref_fits :: "Rules \<Rightarrow> Leg \<Rightarrow> Leg \<Rightarrow> bool" where
  "ref_fits r l c \<equiv> TxnRef c = TxnRef l \<and> WithinTolerance r (AmountMinor l) (AmountMinor c)"

abbreviation amount_diff :: "Leg \<Rightarrow> Leg \<Rightarrow> int" where
  "amount_diff l c \<equiv> abs64 (i64 (AmountMinor c - AmountMinor l))"

lemma tier2_best_Some:
  "tier2_best r l best cands = Some (c, d) \<Longrightarrow>
     (best = Some (c, d) \<or> c \<in> set cands \<and> ref_fits r l c \<and> d = amount_diff l c) \<and>
     (\<forall>c' \<in> set cands. ref_fits r l c' \<longrightarrow> d \<le> amount_diff l c') \<and>
     (\<forall>c0 d0. best = Some (c0, d0) \<longrightarrow> d \<le> d0)"
proof (induction cands arbitrary: best)
  case (Cons x cands)
  show ?case
  proof (cases "ref_fits r l x")
    case False
    then have "tier2_best r l best cands = Some (c, d)" using Cons.prems by simp
    from Cons.IH [OF this] show ?thesis using False by auto
  next
    case True
    then have b: "tier2_best r l (case best of None \<Rightarrow> Some (x, amount_diff l x)
        | Some (_, bd) \<Rightarrow> if amount_diff l x < bd then Some (x, amount_diff l x) else best) cands = Some (c, d)"
      using Cons.prems by (simp add: Let_def)
    from Cons.IH [OF b] True show ?thesis by (auto split: option.splits if_splits)
  qed
qed auto

lemma tier2_best_None:
  "tier2_best r l best cands = None \<longleftrightarrow> best = None \<and> (\<forall>c \<in> set cands. \<not> ref_fits r l c)"
  by (induction cands arbitrary: best) (auto simp: Let_def split: option.splits)

lemma tier2Ref_Some:
  assumes "ix_ok ix" "tier1 sha256 l (inWindow r l (CandidatesByRef ix l)) = None"
    "tier2Ref sha256 r l (inWindow r l (CandidatesByRef ix l)) = Some m"
  shows "ref_spec sha256 r ix l m"
proof -
  let ?b = "inWindow r l (CandidatesByRef ix l)"
  obtain c d where cd: "tier2_best r l None ?b = Some (c, d)"
    and m: "m = pair sha256 l c TierTolerant RuleT2Tolerant (tolerantConfidence d (Tolerance r (AmountMinor l)))"
    using assms(3) by (auto simp: tier2Ref_def Let_def split: option.splits)
  from tier2_best_Some [OF cd] have c: "c \<in> set ?b" "ref_fits r l c" "d = amount_diff l c"
    "\<forall>c' \<in> set ?b. ref_fits r l c' \<longrightarrow> d \<le> amount_diff l c'" by auto
  have p: "partner r ix l c" using c(1) byRef_iff [OF assms(1)] by blast
  then have "AmountMinor c \<noteq> AmountMinor l" using assms(2) c(2) tier1_None [OF assms(1)] by blast
  moreover have "\<forall>c'. partner r ix l c' \<and> TxnRef c' = TxnRef l \<and>
      WithinTolerance r (AmountMinor l) (AmountMinor c') \<longrightarrow> d \<le> amount_diff l c'"
    using c(4) byRef_iff [OF assms(1)] by blast
  ultimately show ?thesis unfolding ref_spec_def using p c(2,3) m by blast
qed

lemma tier2Ref_None:
  "ix_ok ix \<Longrightarrow> tier2Ref sha256 r l (inWindow r l (CandidatesByRef ix l)) = None \<longleftrightarrow>
     (\<forall>c. partner r ix l c \<longrightarrow> \<not> ref_fits r l c)"
proof -
  assume ok: "ix_ok ix"
  have "tier2Ref sha256 r l cs = None \<longleftrightarrow> (\<forall>c \<in> set cs. \<not> ref_fits r l c)" for cs
    using tier2_best_None [of r l None cs] by (auto simp: tier2Ref_def Let_def split: option.splits)
  then show ?thesis by (auto simp: byRef_iff [OF ok])
qed

lemma filter_single: "filter P xs = [c] \<Longrightarrow> x \<in> set xs \<and> P x \<longleftrightarrow> x = c"
proof -
  assume "filter P xs = [c]"
  then have "set (filter P xs) = {c}" by simp
  then show ?thesis by auto
qed

lemma tier2AmountDate_Some:
  assumes ok: "ix_ok ix" and t1: "tier1 sha256 l (inWindow r l (CandidatesByRef ix l)) = None"
    and t: "tier2AmountDate sha256 r l (inWindow r l (Candidates ix l)) ix ex = Some m"
  shows "amount_spec sha256 r ix ex l m"
proof -
  let ?s = "inWindow r l (Candidates ix l)"
  obtain c where f: "filter (\<lambda>c. AmountMinor c = AmountMinor l) ?s = [c]"
    and s: "\<not> (\<exists>s \<in> set (SameSourceInWindow ix l).
       AmountMinor s = AmountMinor l \<and> WithinDateWindow r (ValueDate s) (ValueDate c))"
    and e: "\<forall>known. ex = Some known \<longrightarrow> \<not> known (TxnRef c) (Source l) \<and> \<not> known (TxnRef l) (Source c)"
    and m: "m = pair sha256 l c TierTolerant RuleT2AmountDate (f64 (75 / 100))"
    using t by (auto simp: tier2AmountDate_def split: list.splits if_splits option.splits)
  have uniq: "x \<in> set ?s \<and> AmountMinor x = AmountMinor l \<longleftrightarrow> x = c" for x
    by (rule filter_single [OF f])
  have c: "partner r ix l c" "AmountMinor c = AmountMinor l" using uniq [of c] scan_iff [OF ok] by auto
  moreover have "TxnRef c \<noteq> TxnRef l" using c t1 tier1_None [OF ok] by blast
  moreover have "\<forall>c'. partner r ix l c' \<and> AmountMinor c' = AmountMinor l \<longrightarrow> c' = c"
    using uniq scan_iff [OF ok] by blast
  ultimately show ?thesis unfolding amount_spec_def using s e m same_iff [OF ok] by blast
qed

lemma tier3_one_Some:
  "tier3_one sha256 r l bySource srcs = Some m \<Longrightarrow>
     \<exists>src sub. subsetSum (capCandidates (gm_inner bySource src) (T3MaxCandidates r)) (AmountMinor l)
        (Tolerance r (AmountMinor l)) 2 (T3MaxSubset r) = Some sub \<and>
       m = many sha256 l sub TierManyToOne RuleT3Subset (Tolerance r (AmountMinor l))"
  by (induction srcs) (auto simp: Let_def split: option.splits)

definition settled_pool :: "Rules \<Rightarrow> Leg \<Rightarrow> Leg list \<Rightarrow> Leg list" where
  "settled_pool r s same =
     capCandidates (filterLegs same (\<lambda>o'. WithinDateWindow r (ValueDate o') (ValueDate s) \<and>
       AmountMinor o' < AmountMinor s)) (T3MaxCandidates r)"

lemma tier3_many_Some:
  "tier3_many sha256 r l same settlements = Some m \<Longrightarrow>
     \<exists>s \<in> set settlements. \<exists>rest. AmountMinor l < AmountMinor s \<and>
       WithinDateWindow r (ValueDate s) (ValueDate l) \<and>
       subsetSum (settled_pool r s same) (i64 (AmountMinor s - AmountMinor l)) (Tolerance r (AmountMinor s)) 1
         (T3MaxSubset r - 1) = Some rest \<and>
       m = many sha256 s (l # rest) TierManyToOne RuleT3Subset (Tolerance r (AmountMinor s))"
  by (induction settlements)
    (auto simp: Let_def settled_pool_def not_le split: if_splits option.splits)

text \<open>How a many-to-one match comes about: the two orientations, with the search that found it.\<close>

lemma tier3_Some:
  assumes ok: "ix_ok ix" and t: "tier3 sha256 r l (inWindow r l (Candidates ix l)) ix = Some m"
  obtains (one) src sub pool where
    "subsetSum pool (AmountMinor l) (Tolerance r (AmountMinor l)) 2 (T3MaxSubset r) = Some sub"
    "m = many sha256 l sub TierManyToOne RuleT3Subset (Tolerance r (AmountMinor l))"
    "distinct (map ID pool)" "\<And>x. x \<in> set pool \<Longrightarrow> partner r ix l x \<and> Source x = src"
  | (many) s rest pool where
    "subsetSum pool (i64 (AmountMinor s - AmountMinor l)) (Tolerance r (AmountMinor s)) 1 (T3MaxSubset r - 1) =
       Some rest"
    "m = many sha256 s (l # rest) TierManyToOne RuleT3Subset (Tolerance r (AmountMinor s))"
    "distinct (map ID pool)" "partner r ix l s" "AmountMinor l < AmountMinor s"
    "\<And>x. x \<in> set pool \<Longrightarrow> sibling ix l x \<and> WithinDateWindow r (ValueDate x) (ValueDate s)"
proof -
  let ?scan = "inWindow r l (Candidates ix l)"
  let ?by = "groupBySource (tier3_pool r l ?scan ix)"
  show thesis
  proof (cases "tier3_one sha256 r l ?by (sortedKeys ?by)")
    case (Some m')
    then have "m' = m" using t by (simp add: tier3_def Let_def)
    with tier3_one_Some [OF Some] obtain src sub where s:
      "subsetSum (capCandidates (gm_inner ?by src) (T3MaxCandidates r)) (AmountMinor l)
        (Tolerance r (AmountMinor l)) 2 (T3MaxSubset r) = Some sub"
      "m = Recon_Matcher.many sha256 l sub TierManyToOne RuleT3Subset (Tolerance r (AmountMinor l))" by blast
    show thesis
    proof (rule one [OF s])
      show "distinct (map ID (capCandidates (gm_inner ?by src) (T3MaxCandidates r)))"
        using pool_distinct [OF ok] by (intro capCandidates_distinct) (simp add: groupBySource_inner distinct_map_filter)
      show "partner r ix l x \<and> Source x = src"
        if "x \<in> set (capCandidates (gm_inner ?by src) (T3MaxCandidates r))" for x
        using that capCandidates_set pool_iff [OF ok] by (fastforce simp: groupBySource_inner)
    qed
  next
    case None
    then have "tier3_many sha256 r l (tier3_same r l ix) (tier3_settlements r l ?scan ix) = Some m"
      using t by (auto simp: tier3_def Let_def split: if_splits)
    from tier3_many_Some [OF this] obtain s rest where s:
      "s \<in> set (tier3_settlements r l ?scan ix)" "AmountMinor l < AmountMinor s"
      "WithinDateWindow r (ValueDate s) (ValueDate l)"
      "subsetSum (settled_pool r s (tier3_same r l ix)) (i64 (AmountMinor s - AmountMinor l))
         (Tolerance r (AmountMinor s)) 1 (T3MaxSubset r - 1) = Some rest"
      "m = Recon_Matcher.many sha256 s (l # rest) TierManyToOne RuleT3Subset (Tolerance r (AmountMinor s))" by blast
    show thesis
    proof (rule many [OF s(4,5)])
      show "distinct (map ID (settled_pool r s (tier3_same r l ix)))"
        unfolding settled_pool_def filterLegs_def
        by (rule capCandidates_distinct) (rule distinct_map_filter [OF same_distinct [OF ok]])
      show "partner r ix l s" using settlement_iff [OF ok s(1)] s(3) by (simp add: partner_def)
      show "sibling ix l x \<and> WithinDateWindow r (ValueDate x) (ValueDate s)"
        if "x \<in> set (settled_pool r s (tier3_same r l ix))" for x
        using that capCandidates_set same_sibling [OF ok] unfolding settled_pool_def filterLegs_def by fastforce
    qed (rule s(2))
  qed
qed

text \<open>For amounts up to \<open>2 ^ 61\<close> nothing wraps: the residual is the true difference.\<close>

definition small_leg :: "Leg \<Rightarrow> bool" where
  "small_leg l \<longleftrightarrow> 0 < AmountMinor l \<and> AmountMinor l \<le> 2 ^ 61"

lemma sum64_foldl:
  "\<forall>x \<in> set ls. 0 < AmountMinor x \<Longrightarrow> 0 \<le> s \<Longrightarrow> s + total ls < 2 ^ 63 \<Longrightarrow>
     foldl (\<lambda>s x. i64 (s + AmountMinor x)) s ls = s + total ls"
proof (induction ls arbitrary: s)
  case (Cons x ls)
  have "0 \<le> total ls" using Cons.prems(1) by (intro total_nonneg) simp
  then have "i64 (s + AmountMinor x) = s + AmountMinor x"
    using Cons.prems by (intro i64_id) (auto simp: in_i64_def)
  then show ?case using Cons.IH [of "s + AmountMinor x"] Cons.prems by (simp add: algebra_simps)
qed simp

lemma many_residual:
  assumes "small_leg anchor" "\<forall>x \<in> set ls. 0 < AmountMinor x" "small_rules r"
    "\<bar>total ls - AmountMinor anchor\<bar> \<le> Tolerance r (AmountMinor anchor)"
  shows "MResidualMinor (many sha256 anchor ls tier rule tol) = total ls - AmountMinor anchor"
proof -
  have t: "total ls \<le> 2 ^ 62" "0 \<le> total ls" "AmountMinor anchor \<le> 2 ^ 61" "0 < AmountMinor anchor"
    using assms(1,4) Tolerance_small [OF assms(3), of "AmountMinor anchor"] total_nonneg [OF assms(2)]
    by (auto simp: small_leg_def)
  then have "sum64 ls = total ls" using sum64_foldl [OF assms(2), of 0] by (simp add: sum64_def)
  moreover have "i64 (total ls - AmountMinor anchor) = total ls - AmountMinor anchor"
    using t by (intro i64_id) (auto simp: in_i64_def)
  ultimately show ?thesis by (simp add: many_def Let_def)
qed

definition many_spec :: "(string \<Rightarrow> string) \<Rightarrow> Rules \<Rightarrow> Index \<Rightarrow> Leg \<Rightarrow> Match \<Rightarrow> bool" where
  "many_spec sha256 r ix l m \<longleftrightarrow>
     (\<exists>anchor ls. many_shape sha256 r ix l m anchor ls \<and>
        2 \<le> length ls \<and> int (length ls) \<le> T3MaxSubset r \<and>
        MResidualMinor m = total ls - AmountMinor anchor \<and>
        \<bar>MResidualMinor m\<bar> \<le> Tolerance r (AmountMinor anchor))"

lemma small_no_wrap:
  "small_rules r \<Longrightarrow> small_leg l \<Longrightarrow> 0 \<le> t \<Longrightarrow> t \<le> AmountMinor l \<Longrightarrow> no_wrap (Tolerance r (AmountMinor l)) t"
  using Tolerance_small [of r "AmountMinor l"] by (auto simp: no_wrap_def small_leg_def)

lemma tier3_spec:
  assumes ok: "ix_ok ix" and r: "small_rules r" and l: "small_leg l"
    and small: "\<And>i c. Get ix i = Some c \<Longrightarrow> small_leg c"
    and t: "tier3 sha256 r l (inWindow r l (Candidates ix l)) ix = Some m"
  shows "many_spec sha256 r ix l m"
  using ok t
proof (cases rule: tier3_Some)
  case (one src sub pool)
  have pos: "\<forall>x \<in> set pool. 0 < AmountMinor x"
    using one(4) small by (auto simp: partner_def small_leg_def)
  have nw: "no_wrap (Tolerance r (AmountMinor l)) (AmountMinor l)"
    using l by (intro small_no_wrap [OF r l]) (simp_all add: small_leg_def)
  have fits: "subset_fits pool (AmountMinor l) (Tolerance r (AmountMinor l)) 2 (T3MaxSubset r) sub"
    by (rule subsetSum_Some [OF one(1) pos nw])
  then have d: "\<bar>total sub - AmountMinor l\<bar> \<le> Tolerance r (AmountMinor l)" by (auto simp: subset_fits_def)
  have sub: "set sub \<subseteq> set pool" "distinct (map ID sub)" using subsetSum_set [OF one(1)] one(3) by blast+
  then have "\<forall>x \<in> set sub. 0 < AmountMinor x" using pos by blast
  then have "MResidualMinor m = total sub - AmountMinor l"
    unfolding one(2) by (rule many_residual [OF l _ r d])
  moreover have "many_shape sha256 r ix l m l sub"
    unfolding many_shape_def using one(2,4) sub by blast
  ultimately show ?thesis unfolding many_spec_def using fits d by (auto simp: subset_fits_def)
next
  case (many s rest pool)
  have s: "small_leg s" using many(4) small by (auto simp: partner_def)
  have pos: "\<forall>x \<in> set pool. 0 < AmountMinor x"
    using many(6) small by (auto simp: sibling_def small_leg_def)
  have t: "0 \<le> AmountMinor s - AmountMinor l" "AmountMinor s - AmountMinor l \<le> AmountMinor s"
    using many(5) l by (simp_all add: small_leg_def)
  then have w: "i64 (AmountMinor s - AmountMinor l) = AmountMinor s - AmountMinor l"
    using s by (intro i64_id) (auto simp: in_i64_def small_leg_def)
  have fits: "subset_fits pool (AmountMinor s - AmountMinor l) (Tolerance r (AmountMinor s)) 1 (T3MaxSubset r - 1) rest"
    using many(1) unfolding w by (rule subsetSum_Some [OF _ pos small_no_wrap [OF r s t]])
  then have d: "\<bar>total (l # rest) - AmountMinor s\<bar> \<le> Tolerance r (AmountMinor s)"
    by (auto simp: subset_fits_def)
  have sub: "set rest \<subseteq> set pool" "distinct (map ID rest)" using subsetSum_set [OF many(1)] many(3) by blast+
  then have "\<forall>x \<in> set (l # rest). 0 < AmountMinor x" using pos l by (auto simp: small_leg_def)
  then have "MResidualMinor m = total (l # rest) - AmountMinor s"
    unfolding many(2) by (rule many_residual [OF s _ r d])
  moreover have "ID x \<noteq> ID l" if "x \<in> set rest" for x
    using many(6) [of x] sub(1) that by (auto simp: sibling_def)
  then have "distinct (map ID (l # rest))" using sub(2) by force
  then have "many_shape sha256 r ix l m s (l # rest)"
    unfolding many_shape_def using many(2,4,5,6) sub(1) by blast
  ultimately show ?thesis unfolding many_spec_def using fits d by (force simp: subset_fits_def)
qed

subsection \<open>The order of the tiers\<close>

lemma find_cases:
  fixes sha256 :: "string \<Rightarrow> string" and r l ex
  assumes ok: "ix_ok ix"
  obtains (exact) m where "matcher_find sha256 r l ix ex = Some m" "exact_spec sha256 r ix l m"
  | (ref) m where "matcher_find sha256 r l ix ex = Some m" "ref_spec sha256 r ix l m"
  | (rest) "\<And>c. partner r ix l c \<Longrightarrow> \<not> ref_fits r l c"
    "\<And>c. partner r ix l c \<Longrightarrow> TxnRef c = TxnRef l \<Longrightarrow> AmountMinor c \<noteq> AmountMinor l"
    "matcher_find sha256 r l ix ex =
       (case tier2AmountDate sha256 r l (inWindow r l (Candidates ix l)) ix ex of
          Some mt \<Rightarrow> Some mt | None \<Rightarrow> tier3 sha256 r l (inWindow r l (Candidates ix l)) ix)"
proof -
  let ?b = "inWindow r l (CandidatesByRef ix l)"
  consider m where "tier1 sha256 l ?b = Some m"
    | m where "tier1 sha256 l ?b = None" "tier2Ref sha256 r l ?b = Some m"
    | "tier1 sha256 l ?b = None" "tier2Ref sha256 r l ?b = None" by fastforce
  then show thesis
  proof cases
    case (1 m)
    then show thesis using tier1_Some [OF ok] by (intro exact [of m]) (simp_all add: matcher_find_def Let_def)
  next
    case (2 m)
    then show thesis using tier2Ref_Some [OF ok] by (intro ref [of m]) (simp_all add: matcher_find_def Let_def)
  next
    case 3
    show thesis
    proof (rule rest)
      show "partner r ix l c \<Longrightarrow> \<not> ref_fits r l c" for c using 3(2) tier2Ref_None [OF ok] by blast
      show "partner r ix l c \<Longrightarrow> TxnRef c = TxnRef l \<Longrightarrow> AmountMinor c \<noteq> AmountMinor l" for c
        using 3(1) tier1_None [OF ok] by blast
    qed (use 3 in \<open>simp add: matcher_find_def Let_def\<close>)
  qed
qed

lemma find_spec:
  assumes ok: "ix_ok ix" and r: "small_rules r" and l: "small_leg l"
    and small: "\<And>i c. Get ix i = Some c \<Longrightarrow> small_leg c"
    and f: "matcher_find sha256 r l ix ex = Some m"
  shows "exact_spec sha256 r ix l m \<or> ref_spec sha256 r ix l m \<or> amount_spec sha256 r ix ex l m \<or>
    many_spec sha256 r ix l m"
  using ok
proof (cases rule: find_cases [of ix sha256 r l ex])
  case rest
  have t1: "tier1 sha256 l (inWindow r l (CandidatesByRef ix l)) = None"
    using rest(2) tier1_None [OF ok] by blast
  show ?thesis
    using rest(3) f tier2AmountDate_Some [OF ok t1] tier3_spec [OF ok r l small]
    by (auto split: option.splits)
qed (use f in auto)

text \<open>Whatever the amounts: a match joins the new leg and open legs, each once.\<close>

definition legs_shape :: "Index \<Rightarrow> Leg \<Rightarrow> Match \<Rightarrow> bool" where
  "legs_shape ix l m \<longleftrightarrow>
     (\<exists>ids. mset (MLegIDs m) = mset (ID l # ids) \<and> distinct ids \<and> ids \<noteq> [] \<and> ID l \<notin> set ids \<and>
        (\<forall>i \<in> set ids. \<exists>c. Get ix i = Some c \<and> Key c = Key l))"

lemma pair_shape:
  "partner r ix l c \<Longrightarrow> Get ix (ID l) = None \<Longrightarrow> legs_shape ix l (pair sha256 l c tier rule conf)"
  unfolding legs_shape_def by (rule exI [of _ "[ID c]"]) (auto simp: pair_def Let_def partner_def)

lemma pair_spec_shape:
  assumes "Get ix (ID l) = None"
    and "exact_spec sha256 r ix l m \<or> ref_spec sha256 r ix l m \<or> amount_spec sha256 r ix ex l m"
  shows "legs_shape ix l m"
proof -
  have "\<exists>c tier rule conf. partner r ix l c \<and> m = pair sha256 l c tier rule conf"
    using assms(2) unfolding exact_spec_def ref_spec_def amount_spec_def by (elim disjE exE conjE) blast+
  then show ?thesis using pair_shape [OF _ assms(1)] by blast
qed

lemma many_legs_shape:
  assumes "distinct (map ID ls)" "ls \<noteq> []" "\<And>x. x \<in> set ls \<Longrightarrow> Get ix (ID x) = Some x \<and> Key x = Key l"
    "Get ix (ID l) = None" "mset (MLegIDs m) = mset (ID l # map ID ls)"
  shows "legs_shape ix l m"
  unfolding legs_shape_def using assms by (intro exI [of _ "map ID ls"]) force

lemma tier3_shape:
  assumes ok: "ix_ok ix" and new: "Get ix (ID l) = None"
    and t: "tier3 sha256 r l (inWindow r l (Candidates ix l)) ix = Some m"
  shows "legs_shape ix l m"
  using ok t
proof (cases rule: tier3_Some)
  case (one src sub pool)
  have "sub \<noteq> []" using subsetSum_subseq(2) [OF one(1)] by auto
  moreover have "set sub \<subseteq> set pool" "distinct (map ID sub)"
    using subsetSum_set [OF one(1)] one(3) by blast+
  moreover have "mset (MLegIDs m) = mset (ID l # map ID sub)" by (simp add: one(2) many_def Let_def)
  ultimately show ?thesis
    using one(4) by (intro many_legs_shape [of sub]) (auto simp: partner_def new)
next
  case (many s rest pool)
  have sub: "set rest \<subseteq> set pool" "distinct (map ID rest)"
    using subsetSum_set [OF many(1)] many(3) by blast+
  have s: "Get ix (ID s) = Some s" "Key s = Key l" "Source s \<noteq> Source l"
    using many(4) by (simp_all add: partner_def)
  have rest: "Get ix (ID x) = Some x \<and> Key x = Key l \<and> Source x = Source l" if "x \<in> set rest" for x
    using that sub(1) many(6) [of x] by (auto simp: sibling_def)
  then have "ID s \<notin> set (map ID rest)" using s by auto
  then have "distinct (map ID (s # rest))" using sub(2) by simp
  then show ?thesis
    using s rest new by (intro many_legs_shape [of "s # rest"]) (auto simp: many(2) many_def Let_def)
qed

lemma find_shape:
  assumes ok: "ix_ok ix" and new: "Get ix (ID l) = None"
    and f: "matcher_find sha256 r l ix ex = Some m"
  shows "legs_shape ix l m"
  using ok
proof (cases rule: find_cases [of ix sha256 r l ex])
  case rest
  have "tier1 sha256 l (inWindow r l (CandidatesByRef ix l)) = None"
    using rest(2) tier1_None [OF ok] by blast
  note amount = tier2AmountDate_Some [OF ok this]
  show ?thesis
  proof (cases "tier2AmountDate sha256 r l (inWindow r l (Candidates ix l)) ix ex")
    case None
    then show ?thesis using rest(3) f by (intro tier3_shape [OF ok new, of sha256 r]) simp
  next
    case (Some m')
    then have "amount_spec sha256 r ix ex l m" using rest(3) f amount by simp
    then show ?thesis using pair_spec_shape [OF new] by blast
  qed
next
  case (exact m')
  then show ?thesis using f pair_spec_shape [OF new] by auto
next
  case (ref m')
  then show ?thesis using f pair_spec_shape [OF new] by auto
qed

text \<open>The matcher reads the index through its lookups only.\<close>

lemma find_lookup:
  assumes "ix_ok ix" "ix_ok ix'" "Get ix = Get ix'"
  shows "matcher_find sha256 r l ix ex = matcher_find sha256 r l ix' ex"
proof -
  have q: "query ix P = query ix' P" for P by (rule query_lookup [OF assms])
  have c: "Candidates ix l = Candidates ix' l" "CandidatesByRef ix l = CandidatesByRef ix' l"
    "SameSourceInWindow ix l = SameSourceInWindow ix' l" "ByBatch ix l b = ByBatch ix' l b"
    "RefLegs ix b = RefLegs ix' b" for b
    by (simp_all only: index_queries assms(1,2) q)
  show ?thesis
    unfolding matcher_find_def tier2AmountDate_def tier3_def tier3_pool_def tier3_settlements_def
      tier3_same_def c by (rule refl)
qed

text \<open>Tiers and rule names of the four kinds of matches.\<close>

lemma pair_rule [simp]: "MTier (pair sha256 l c t rule conf) = t" "MRuleID (pair sha256 l c t rule conf) = rule"
  by (simp_all add: pair_def Let_def)

lemma many_rule [simp]: "MTier (many sha256 l c t rule tol) = t" "MRuleID (many sha256 l c t rule tol) = rule"
  by (simp_all add: many_def Let_def)

lemma spec_rules:
  "exact_spec sha256 r ix l m \<Longrightarrow> MTier m = TierExact \<and> MRuleID m = RuleT1Exact"
  "ref_spec sha256 r ix l m \<Longrightarrow> MTier m = TierTolerant \<and> MRuleID m = RuleT2Tolerant"
  "amount_spec sha256 r ix ex l m \<Longrightarrow> MTier m = TierTolerant \<and> MRuleID m = RuleT2AmountDate"
proof -
  assume "exact_spec sha256 r ix l m"
  then obtain c where "m = pair sha256 l c TierExact RuleT1Exact 1" unfolding exact_spec_def by blast
  then show "MTier m = TierExact \<and> MRuleID m = RuleT1Exact" by simp
next
  assume "ref_spec sha256 r ix l m"
  then obtain c conf where "m = pair sha256 l c TierTolerant RuleT2Tolerant conf" unfolding ref_spec_def by blast
  then show "MTier m = TierTolerant \<and> MRuleID m = RuleT2Tolerant" by simp
next
  assume "amount_spec sha256 r ix ex l m"
  then obtain c conf where "m = pair sha256 l c TierTolerant RuleT2AmountDate conf" unfolding amount_spec_def by blast
  then show "MTier m = TierTolerant \<and> MRuleID m = RuleT2AmountDate" by simp
qed

lemma tier3_tier:
  assumes "tier3 sha256 r l scan ix = Some m"
  shows "MTier m = TierManyToOne \<and> MRuleID m = RuleT3Subset"
proof -
  let ?by = "groupBySource (tier3_pool r l scan ix)"
  consider "tier3_one sha256 r l ?by (sortedKeys ?by) = Some m"
    | "tier3_many sha256 r l (tier3_same r l ix) (tier3_settlements r l scan ix) = Some m"
    using assms by (auto simp: tier3_def Let_def split: option.splits if_splits)
  then show ?thesis
  proof cases
    case 1
    from tier3_one_Some [OF this] show ?thesis by auto
  next
    case 2
    from tier3_many_Some [OF this] show ?thesis by auto
  qed
qed

lemma find_exact_iff:
  assumes ok: "ix_ok ix"
  shows "(\<exists>m. matcher_find sha256 r l ix ex = Some m \<and> MTier m = TierExact) \<longleftrightarrow>
    (\<exists>c. partner r ix l c \<and> TxnRef c = TxnRef l \<and> AmountMinor c = AmountMinor l)"
  using ok
proof (cases rule: find_cases [of ix sha256 r l ex])
  case (exact m)
  then show ?thesis using spec_rules(1) [OF exact(2)] by (auto simp: exact_spec_def)
next
  case (ref m)
  have "tier1 sha256 l (inWindow r l (CandidatesByRef ix l)) = None"
  proof (rule ccontr)
    assume "\<not> ?thesis"
    then obtain m' where t1: "tier1 sha256 l (inWindow r l (CandidatesByRef ix l)) = Some m'" by auto
    then have "m' = m" using ref(1) by (simp add: matcher_find_def Let_def)
    then show False using spec_rules(1) [OF tier1_Some [OF ok t1]] spec_rules(2) [OF ref(2)] by simp
  qed
  then have "\<not> (\<exists>c. partner r ix l c \<and> TxnRef c = TxnRef l \<and> AmountMinor c = AmountMinor l)"
    using tier1_None [OF ok] by blast
  then show ?thesis using ref(1) spec_rules(2) [OF ref(2)] by auto
next
  case rest
  have t1: "tier1 sha256 l (inWindow r l (CandidatesByRef ix l)) = None"
    using rest(2) tier1_None [OF ok] by blast
  have "MTier m \<noteq> TierExact" if "matcher_find sha256 r l ix ex = Some m" for m
    using that rest(3) spec_rules(3) [OF tier2AmountDate_Some [OF ok t1]] tier3_tier
    by (auto split: option.splits)
  then show ?thesis using rest(2) by auto
qed

text \<open>A leg of the bank and two open legs of a rail, for the concrete instances.\<close>

definition demo_leg :: Leg where
  "demo_leg = plain_leg ''bank'' ''R1'' 60 ''VISA'' []\<lparr>ID := ''s''\<rparr>"

definition demo_index :: Index where
  "demo_index =
     Add (Add (NewIndex 60) (plain_leg ''rail'' ''R1'' 60 ''VISA'' [(''batch_ref'', ''B1'')]\<lparr>ID := ''a''\<rparr>))
       (plain_leg ''rail'' ''R2'' 40 ''VISA'' [(''batch_ref'', ''B1'')]\<lparr>ID := ''b''\<rparr>)"

definition demo_open :: Leg where
  "demo_open = plain_leg ''rail'' ''R1'' 60 ''VISA'' [(''batch_ref'', ''B1'')]\<lparr>ID := ''a''\<rparr>"

lemma demo_facts:
  "ix_ok demo_index" "small_rules DefaultRules" "small_leg demo_leg"
  "Get demo_index (ID demo_leg) = None" "\<forall>i c. Get demo_index i = Some c \<longrightarrow> small_leg c"
proof -
  show "ix_ok demo_index" by (simp add: demo_index_def ix_ok_Add)
  show "small_rules DefaultRules" "small_leg demo_leg" by code_simp+
  show "Get demo_index (ID demo_leg) = None" by code_simp
  show "\<forall>i c. Get demo_index i = Some c \<longrightarrow> small_leg c"
    by (simp add: demo_index_def Get_Add) (simp add: plain_leg_def small_leg_def)
qed

lemma demo_partner: "partner DefaultRules demo_index demo_leg demo_open"
  by code_simp

lemma demo_find:
  "matcher_find sha256 DefaultRules demo_leg demo_index None =
     Some (pair sha256 demo_leg demo_open TierExact RuleT1Exact 1)"
proof -
  have "CandidatesByRef demo_index demo_leg = [demo_open]" by code_simp
  moreover have "TxnRef demo_open = TxnRef demo_leg" "AmountMinor demo_open = AmountMinor demo_leg" by code_simp+
  moreover have "WithinDateWindow DefaultRules (ValueDate demo_open) (ValueDate demo_leg)"
    using demo_partner by (simp add: partner_def)
  ultimately show ?thesis by (simp add: matcher_find_def Let_def inWindow_def tier1_def)
qed

subsection \<open>Properties\<close>

text \<open>
  C11: every match the matcher proposes is one of four kinds. Exact: an open leg of another source in the
  same window and date range with the same reference and amount. Tolerant: the same with an amount
  within tolerance, the nearest one. By amount and date: no shared reference, the same amount, the only
  such candidate, no rival leg of the same source, and neither reference known on the other side.
  Many-to-one: an anchor and two to \<open>T3MaxSubset\<close> legs of one other source, whose sum differs from the
  anchor by at most its tolerance, the recorded residual being that difference.
\<close>

theorem matcher_sound:
  assumes "ix_ok ix" and "small_rules r" and "small_leg l" and "\<forall>i c. Get ix i = Some c \<longrightarrow> small_leg c"
    and "matcher_find sha256 r l ix ex = Some m"
  shows "exact_spec sha256 r ix l m \<or> ref_spec sha256 r ix l m \<or> amount_spec sha256 r ix ex l m \<or>
    many_spec sha256 r ix l m"
  using assms(4) by (intro find_spec [OF assms(1-3) _ assms(5)]) blast

theorem matcher_sound_witness:
  "\<exists>m. matcher_find (\<lambda>_. ''h'') DefaultRules demo_leg demo_index None = Some m \<and>
     (exact_spec (\<lambda>_. ''h'') DefaultRules demo_index demo_leg m \<or>
      ref_spec (\<lambda>_. ''h'') DefaultRules demo_index demo_leg m \<or>
      amount_spec (\<lambda>_. ''h'') DefaultRules demo_index None demo_leg m \<or>
      many_spec (\<lambda>_. ''h'') DefaultRules demo_index demo_leg m)"
proof -
  obtain m where m: "matcher_find (\<lambda>_. ''h'') DefaultRules demo_leg demo_index None = Some m"
    using demo_find by blast
  show ?thesis using m matcher_sound [OF demo_facts(1-3,5) m] by blast
qed

text \<open>
  C13: the tiers never compete. A match of tier one is found exactly when an exact candidate is open, and
  if any candidate with the same reference is within tolerance, the match found has that reference.
\<close>

theorem tier_order:
  assumes "ix_ok ix"
  shows "((\<exists>m. matcher_find sha256 r l ix ex = Some m \<and> MTier m = TierExact) \<longleftrightarrow>
      (\<exists>c. partner r ix l c \<and> TxnRef c = TxnRef l \<and> AmountMinor c = AmountMinor l)) \<and>
    ((\<exists>c. partner r ix l c \<and> ref_fits r l c) \<longrightarrow>
      (\<exists>m. matcher_find sha256 r l ix ex = Some m \<and> (exact_spec sha256 r ix l m \<or> ref_spec sha256 r ix l m)))"
proof
  show "(\<exists>m. matcher_find sha256 r l ix ex = Some m \<and> MTier m = TierExact) \<longleftrightarrow>
      (\<exists>c. partner r ix l c \<and> TxnRef c = TxnRef l \<and> AmountMinor c = AmountMinor l)"
    by (rule find_exact_iff [OF assms])
  show "(\<exists>c. partner r ix l c \<and> ref_fits r l c) \<longrightarrow>
      (\<exists>m. matcher_find sha256 r l ix ex = Some m \<and> (exact_spec sha256 r ix l m \<or> ref_spec sha256 r ix l m))"
    using assms by (cases rule: find_cases [of ix sha256 r l ex]) blast+
qed

theorem tier_order_witness:
  "\<exists>m. matcher_find (\<lambda>_. ''h'') DefaultRules demo_leg demo_index None = Some m \<and> MTier m = TierExact"
proof -
  have "TxnRef demo_open = TxnRef demo_leg" "AmountMinor demo_open = AmountMinor demo_leg" by code_simp+
  then show ?thesis using tier_order [OF demo_facts(1)] demo_partner by blast
qed

text \<open>
  a match joins legs that can be joined: the new leg and at least one open leg of its window, each
  identifier once, whatever the amounts are; no other leg is touched.
\<close>

theorem match_legs:
  assumes "ix_ok ix" and "Get ix (ID l) = None" and "matcher_find sha256 r l ix ex = Some m"
  shows "ID l \<in> set (MLegIDs m) \<and> distinct (MLegIDs m) \<and> 2 \<le> length (MLegIDs m) \<and>
    (\<forall>i \<in> set (MLegIDs m) - {ID l}. \<exists>c. Get ix i = Some c \<and> Key c = Key l)"
proof -
  obtain ids where ids: "mset (MLegIDs m) = mset (ID l # ids)" "distinct ids" "ids \<noteq> []" "ID l \<notin> set ids"
    "\<forall>i \<in> set ids. \<exists>c. Get ix i = Some c \<and> Key c = Key l"
    using find_shape [OF assms] unfolding legs_shape_def by blast
  have "set (MLegIDs m) = set (ID l # ids)" using ids(1) by (rule mset_eq_setD)
  moreover have "distinct (MLegIDs m)" using ids(1,2,4) by (metis distinct.simps(2) mset_eq_imp_distinct_iff)
  moreover have "length (MLegIDs m) = Suc (length ids)" using mset_eq_length [OF ids(1)] by simp
  moreover have "1 \<le> length ids" using ids(3) by (simp add: Suc_le_eq)
  ultimately show ?thesis using ids(5) by auto
qed

theorem match_legs_witness:
  "case matcher_find (\<lambda>_. ''h'') DefaultRules demo_leg demo_index None of
     None \<Rightarrow> False
   | Some m \<Rightarrow> ''s'' \<in> set (MLegIDs m) \<and> distinct (MLegIDs m) \<and> 2 \<le> length (MLegIDs m)"
proof -
  obtain m where m: "matcher_find (\<lambda>_. ''h'') DefaultRules demo_leg demo_index None = Some m"
    using demo_find by blast
  have "ID demo_leg = ''s''" by (simp add: demo_leg_def)
  then show ?thesis using match_legs [OF demo_facts(1,4) m] unfolding m by simp
qed

text \<open>
  C14: matching is deterministic: the answer depends on the set of open legs, not on the order in which
  they arrived or in which a Go map lists them.
\<close>

theorem matcher_deterministic:
  assumes "ix_ok ix" and "ix_ok ix'" and "Get ix = Get ix'"
  shows "matcher_find sha256 r l ix ex = matcher_find sha256 r l ix' ex"
  by (rule find_lookup [OF assms])

theorem matcher_deterministic_witness:
  "matcher_find (\<lambda>_. ''h'') DefaultRules demo_leg demo_index None =
   matcher_find (\<lambda>_. ''h'') DefaultRules demo_leg (Add (Remove demo_index [''a''])
     (plain_leg ''rail'' ''R1'' 60 ''VISA'' [(''batch_ref'', ''B1'')]\<lparr>ID := ''a''\<rparr>)) None"
proof (rule matcher_deterministic [OF demo_facts(1)])
  show "ix_ok (Add (Remove demo_index [''a'']) (plain_leg ''rail'' ''R1'' 60 ''VISA''
      [(''batch_ref'', ''B1'')]\<lparr>ID := ''a''\<rparr>))"
    by (simp add: ix_ok_Add ix_ok_Remove demo_facts)
  show "Get demo_index = Get (Add (Remove demo_index [''a'']) (plain_leg ''rail'' ''R1'' 60 ''VISA''
      [(''batch_ref'', ''B1'')]\<lparr>ID := ''a''\<rparr>))"
    by (auto simp: Get_Add Get_Remove demo_index_def fun_eq_iff)
qed

end
