(* ===== verification/Recon_Repository.thy ===== *)
theory Recon_Repository
  imports Recon_Types
begin

text \<open>
  The store behind the engine: the \<open>Repository\<close> interface of \<open>internal/domain/recon/engine.go\<close> as a
  record of operations on a state \<open>'s\<close>, and the contract that \<open>internal/ports/store.go\<close> states for it, as
  the locale \<open>repository\<close>. A read does not change the store; it may fail. A write either lands as a
  whole or leaves the store as it was.

  The contract speaks of the projections \<open>Proj\<close> that a store keeps: legs, matches and breaks by
  identifier, and the event log.
\<close>

record 's Repository =
  repo_Apply :: "'s \<Rightarrow> ChangeSet \<Rightarrow> goerr option \<times> 's"
  repo_HasLeg :: "'s \<Rightarrow> string \<Rightarrow> bool result"
  repo_LegsByTxnRef :: "'s \<Rightarrow> string \<Rightarrow> Leg list result"
  repo_OpenLegs :: "'s \<Rightarrow> Leg list result"
  repo_GetBreak :: "'s \<Rightarrow> string \<Rightarrow> Break result"
  repo_EventsFrom :: "'s \<Rightarrow> int \<Rightarrow> int \<Rightarrow> Event list result"
  repo_LastSeq :: "'s \<Rightarrow> int result"
  repo_ResetProjections :: "'s \<Rightarrow> goerr option \<times> 's"

record Proj =
  p_legs :: "string \<rightharpoonup> Leg"
  p_matches :: "string \<rightharpoonup> Match"
  p_breaks :: "string \<rightharpoonup> Break"
  p_events :: "Event list"

definition upsert :: "('a \<Rightarrow> string) \<Rightarrow> 'a list \<Rightarrow> (string \<rightharpoonup> 'a) \<Rightarrow> (string \<rightharpoonup> 'a)" where
  "upsert key xs m = fold (\<lambda>x m. m(key x \<mapsto> x)) xs m"

definition number_events :: "nat \<Rightarrow> Event list \<Rightarrow> Event list" where
  "number_events n evs = map (\<lambda>(i, ev). ev\<lparr>Seq := int i + 1\<rparr>) (enumerate n evs)"

definition apply_spec :: "ChangeSet \<Rightarrow> Proj \<Rightarrow> Proj" where
  "apply_spec cs p =
     \<lparr>p_legs = upsert ID (csLegs cs) (p_legs p), p_matches = upsert MID (csMatches cs) (p_matches p),
      p_breaks = upsert BID (csBreaks cs) (p_breaks p),
      p_events = p_events p @ number_events (length (p_events p)) (csEvents cs)\<rparr>"

definition reset_spec :: "Proj \<Rightarrow> Proj" where
  "reset_spec p = \<lparr>p_legs = Map.empty, p_matches = Map.empty, p_breaks = Map.empty, p_events = p_events p\<rparr>"

text \<open>
  A change set that keeps what the store indexes by: it names every leg once and changes no reference
  of a stored leg.
\<close>

definition keeps_refs :: "ChangeSet \<Rightarrow> Proj \<Rightarrow> bool" where
  "keeps_refs cs p \<longleftrightarrow>
     distinct (map ID (csLegs cs)) \<and>
     (\<forall>l \<in> set (csLegs cs). \<forall>l'. p_legs p (ID l) = Some l' \<longrightarrow> TxnRef l' = TxnRef l)"

text \<open>
  Of a leg that is stored already, the engine changes the status and the references to a match and a break, nothing else; a store may rely on it.
\<close>

definition leg_update :: "Leg \<Rightarrow> Leg \<Rightarrow> Leg" where
  "leg_update l old = old\<lparr>Status := Status l, MatchID := MatchID l, BreakID := BreakID l\<rparr>"

definition updates_legs :: "ChangeSet \<Rightarrow> Proj \<Rightarrow> bool" where
  "updates_legs cs p \<longleftrightarrow>
     distinct (map ID (csLegs cs)) \<and> (\<forall>l \<in> set (csLegs cs). \<forall>old. p_legs p (ID l) = Some old \<longrightarrow> l = leg_update l old)"

definition open_legs :: "Proj \<Rightarrow> string \<rightharpoonup> Leg" where
  "open_legs p i = (case p_legs p i of None \<Rightarrow> None | Some l \<Rightarrow> if Status l = LegOpen then Some l else None)"

locale repository =
  fixes repo :: "'s Repository"
    and proj :: "'s \<Rightarrow> Proj"
    and good :: "'s \<Rightarrow> bool"
  assumes good_ids: "good s \<Longrightarrow> p_legs (proj s) i = Some l \<Longrightarrow> ID l = i"
    and good_break_ids: "good s \<Longrightarrow> p_breaks (proj s) i = Some b \<Longrightarrow> BID b = i"
    and apply_ok: "good s \<Longrightarrow> updates_legs cs (proj s) \<Longrightarrow> repo_Apply repo s cs = (None, s') \<Longrightarrow>
      good s' \<and> proj s' = apply_spec cs (proj s)"
    and apply_err: "good s \<Longrightarrow> updates_legs cs (proj s) \<Longrightarrow> repo_Apply repo s cs = (Some err, s') \<Longrightarrow>
      good s' \<and> proj s' = proj s"
    and has_leg: "good s \<Longrightarrow> repo_HasLeg repo s i = Inr seen \<Longrightarrow> seen \<longleftrightarrow> p_legs (proj s) i \<noteq> None"
    and legs_by_ref: "good s \<Longrightarrow> repo_LegsByTxnRef repo s ref = Inr ls \<Longrightarrow>
      set ls = {l. \<exists>i. p_legs (proj s) i = Some l \<and> TxnRef l = ref}"
    and open_legs_law: "good s \<Longrightarrow> repo_OpenLegs repo s = Inr ls \<Longrightarrow>
      distinct (map ID ls) \<and> set ls = ran (open_legs (proj s))"
    and get_break: "good s \<Longrightarrow> repo_GetBreak repo s i = Inr b \<Longrightarrow> p_breaks (proj s) i = Some b"
    and events_from: "good s \<Longrightarrow> 1 \<le> from \<Longrightarrow> 0 < limit \<Longrightarrow> repo_EventsFrom repo s from limit = Inr evs \<Longrightarrow>
      evs = take (nat limit) (drop (nat (from - 1)) (p_events (proj s)))"
    and last_seq: "good s \<Longrightarrow> repo_LastSeq repo s = Inr n \<Longrightarrow> n = int (length (p_events (proj s)))"
    and event_seqs: "good s \<Longrightarrow> k < length (p_events (proj s)) \<Longrightarrow> Seq (p_events (proj s) ! k) = int k + 1"
    and reset_ok: "good s \<Longrightarrow> repo_ResetProjections repo s = (None, s') \<Longrightarrow>
      good s' \<and> proj s' = reset_spec (proj s)"
    and reset_err: "good s \<Longrightarrow> repo_ResetProjections repo s = (Some err, s') \<Longrightarrow>
      good s' \<and> proj s' = proj s"

text \<open>A repository whose calls do not fail, but for a lookup that finds nothing.\<close>

locale reliable_repository = repository +
  assumes apply_total: "fst (repo_Apply repo s cs) = None"
    and has_leg_total: "\<exists>seen. repo_HasLeg repo s i = Inr seen"
    and legs_by_ref_total: "\<exists>ls. repo_LegsByTxnRef repo s ref = Inr ls"
    and open_legs_total: "\<exists>ls. repo_OpenLegs repo s = Inr ls"
    and get_break_total: "good s \<Longrightarrow> p_breaks (proj s) i = Some b \<Longrightarrow> repo_GetBreak repo s i = Inr b"
    and events_from_total: "\<exists>evs. repo_EventsFrom repo s from limit = Inr evs"
    and last_seq_total: "\<exists>n. repo_LastSeq repo s = Inr n"
    and reset_total: "fst (repo_ResetProjections repo s) = None"

subsection \<open>Facts\<close>

lemma leg_update_ref: "l = leg_update l old \<Longrightarrow> TxnRef old = TxnRef l"
  by (erule ssubst) (simp add: leg_update_def)

lemma updates_keep_refs: "updates_legs cs p \<Longrightarrow> keeps_refs cs p"
  unfolding updates_legs_def keeps_refs_def using leg_update_ref by blast

lemma open_legs_Some: "open_legs p i = Some l \<longleftrightarrow> p_legs p i = Some l \<and> Status l = LegOpen"
  by (auto simp: open_legs_def split: option.splits)

lemma upsert_Nil [simp]: "upsert key [] m = m"
  by (simp add: upsert_def)

lemma upsert_Cons [simp]: "upsert key (x # xs) m = upsert key xs (m(key x \<mapsto> x))"
  by (simp add: upsert_def)

lemma upsert_append: "upsert key (xs @ ys) m = upsert key ys (upsert key xs m)"
  by (simp add: upsert_def)

lemma upsert_lookup_notin: "i \<notin> key ` set xs \<Longrightarrow> upsert key xs m i = m i"
  by (induction xs arbitrary: m) auto

lemma upsert_lookup:
  "distinct (map key xs) \<Longrightarrow> x \<in> set xs \<Longrightarrow> upsert key xs m (key x) = Some x"
proof (induction xs arbitrary: m)
  case (Cons y xs)
  then show ?case by (cases "x = y") (auto simp: upsert_lookup_notin)
qed simp

lemma upsert_cases:
  assumes "distinct (map key xs)" "upsert key xs m i = Some x"
  shows "x \<in> set xs \<and> key x = i \<or> i \<notin> key ` set xs \<and> m i = Some x"
proof (cases "i \<in> key ` set xs")
  case True
  then obtain y where "y \<in> set xs" "i = key y" by auto
  then show ?thesis using upsert_lookup [OF assms(1), of y m] assms(2) by auto
next
  case False
  then show ?thesis using assms(2) by (simp add: upsert_lookup_notin)
qed

lemma length_number_events [simp]: "length (number_events n evs) = length evs"
  by (simp add: number_events_def)

lemma number_events_nth: "k < length evs \<Longrightarrow> number_events n evs ! k = (evs ! k)\<lparr>Seq := int (n + k) + 1\<rparr>"
  by (simp add: number_events_def nth_enumerate_eq)

lemma number_events_Nil [simp]: "number_events n [] = []"
  by (simp add: number_events_def)

lemma apply_spec_simps [simp]:
  "p_legs (apply_spec cs p) = upsert ID (csLegs cs) (p_legs p)"
  "p_matches (apply_spec cs p) = upsert MID (csMatches cs) (p_matches p)"
  "p_breaks (apply_spec cs p) = upsert BID (csBreaks cs) (p_breaks p)"
  "p_events (apply_spec cs p) = p_events p @ number_events (length (p_events p)) (csEvents cs)"
  by (simp_all add: apply_spec_def)

lemma open_legs_apply_other: "i \<notin> ID ` set (csLegs cs) \<Longrightarrow> open_legs (apply_spec cs p) i = open_legs p i"
  by (simp add: open_legs_def upsert_lookup_notin)

lemma open_legs_apply_leg:
  "distinct (map ID (csLegs cs)) \<Longrightarrow> l \<in> set (csLegs cs) \<Longrightarrow>
     open_legs (apply_spec cs p) (ID l) = (if Status l = LegOpen then Some l else None)"
  using upsert_lookup [of ID "csLegs cs" l "p_legs p"] by (simp add: open_legs_def)

end
