(* ===== verification/Recon_Engine.thy ===== *)
theory Recon_Engine
  imports Recon_Matcher Recon_Repository
begin

text \<open>
  The engine (\<open>internal/domain/recon/engine.go\<close>): ingestion, expiry, break resolution and replay, over any
  repository. Its state holds the index, the store behind the repository, the clock as the sequence of
  instants it returns with the number of calls so far, and the calls made to the hooks. The mutex is
  held for the whole of every operation, so that operations are atomic with respect to each other.

  A context is the sequence of answers of \<open>ctx.Err()\<close>; a call that returns a value and an error
  returns both here too where the code does.
\<close>

subsection \<open>State\<close>

abbreviation (input) OutcomeDuplicate :: string where "OutcomeDuplicate \<equiv> ''duplicate''"
abbreviation (input) OutcomeMatched :: string where "OutcomeMatched \<equiv> ''matched''"
abbreviation (input) OutcomeBreak :: string where "OutcomeBreak \<equiv> ''break''"
abbreviation (input) OutcomeOpen :: string where "OutcomeOpen \<equiv> ''open''"
abbreviation (input) OutcomeResolvedBreak :: string where "OutcomeResolvedBreak \<equiv> ''resolved_break''"

record IngestResult =
  r_LegID :: string
  r_Outcome :: string
  r_MatchID :: string
  r_BreakID :: string
  r_RuleID :: string

record BatchResult =
  Accepted :: nat
  Duplicates :: nat
  Matched :: nat
  Breaks :: nat
  Open :: nat
  Results :: "IngestResult list"

record Hooks =
  hasOnLeg :: bool
  hasOnMatch :: bool
  hasOnBreak :: bool
  hasOnOpen :: bool

datatype HookCall = OnLeg Leg string | OnMatch Match | OnBreak Break | OnOpen nat

type_synonym Context = "nat \<Rightarrow> goerr option"

record 's Engine =
  eng_rules :: Rules
  eng_ix :: Index
  eng_repo :: "'s Repository"
  eng_clf :: "ClassifyInput \<Rightarrow> Classification"
  eng_clock :: "nat \<Rightarrow> Time"
  eng_hooks :: Hooks
  eng_replaying :: bool
  eng_store :: 's
  eng_ticks :: nat
  eng_calls :: "HookCall list"

definition NewEngine ::
    "'s Repository option \<Rightarrow> (ClassifyInput \<Rightarrow> Classification) option \<Rightarrow> Rules \<Rightarrow> Duration \<Rightarrow> Hooks \<Rightarrow>
       (nat \<Rightarrow> Time) \<Rightarrow> 's \<Rightarrow> 's Engine result" where
  "NewEngine repo clf rules t hooks clock s =
     (case Rules_Validate rules of
        Some err \<Rightarrow> Inl (Errorf ''rules: '' err '''')
      | None \<Rightarrow>
          if t \<le> 0 then Inl (ErrText ''window ttl must be > 0'')
          else
            (case (repo, clf) of
               (Some repo, Some clf) \<Rightarrow>
                 Inr \<lparr>eng_rules = rules, eng_ix = NewIndex t, eng_repo = repo, eng_clf = clf, eng_clock = clock,
                      eng_hooks = hooks, eng_replaying = False, eng_store = s, eng_ticks = 0, eng_calls = []\<rparr>
             | _ \<Rightarrow> Inl (ErrText ''repository and classifier are required'')))"

subsection \<open>Effects\<close>

definition read_clock :: "'s Engine \<Rightarrow> Time \<times> 's Engine" where
  "read_clock e = (eng_clock e (eng_ticks e), e\<lparr>eng_ticks := eng_ticks e + 1\<rparr>)"

definition eng_apply :: "'s Engine \<Rightarrow> ChangeSet \<Rightarrow> goerr option \<times> 's Engine" where
  "eng_apply e cs = (case repo_Apply (eng_repo e) (eng_store e) cs of (err, s) \<Rightarrow> (err, e\<lparr>eng_store := s\<rparr>))"

definition call_hook :: "bool \<Rightarrow> HookCall \<Rightarrow> 's Engine \<Rightarrow> 's Engine" where
  "call_hook present c e = (if present then e\<lparr>eng_calls := eng_calls e @ [c]\<rparr> else e)"

definition fire :: "'s Engine \<Rightarrow> Leg \<Rightarrow> string \<Rightarrow> 's Engine" where
  "fire e l o' = call_hook (hasOnLeg (eng_hooks e)) (OnLeg l o') e"

definition fireMatch :: "'s Engine \<Rightarrow> Match \<Rightarrow> 's Engine" where
  "fireMatch e m = call_hook (hasOnMatch (eng_hooks e)) (OnMatch m) e"

definition fireBreak :: "'s Engine \<Rightarrow> Break \<Rightarrow> 's Engine" where
  "fireBreak e b = call_hook (hasOnBreak (eng_hooks e)) (OnBreak b) e"

definition notifyOpen :: "'s Engine \<Rightarrow> 's Engine" where
  "notifyOpen e = call_hook (hasOnOpen (eng_hooks e)) (OnOpen (Len (eng_ix e))) e"

definition eng_OpenLegs :: "'s Engine \<Rightarrow> nat" where
  "eng_OpenLegs e = Len (eng_ix e)"

definition Rebuild :: "'s Engine \<Rightarrow> goerr option \<times> 's Engine" where
  "Rebuild e =
     (case repo_OpenLegs (eng_repo e) (eng_store e) of
        Inl err \<Rightarrow> (Some (Errorf ''load open legs: '' err ''''), e)
      | Inr legs \<Rightarrow> (None, notifyOpen (e\<lparr>eng_ix := foldl Add (NewIndex (ttl (eng_ix e))) legs\<rparr>)))"

subsection \<open>Ingesting one leg\<close>

definition ingest_result :: "string \<Rightarrow> string \<Rightarrow> string \<Rightarrow> string \<Rightarrow> string \<Rightarrow> IngestResult" where
  "ingest_result i o' m b rule =
     \<lparr>r_LegID = i, r_Outcome = o', r_MatchID = m, r_BreakID = b, r_RuleID = rule\<rparr>"

definition mark_broken :: "string \<Rightarrow> Leg \<Rightarrow> Leg" where
  "mark_broken b l = l\<lparr>Status := LegBroken, BreakID := b\<rparr>"

definition mark_matched :: "string \<Rightarrow> Leg \<Rightarrow> Leg" where
  "mark_matched m l = l\<lparr>Status := LegMatched, MatchID := m\<rparr>"

definition openBreak ::
    "(string \<Rightarrow> string) \<Rightarrow> 's Engine \<Rightarrow> ChangeSet \<Rightarrow> Time \<Rightarrow> string \<Rightarrow> Leg list \<Rightarrow> Leg list \<Rightarrow> (Break \<times> ChangeSet) result" where
  "openBreak sha256 e cs now trigger related legs =
     (let c = eng_clf e \<lparr>in_Legs = legs, in_Related = related, in_Trigger = trigger, in_Rules = eng_rules e\<rparr>;
          ids = map ID legs;
          b = \<lparr>BID = DeriveID sha256 ''brk'' ids, BLegIDs = ids, BCurrency = Currency (hd legs),
               BCounterparty = Counterparty (hd legs), BCategory = c_Category c, BConfidence = c_Confidence c,
               BClassifierID = c_ClassifierID c, BTrigger = trigger, BStatus = BreakOpen, OpenedAt = now,
               ResolvedAt = None, BReason = c_Evidence c, BActor = '''', AgeSeconds = 0\<rparr>;
          cs = cs\<lparr>csLegs := csLegs cs @ map (mark_broken (BID b)) legs, csBreaks := csBreaks cs @ [b]\<rparr>
      in case addEvent cs EvBreakOpened now (BID b) (PBreak b) of
           Inl err \<Rightarrow> Inl err
         | Inr cs \<Rightarrow> Inr (b, cs))"

definition commit :: "'s Engine \<Rightarrow> ChangeSet \<Rightarrow> Leg \<Rightarrow> IngestResult \<Rightarrow> IngestResult result \<times> 's Engine" where
  "commit e cs l r =
     (case eng_apply e cs of
        (Some err, e) \<Rightarrow> (Inl err, e)
      | (None, e) \<Rightarrow>
          let e = fire e l (r_Outcome r);
              e = (if csBreaks cs \<noteq> [] then fireBreak e (last (csBreaks cs)) else e)
          in (Inr r, e))"

definition ingest_duplicate :: "'s Engine \<Rightarrow> Time \<Rightarrow> Leg \<Rightarrow> IngestResult result \<times> 's Engine" where
  "ingest_duplicate e now l =
     (let r = ingest_result (ID l) OutcomeDuplicate '''' '''' '''' in
      if \<not> eng_replaying e
      then (case addEvent empty_cs EvLegDuplicate now (ID l) (PLeg l) of
              Inl err \<Rightarrow> (Inl err, e)
            | Inr cs \<Rightarrow>
                (case eng_apply e cs of
                   (Some err, e) \<Rightarrow> (Inl err, e)
                 | (None, e) \<Rightarrow> (Inr r, fire e l OutcomeDuplicate)))
      else (Inr r, fire e l OutcomeDuplicate))"

text \<open>A break of the new leg alone (steps 1 and 5).\<close>

definition ingest_break ::
    "(string \<Rightarrow> string) \<Rightarrow> 's Engine \<Rightarrow> ChangeSet \<Rightarrow> Time \<Rightarrow> string \<Rightarrow> Leg list \<Rightarrow> Leg \<Rightarrow> IngestResult result \<times> 's Engine" where
  "ingest_break sha256 e cs now trigger related l =
     (case openBreak sha256 e cs now trigger related [l] of
        Inl err \<Rightarrow> (Inl err, e)
      | Inr (b, cs) \<Rightarrow> commit e cs l (ingest_result (ID l) OutcomeBreak '''' (BID b) ''''))"

text \<open>Step 2: the new leg joins the match, then every partner found in the index.\<close>

definition match_legs_of :: "Index \<Rightarrow> Leg \<Rightarrow> Match \<Rightarrow> Leg list" where
  "match_legs_of ix l m =
     mark_matched (MID m) l #
     map (\<lambda>i. mark_matched (MID m) (case Get ix i of None \<Rightarrow> zero_leg | Some p \<Rightarrow> p))
       (filter (\<lambda>i. i \<noteq> ID l) (MLegIDs m))"

definition ingest_match :: "'s Engine \<Rightarrow> ChangeSet \<Rightarrow> Time \<Rightarrow> Leg \<Rightarrow> Match \<Rightarrow> IngestResult result \<times> 's Engine" where
  "ingest_match e cs now l m =
     (let m = m\<lparr>MatchedAt := now\<rparr>;
          cs = cs\<lparr>csLegs := csLegs cs @ match_legs_of (eng_ix e) l m, csMatches := csMatches cs @ [m]\<rparr> in
      case addEvent cs EvMatchCreated now (MID m) (PMatch m) of
        Inl err \<Rightarrow> (Inl err, e)
      | Inr cs \<Rightarrow>
          (case eng_apply e cs of
             (Some err, e) \<Rightarrow> (Inl err, e)
           | (None, e) \<Rightarrow>
               let e = e\<lparr>eng_ix := Remove (eng_ix e) (MLegIDs m)\<rparr>;
                   e = fireMatch (fire e (mark_matched (MID m) l) OutcomeMatched) m
               in (Inr (ingest_result (ID l) OutcomeMatched (MID m) '''' (MRuleID m)), e)))"

text \<open>Step 3: open legs with the same reference that did not match.\<close>

definition ingest_conflict ::
    "(string \<Rightarrow> string) \<Rightarrow> 's Engine \<Rightarrow> ChangeSet \<Rightarrow> Time \<Rightarrow> Leg list \<Rightarrow> Leg \<Rightarrow> Leg list \<Rightarrow> IngestResult result \<times> 's Engine" where
  "ingest_conflict sha256 e cs now related l partners =
     (case openBreak sha256 e cs now TriggerRefConflict related (l # partners) of
        Inl err \<Rightarrow> (Inl err, e)
      | Inr (b, cs) \<Rightarrow>
          (case eng_apply e cs of
             (Some err, e) \<Rightarrow> (Inl err, e)
           | (None, e) \<Rightarrow>
               let e = e\<lparr>eng_ix := fold (\<lambda>p ix. Remove ix [ID p]) partners (eng_ix e)\<rparr>;
                   e = fireBreak (fire e l OutcomeBreak) b
               in (Inr (ingest_result (ID l) OutcomeBreak '''' (BID b) ''''), e)))"

text \<open>Step 4: the first broken leg with this reference whose break the late leg can close.\<close>

fun late_candidate :: "'s Engine \<Rightarrow> Leg \<Rightarrow> Leg list \<Rightarrow> (Leg \<times> Break) option" where
  "late_candidate e l [] = None"
| "late_candidate e l (r # related) =
     (if Source r = Source l \<or> Status r \<noteq> LegBroken \<or> BreakID r = '''' then late_candidate e l related
      else if \<not> WithinTolerance (eng_rules e) (AmountMinor l) (AmountMinor r) \<or> Currency r \<noteq> Currency l
      then late_candidate e l related
      else
        (case repo_GetBreak (eng_repo e) (eng_store e) (BreakID r) of
           Inl _ \<Rightarrow> late_candidate e l related
         | Inr b \<Rightarrow>
             if BStatus b \<noteq> BreakOpen \<or> length (BLegIDs b) \<noteq> 1 then late_candidate e l related
             else Some (r, b)))"

definition ingest_late ::
    "(string \<Rightarrow> string) \<Rightarrow> 's Engine \<Rightarrow> ChangeSet \<Rightarrow> Time \<Rightarrow> Leg \<Rightarrow> Leg \<Rightarrow> Break \<Rightarrow> IngestResult result \<times> 's Engine" where
  "ingest_late sha256 e cs now l r b =
     (let conf = f64 (tolerantConfidence (i64 (AmountMinor r - AmountMinor l))
                        (Tolerance (eng_rules e) (AmountMinor l)) - f64 (5 / 100));
          m = (pair sha256 l r TierTolerant RuleT2Late conf)\<lparr>MatchedAt := now\<rparr>;
          l = mark_matched (MID m) l;
          r = (mark_matched (MID m) r)\<lparr>BreakID := ''''\<rparr>;
          b = b\<lparr>BStatus := BreakResolved, ResolvedAt := Some now,
                BReason := ''late arrival matched by '' @ RuleT2Late, BActor := ''system''\<rparr>;
          cs = cs\<lparr>csLegs := csLegs cs @ [l, r], csMatches := csMatches cs @ [m], csBreaks := csBreaks cs @ [b]\<rparr> in
      case addEvent cs EvMatchCreated now (MID m) (PMatch m) of
        Inl err \<Rightarrow> (Inl err, e)
      | Inr cs \<Rightarrow>
          (case addEvent cs EvBreakResolved now (BID b)
                  (PResolution \<lparr>rp_BreakID = BID b, rp_Reason = BReason b, rp_Actor = BActor b, rp_At = now,
                                rp_MatchID = MID m\<rparr>) of
             Inl err \<Rightarrow> (Inl err, e)
           | Inr cs \<Rightarrow>
               (case eng_apply e cs of
                  (Some err, e) \<Rightarrow> (Inl err, e)
                | (None, e) \<Rightarrow>
                    (Inr (ingest_result (ID l) OutcomeResolvedBreak (MID m) (BID b) (MRuleID m)),
                     fireMatch (fire e l OutcomeResolvedBreak) m))))"

text \<open>Step 6: the leg waits in the window.\<close>

definition ingest_wait :: "'s Engine \<Rightarrow> ChangeSet \<Rightarrow> Leg \<Rightarrow> IngestResult result \<times> 's Engine" where
  "ingest_wait e cs l =
     (let l = l\<lparr>Status := LegOpen\<rparr>; cs = cs\<lparr>csLegs := csLegs cs @ [l]\<rparr> in
      case eng_apply e cs of
        (Some err, e) \<Rightarrow> (Inl err, e)
      | (None, e) \<Rightarrow>
          (Inr (ingest_result (ID l) OutcomeOpen '''' '''' ''''),
           fire (e\<lparr>eng_ix := Add (eng_ix e) l\<rparr>) l OutcomeOpen))"

text \<open>The callback of the matcher: a store that cannot answer counts as knowing the reference.\<close>

definition ref_known :: "'s Engine \<Rightarrow> refExists" where
  "ref_known e txnRef source =
     (case repo_LegsByTxnRef (eng_repo e) (eng_store e) txnRef of
        Inl _ \<Rightarrow> True
      | Inr ls \<Rightarrow> (\<exists>x \<in> set ls. Source x = source))"

definition ingest_new ::
    "(string \<Rightarrow> string) \<Rightarrow> 's Engine \<Rightarrow> ChangeSet \<Rightarrow> Time \<Rightarrow> Leg list \<Rightarrow> Leg \<Rightarrow> IngestResult result \<times> 's Engine" where
  "ingest_new sha256 e cs now related l =
     (if \<exists>r \<in> set related. Source r = Source l \<and> ID r \<noteq> ID l
      then ingest_break sha256 e cs now TriggerDuplicate related l
      else
        (case matcher_find sha256 (eng_rules e) l (eng_ix e) (Some (ref_known e)) of
           Some m \<Rightarrow> ingest_match e cs now l m
         | None \<Rightarrow>
             let partners = ByRef (eng_ix e) l in
             if partners \<noteq> [] then ingest_conflict sha256 e cs now related l partners
             else
               (case late_candidate e l related of
                  Some (r, b) \<Rightarrow> ingest_late sha256 e cs now l r b
                | None \<Rightarrow>
                    if \<exists>r \<in> set related. Source r \<noteq> Source l
                    then ingest_break sha256 e cs now TriggerRefConflict related l
                    else ingest_wait e cs l)))"

definition ingestOne :: "(string \<Rightarrow> string) \<Rightarrow> 's Engine \<Rightarrow> Leg \<Rightarrow> IngestResult result \<times> 's Engine" where
  "ingestOne sha256 e l =
     (let (now, e) = read_clock e;
          l = (if IsZero (IngestedAt l) then l\<lparr>IngestedAt := now\<rparr> else l) in
      case repo_HasLeg (eng_repo e) (eng_store e) (ID l) of
        Inl err \<Rightarrow> (Inl (Errorf ''dedupe lookup: '' err ''''), e)
      | Inr seen \<Rightarrow>
          if seen then ingest_duplicate e now l
          else
            (case repo_LegsByTxnRef (eng_repo e) (eng_store e) (TxnRef l) of
               Inl err \<Rightarrow> (Inl (Errorf ''related lookup: '' err ''''), e)
             | Inr related \<Rightarrow>
                 (case (if eng_replaying e then Inr empty_cs
                        else addEvent empty_cs EvLegIngested now (ID l) (PLeg l)) of
                    Inl err \<Rightarrow> (Inl err, e)
                  | Inr cs \<Rightarrow> ingest_new sha256 e cs now related l)))"

subsection \<open>Ingesting a batch\<close>

definition zero_batch :: BatchResult where
  "zero_batch = \<lparr>Accepted = 0, Duplicates = 0, Matched = 0, Breaks = 0, Open = 0, Results = []\<rparr>"

fun validate_batch :: "(string \<Rightarrow> string) \<Rightarrow> nat \<Rightarrow> Leg list \<Rightarrow> Leg list result" where
  "validate_batch sha256 i [] = Inr []"
| "validate_batch sha256 i (l # legs) =
     (case Validate l of
        (l, Some err) \<Rightarrow>
          Inl (Errorf (''leg['' @ FormatInt (int i) @ ''] '' @ Source l @ ''/'' @ TxnRef l @ '': '') err '''')
      | (l, None) \<Rightarrow>
          (case validate_batch sha256 (i + 1) legs of
             Inl err \<Rightarrow> Inl err
           | Inr legs \<Rightarrow> Inr (AssignID sha256 l # legs)))"

definition count_result :: "IngestResult \<Rightarrow> BatchResult \<Rightarrow> BatchResult" where
  "count_result r res =
     (let res = res\<lparr>Results := Results res @ [r], Accepted := Accepted res + 1\<rparr> in
      if r_Outcome r = OutcomeDuplicate then res\<lparr>Duplicates := Duplicates res + 1\<rparr>
      else if r_Outcome r = OutcomeMatched \<or> r_Outcome r = OutcomeResolvedBreak
      then res\<lparr>Matched := Matched res + 1\<rparr>
      else if r_Outcome r = OutcomeBreak then res\<lparr>Breaks := Breaks res + 1\<rparr>
      else if r_Outcome r = OutcomeOpen then res\<lparr>Open := Open res + 1\<rparr>
      else res)"

fun ingest_loop ::
    "(string \<Rightarrow> string) \<Rightarrow> Context \<Rightarrow> nat \<Rightarrow> 's Engine \<Rightarrow> BatchResult \<Rightarrow> Leg list \<Rightarrow>
       BatchResult \<times> goerr option \<times> 's Engine" where
  "ingest_loop sha256 ctx i e res [] = (res, None, e)"
| "ingest_loop sha256 ctx i e res (l # legs) =
     (case ctx i of
        Some err \<Rightarrow> (res, Some err, e)
      | None \<Rightarrow>
          (case ingestOne sha256 e l of
             (Inl err, e) \<Rightarrow> (res, Some (Errorf (''ingest '' @ ID l @ '': '') err ''''), e)
           | (Inr r, e) \<Rightarrow> ingest_loop sha256 ctx (i + 1) e (count_result r res) legs))"

definition Ingest ::
    "(string \<Rightarrow> string) \<Rightarrow> Context \<Rightarrow> 's Engine \<Rightarrow> Leg list \<Rightarrow> BatchResult \<times> goerr option \<times> 's Engine" where
  "Ingest sha256 ctx e legs =
     (case validate_batch sha256 0 legs of
        Inl err \<Rightarrow> (zero_batch, Some err, e)
      | Inr legs \<Rightarrow>
          (case ingest_loop sha256 ctx 0 e zero_batch legs of
             (res, Some err, e) \<Rightarrow> (res, Some err, e)
           | (res, None, e) \<Rightarrow> (res, None, notifyOpen e)))"

subsection \<open>Expiry\<close>

fun expire_loop ::
    "(string \<Rightarrow> string) \<Rightarrow> Context \<Rightarrow> nat \<Rightarrow> 's Engine \<Rightarrow> Time \<Rightarrow> bool \<Rightarrow> nat \<Rightarrow> Leg list \<Rightarrow>
       nat \<times> goerr option \<times> 's Engine" where
  "expire_loop sha256 ctx i e now forced cnt [] = (cnt, None, e)"
| "expire_loop sha256 ctx i e now forced cnt (l # expired) =
     (case ctx i of
        Some err \<Rightarrow> (cnt, Some err, e)
      | None \<Rightarrow>
          if Get (eng_ix e) (ID l) = None then expire_loop sha256 ctx (i + 1) e now forced cnt expired
          else
            (case repo_LegsByTxnRef (eng_repo e) (eng_store e) (TxnRef l) of
               Inl err \<Rightarrow> (cnt, Some (Errorf ''related lookup: '' err ''''), e)
             | Inr related \<Rightarrow>
                 (case addEvent empty_cs EvLegExpired now (ID l) (PExpired (ID l) forced) of
                    Inl err \<Rightarrow> (cnt, Some err, e)
                  | Inr cs \<Rightarrow>
                      (case openBreak sha256 e cs now TriggerWindowExpired related [l] of
                         Inl err \<Rightarrow> (cnt, Some err, e)
                       | Inr (b, cs) \<Rightarrow>
                           (case eng_apply e cs of
                              (Some err, e) \<Rightarrow>
                                (cnt, Some (Errorf (''persist expiry of '' @ ID l @ '': '') err ''''), e)
                            | (None, e) \<Rightarrow>
                                expire_loop sha256 ctx (i + 1)
                                  (fireBreak (e\<lparr>eng_ix := Remove (eng_ix e) [ID l]\<rparr>) b) now forced (cnt + 1)
                                  expired)))))"

definition expire ::
    "(string \<Rightarrow> string) \<Rightarrow> Context \<Rightarrow> 's Engine \<Rightarrow> Duration \<Rightarrow> bool \<Rightarrow> nat \<times> goerr option \<times> 's Engine" where
  "expire sha256 ctx e olderThan forced =
     (let (now, e) = read_clock e; expired = Expired (eng_ix e) now olderThan in
      if expired = [] then (0, None, e)
      else
        (case expire_loop sha256 ctx 0 e now forced 0 expired of
           (cnt, Some err, e) \<Rightarrow> (cnt, Some err, e)
         | (cnt, None, e) \<Rightarrow>
             if forced
             then (case addEvent empty_cs EvWindowClosed now ''window'' (PClosed (int cnt) olderThan) of
                     Inl err \<Rightarrow> (cnt, Some err, e)
                   | Inr cs \<Rightarrow>
                       (case eng_apply e cs of
                          (Some err, e) \<Rightarrow> (cnt, Some err, e)
                        | (None, e) \<Rightarrow> (cnt, None, notifyOpen e)))
             else (cnt, None, notifyOpen e)))"

definition Sweep :: "(string \<Rightarrow> string) \<Rightarrow> Context \<Rightarrow> 's Engine \<Rightarrow> nat \<times> goerr option \<times> 's Engine" where
  "Sweep sha256 ctx e = expire sha256 ctx e (- 1) False"

definition CloseWindow ::
    "(string \<Rightarrow> string) \<Rightarrow> Context \<Rightarrow> 's Engine \<Rightarrow> Duration \<Rightarrow> nat \<times> goerr option \<times> 's Engine" where
  "CloseWindow sha256 ctx e olderThan =
     (let olderThan = (if olderThan < 0 then 0 else olderThan) in expire sha256 ctx e olderThan True)"

subsection \<open>Resolving a break\<close>

definition zero_break :: Break where
  "zero_break =
     \<lparr>BID = '''', BLegIDs = [], BCurrency = '''', BCounterparty = '''', BCategory = '''', BConfidence = 0,
      BClassifierID = '''', BTrigger = '''', BStatus = '''', OpenedAt = time_zero, ResolvedAt = None,
      BReason = '''', BActor = '''', AgeSeconds = 0\<rparr>"

definition ResolveBreak :: "'s Engine \<Rightarrow> string \<Rightarrow> string \<Rightarrow> string \<Rightarrow> Break \<times> goerr option \<times> 's Engine" where
  "ResolveBreak e i reason actor =
     (if reason = '''' \<or> actor = '''' then (zero_break, Some (ErrText ''reason and actor are required''), e)
      else
        (case repo_GetBreak (eng_repo e) (eng_store e) i of
           Inl err \<Rightarrow> (zero_break, Some err, e)
         | Inr b \<Rightarrow>
             if BStatus b = BreakResolved then (b, Some ErrBreakResolved, e)
             else
               let (now, e) = read_clock e;
                   b = b\<lparr>BStatus := BreakResolved, ResolvedAt := Some now, BReason := reason, BActor := actor\<rparr>;
                   cs = empty_cs\<lparr>csBreaks := [b]\<rparr> in
               case addEvent cs EvBreakResolved now (BID b)
                      (PResolution \<lparr>rp_BreakID = BID b, rp_Reason = reason, rp_Actor = actor, rp_At = now,
                                    rp_MatchID = ''''\<rparr>) of
                 Inl err \<Rightarrow> (zero_break, Some err, e)
               | Inr cs \<Rightarrow>
                   (case eng_apply e cs of
                      (Some err, e) \<Rightarrow> (zero_break, Some err, e)
                    | (None, e) \<Rightarrow> (b, None, e))))"

subsection \<open>Replay\<close>

record ReplayResult =
  FromSeq :: int
  ThroughSeq :: int
  EventsRead :: nat
  LegsReplayed :: nat
  rr_Matched :: nat
  rr_Breaks :: nat
  rr_Open :: nat

definition zero_replay :: ReplayResult where
  "zero_replay =
     \<lparr>FromSeq = 0, ThroughSeq = 0, EventsRead = 0, LegsReplayed = 0, rr_Matched = 0, rr_Breaks = 0, rr_Open = 0\<rparr>"

text \<open>Decoding a payload as a resolution sets the fields its object has.\<close>

fun decode_resolution :: "Payload \<Rightarrow> ResolutionPayload" where
  "decode_resolution (PResolution p) = p"
| "decode_resolution (PLeg l) =
     \<lparr>rp_BreakID = BreakID l, rp_Reason = '''', rp_Actor = '''', rp_At = time_zero, rp_MatchID = MatchID l\<rparr>"
| "decode_resolution (PBreak b) =
     \<lparr>rp_BreakID = '''', rp_Reason = BReason b, rp_Actor = BActor b, rp_At = time_zero, rp_MatchID = ''''\<rparr>"
| "decode_resolution _ =
     \<lparr>rp_BreakID = '''', rp_Reason = '''', rp_Actor = '''', rp_At = time_zero, rp_MatchID = ''''\<rparr>"

definition reapplyResolution :: "'s Engine \<Rightarrow> Event \<Rightarrow> goerr option \<times> 's Engine" where
  "reapplyResolution e ev =
     (let p = decode_resolution (Payload ev) in
      if rp_MatchID p \<noteq> '''' \<or> rp_BreakID p = '''' then (None, e)
      else
        (case repo_GetBreak (eng_repo e) (eng_store e) (rp_BreakID p) of
           Inl _ \<Rightarrow> (None, e)
         | Inr b \<Rightarrow>
             if BStatus b \<noteq> BreakOpen then (None, e)
             else
               let b = b\<lparr>BStatus := BreakResolved, ResolvedAt := Some (rp_At p), BReason := rp_Reason p,
                         BActor := rp_Actor p\<rparr>
               in eng_apply e (empty_cs\<lparr>csBreaks := [b]\<rparr>)))"

definition count_replayed :: "IngestResult \<Rightarrow> ReplayResult \<Rightarrow> ReplayResult" where
  "count_replayed r res =
     (let res = res\<lparr>LegsReplayed := LegsReplayed res + 1\<rparr> in
      if r_Outcome r = OutcomeMatched \<or> r_Outcome r = OutcomeResolvedBreak
      then res\<lparr>rr_Matched := rr_Matched res + 1\<rparr>
      else if r_Outcome r = OutcomeBreak then res\<lparr>rr_Breaks := rr_Breaks res + 1\<rparr>
      else if r_Outcome r = OutcomeOpen then res\<lparr>rr_Open := rr_Open res + 1\<rparr>
      else res)"

definition replay_event ::
    "(string \<Rightarrow> string) \<Rightarrow> 's Engine \<Rightarrow> ReplayResult \<Rightarrow> Event \<Rightarrow> ReplayResult \<times> goerr option \<times> 's Engine" where
  "replay_event sha256 e res ev =
     (let res = res\<lparr>EventsRead := EventsRead res + 1\<rparr>;
          wrap = (\<lambda>err. Errorf (''event '' @ FormatInt (Seq ev) @ '': '') err '''') in
      if Type ev = EvBreakResolved
      then (case reapplyResolution e ev of
              (Some err, e) \<Rightarrow> (res, Some (wrap err), e)
            | (None, e) \<Rightarrow> (res, None, e))
      else if Type ev \<noteq> EvLegIngested then (res, None, e)
      else
        (case unmarshalLeg sha256 (Payload ev) of
           Inl err \<Rightarrow> (res, Some (wrap err), e)
         | Inr l \<Rightarrow>
             (case ingestOne sha256 e l of
                (Inl err, e) \<Rightarrow> (res, Some (wrap err), e)
              | (Inr r, e) \<Rightarrow> (count_replayed r res, None, e))))"

fun replay_page ::
    "(string \<Rightarrow> string) \<Rightarrow> 's Engine \<Rightarrow> ReplayResult \<Rightarrow> int \<Rightarrow> int \<Rightarrow> Event list \<Rightarrow>
       ReplayResult \<times> int \<times> goerr option \<times> 's Engine" where
  "replay_page sha256 e res cursor through [] = (res, cursor, None, e)"
| "replay_page sha256 e res cursor through (ev # evs) =
     (if Seq ev > through then (res, cursor, None, e)
      else
        (case replay_event sha256 e res ev of
           (res, Some err, e) \<Rightarrow> (res, Seq ev + 1, Some err, e)
         | (res, None, e) \<Rightarrow> replay_page sha256 e res (Seq ev + 1) through evs))"

definition replay_page_size :: int where
  "replay_page_size = 500"

fun replay_loop ::
    "nat \<Rightarrow> (string \<Rightarrow> string) \<Rightarrow> 's Engine \<Rightarrow> ReplayResult \<Rightarrow> int \<Rightarrow> int \<Rightarrow>
       (ReplayResult \<times> goerr option \<times> 's Engine) option" where
  "replay_loop 0 sha256 e res cursor through = None"
| "replay_loop (Suc fuel) sha256 e res cursor through =
     (if \<not> cursor \<le> through then Some (res, None, e)
      else
        (case repo_EventsFrom (eng_repo e) (eng_store e) cursor replay_page_size of
           Inl err \<Rightarrow> Some (res, Some (Errorf ''read events: '' err ''''), e)
         | Inr evs \<Rightarrow>
             if evs = [] then Some (res, None, e)
             else
               (case replay_page sha256 e res cursor through evs of
                  (res, _, Some err, e) \<Rightarrow> Some (res, Some err, e)
                | (res, cursor, None, e) \<Rightarrow>
                    if int (length evs) < replay_page_size then Some (res, None, e)
                    else replay_loop fuel sha256 e res cursor through)))"

definition Replay ::
    "nat \<Rightarrow> (string \<Rightarrow> string) \<Rightarrow> 's Engine \<Rightarrow> int \<Rightarrow> (ReplayResult \<times> goerr option \<times> 's Engine) option" where
  "Replay fuel sha256 e from =
     (let from = (if from < 1 then 1 else from) in
      case repo_LastSeq (eng_repo e) (eng_store e) of
        Inl err \<Rightarrow> Some (zero_replay, Some (Errorf ''last seq: '' err ''''), e)
      | Inr through \<Rightarrow>
          let (now, e) = read_clock e in
          case addEvent empty_cs EvReplayStarted now ''replay'' (PReplay from through) of
            Inl err \<Rightarrow> Some (zero_replay, Some err, e)
          | Inr start \<Rightarrow>
              (case eng_apply e start of
                 (Some err, e) \<Rightarrow> Some (zero_replay, Some err, e)
               | (None, e) \<Rightarrow>
                   (case repo_ResetProjections (eng_repo e) (eng_store e) of
                      (Some err, s) \<Rightarrow>
                        Some (zero_replay, Some (Errorf ''reset projections: '' err ''''), e\<lparr>eng_store := s\<rparr>)
                    | (None, s) \<Rightarrow>
                        let e = e\<lparr>eng_store := s, eng_ix := NewIndex (ttl (eng_ix e)), eng_replaying := True\<rparr>;
                            res = zero_replay\<lparr>FromSeq := from, ThroughSeq := through\<rparr> in
                        (case replay_loop fuel sha256 e res from through of
                           None \<Rightarrow> None
                         | Some (res, Some err, e) \<Rightarrow> Some (res, Some err, e\<lparr>eng_replaying := False\<rparr>)
                         | Some (res, None, e) \<Rightarrow>
                             Some (res, None, (notifyOpen e)\<lparr>eng_replaying := False\<rparr>)))))"


text \<open>
  The search for the partner of a late arrival does not look at the counterparty or the value date, which every other rule compares:
  whatever they are, the same partner is found.
\<close>

lemma late_candidate_any_window:
  "late_candidate e (l\<lparr>Counterparty := cp, ValueDate := d\<rparr>) related = late_candidate e l related"
  by (induction related) (auto split: sum.split)

end
