(* ===== verification/Recon_MemStore.thy ===== *)
theory Recon_MemStore
  imports Recon_Repository
begin

text \<open>
  The in-memory store (\<open>internal/adapters/memory/store.go\<close>) with every operation of \<open>ports.Store\<close>, and
  its interpretation as a repository that never fails. Its mutex is not modelled: each operation runs
  under it from start to end. The clock of \<open>ListBreaks\<close> is an argument.
\<close>

subsection \<open>The store\<close>

record Store =
  st_legs :: "(string, Leg) gomap"
  st_byRef :: "(string, string list) gomap"
  st_matches :: "(string, Match) gomap"
  st_breaks :: "(string, Break) gomap"
  st_events :: "Event list"

definition NewStore :: Store where
  "NewStore = \<lparr>st_legs = [], st_byRef = [], st_matches = [], st_breaks = [], st_events = []\<rparr>"

definition apply_leg :: "Leg \<Rightarrow> Store \<Rightarrow> Store" where
  "apply_leg l s =
     (let s = (if gm_get (st_legs s) (ID l) = None
               then s\<lparr>st_byRef := gm_put (TxnRef l) (gm_inner (st_byRef s) (TxnRef l) @ [ID l]) (st_byRef s)\<rparr>
               else s)
      in s\<lparr>st_legs := gm_put (ID l) l (st_legs s)\<rparr>)"

definition apply_event :: "Event \<Rightarrow> Store \<Rightarrow> Store" where
  "apply_event ev s = s\<lparr>st_events := st_events s @ [ev\<lparr>Seq := int (length (st_events s)) + 1\<rparr>]\<rparr>"

definition mem_Apply :: "Store \<Rightarrow> ChangeSet \<Rightarrow> goerr option \<times> Store" where
  "mem_Apply s cs =
     (let s = fold apply_leg (csLegs cs) s;
          s = fold (\<lambda>m s. s\<lparr>st_matches := gm_put (MID m) m (st_matches s)\<rparr>) (csMatches cs) s;
          s = fold (\<lambda>b s. s\<lparr>st_breaks := gm_put (BID b) b (st_breaks s)\<rparr>) (csBreaks cs) s;
          s = fold apply_event (csEvents cs) s
      in (None, s))"

definition mem_HasLeg :: "Store \<Rightarrow> string \<Rightarrow> bool result" where
  "mem_HasLeg s i = Inr (gm_get (st_legs s) i \<noteq> None)"

definition lookup :: "('k, 'v) gomap \<Rightarrow> 'k \<Rightarrow> 'v result" where
  "lookup m i = (case gm_get m i of None \<Rightarrow> Inl ErrNotFound | Some v \<Rightarrow> Inr v)"

definition mem_GetLeg :: "Store \<Rightarrow> string \<Rightarrow> Leg result" where
  "mem_GetLeg s i = lookup (st_legs s) i"

definition mem_LegsByTxnRef :: "Store \<Rightarrow> string \<Rightarrow> Leg list result" where
  "mem_LegsByTxnRef s ref =
     Inr (map (\<lambda>i. case gm_get (st_legs s) i of None \<Rightarrow> zero_leg | Some l \<Rightarrow> l) (gm_inner (st_byRef s) ref))"

definition mem_OpenLegs :: "Store \<Rightarrow> Leg list result" where
  "mem_OpenLegs s = Inr (sort_key ID (filter (\<lambda>l. Status l = LegOpen) (map snd (st_legs s))))"

definition mem_GetMatch :: "Store \<Rightarrow> string \<Rightarrow> Match result" where
  "mem_GetMatch s i = lookup (st_matches s) i"

definition mem_GetBreak :: "Store \<Rightarrow> string \<Rightarrow> Break result" where
  "mem_GetBreak s i = lookup (st_breaks s) i"

record BreakFilter =
  f_Status :: string
  f_Category :: string
  f_Currency :: string
  f_Counterparty :: string
  f_MinAge :: Duration
  f_Limit :: int
  f_Offset :: int

definition break_passes :: "BreakFilter \<Rightarrow> Time \<Rightarrow> Break \<Rightarrow> bool" where
  "break_passes f now b \<longleftrightarrow>
     \<not> (f_Status f \<noteq> '''' \<and> BStatus b \<noteq> f_Status f) \<and>
     \<not> (f_Category f \<noteq> '''' \<and> BCategory b \<noteq> f_Category f) \<and>
     \<not> (f_Currency f \<noteq> '''' \<and> BCurrency b \<noteq> f_Currency f) \<and>
     \<not> (f_Counterparty f \<noteq> '''' \<and> BCounterparty b \<noteq> f_Counterparty f) \<and>
     \<not> (f_MinAge f > 0 \<and> Age b now < f_MinAge f)"

definition mem_ListBreaks :: "Store \<Rightarrow> Time \<Rightarrow> BreakFilter \<Rightarrow> Break list result" where
  "mem_ListBreaks s now f =
     (let out = sort_key (\<lambda>b. (OpenedAt b, BID b)) (filter (break_passes f now) (map snd (st_breaks s))) in
      if f_Offset f > 0 \<and> f_Offset f \<ge> int (length out) then Inr []
      else
        let out = (if f_Offset f > 0 then drop (nat (f_Offset f)) out else out);
            out = (if f_Limit f > 0 \<and> int (length out) > f_Limit f then take (nat (f_Limit f)) out else out)
        in Inr out)"

definition mem_EventsFrom :: "Store \<Rightarrow> int \<Rightarrow> int \<Rightarrow> Event list result" where
  "mem_EventsFrom s from limit =
     (let from = (if from < 1 then 1 else from) in
      if from > int (length (st_events s)) then Inr []
      else
        let out = drop (nat (from - 1)) (st_events s);
            out = (if limit > 0 \<and> int (length out) > limit then take (nat limit) out else out)
        in Inr out)"

definition mem_LastSeq :: "Store \<Rightarrow> int result" where
  "mem_LastSeq s = Inr (int (length (st_events s)))"

definition mem_ResetProjections :: "Store \<Rightarrow> goerr option \<times> Store" where
  "mem_ResetProjections s = (None, s\<lparr>st_legs := [], st_byRef := [], st_matches := [], st_breaks := []\<rparr>)"

definition mem_repo :: "Store Repository" where
  "mem_repo =
     \<lparr>repo_Apply = mem_Apply, repo_HasLeg = mem_HasLeg, repo_LegsByTxnRef = mem_LegsByTxnRef,
      repo_OpenLegs = mem_OpenLegs, repo_GetBreak = mem_GetBreak, repo_EventsFrom = mem_EventsFrom,
      repo_LastSeq = mem_LastSeq, repo_ResetProjections = mem_ResetProjections\<rparr>"

subsection \<open>Statistics\<close>

definition tierName :: "Tier \<Rightarrow> string" where
  "tierName t = (case t of TierExact \<Rightarrow> ''T1'' | TierTolerant \<Rightarrow> ''T2'' | TierManyToOne \<Rightarrow> ''T3'')"

record Stats =
  LegsTotal :: int
  LegsOpen :: int
  LegsMatched :: int
  LegsInBreak :: int
  MatchesTotal :: int
  MatchesByTier :: "(string, int) gomap"
  MatchesByRule :: "(string, int) gomap"
  BreaksOpen :: int
  BreaksResolved :: int
  BreaksByCat :: "(string, int) gomap"
  EventsTotal :: int
  AutoMatchRate :: rat
  LegsBySource :: "(string, int) gomap"
  OldestOpenBreak :: "Time option"

definition incr :: "string \<Rightarrow> (string, int) gomap \<Rightarrow> (string, int) gomap" where
  "incr k m = gm_put k ((case gm_get m k of None \<Rightarrow> 0 | Some n \<Rightarrow> n) + 1) m"

definition count_leg :: "Leg \<Rightarrow> Stats \<Rightarrow> Stats" where
  "count_leg l st =
     (let st = st\<lparr>LegsTotal := LegsTotal st + 1, LegsBySource := incr (Source l) (LegsBySource st)\<rparr> in
      if Status l = LegOpen then st\<lparr>LegsOpen := LegsOpen st + 1\<rparr>
      else if Status l = LegMatched then st\<lparr>LegsMatched := LegsMatched st + 1\<rparr>
      else if Status l = LegBroken then st\<lparr>LegsInBreak := LegsInBreak st + 1\<rparr>
      else st)"

definition count_match :: "Match \<Rightarrow> Stats \<Rightarrow> Stats" where
  "count_match m st =
     st\<lparr>MatchesTotal := MatchesTotal st + 1, MatchesByTier := incr (tierName (MTier m)) (MatchesByTier st),
        MatchesByRule := incr (MRuleID m) (MatchesByRule st)\<rparr>"

definition count_break :: "Break \<Rightarrow> Stats \<Rightarrow> Stats" where
  "count_break b st =
     (if BStatus b = BreakOpen
      then st\<lparr>BreaksOpen := BreaksOpen st + 1, BreaksByCat := incr (BCategory b) (BreaksByCat st),
              OldestOpenBreak := (case OldestOpenBreak st of
                 None \<Rightarrow> Some (OpenedAt b)
               | Some t \<Rightarrow> if OpenedAt b < t then Some (OpenedAt b) else Some t)\<rparr>
      else st\<lparr>BreaksResolved := BreaksResolved st + 1\<rparr>)"

definition mem_Stats :: "Store \<Rightarrow> Stats result" where
  "mem_Stats s =
     (let st = \<lparr>LegsTotal = 0, LegsOpen = 0, LegsMatched = 0, LegsInBreak = 0, MatchesTotal = 0,
                MatchesByTier = [], MatchesByRule = [], BreaksOpen = 0, BreaksResolved = 0, BreaksByCat = [],
                EventsTotal = 0, AutoMatchRate = 0, LegsBySource = [], OldestOpenBreak = None\<rparr>;
          st = fold count_leg (map snd (st_legs s)) st;
          st = fold count_match (map snd (st_matches s)) st;
          st = fold count_break (map snd (st_breaks s)) st;
          st = st\<lparr>EventsTotal := int (length (st_events s))\<rparr>;
          den = LegsMatched st + LegsInBreak st
      in Inr (if den > 0
              then st\<lparr>AutoMatchRate := f64 (f64_of_int64 (LegsMatched st) / f64_of_int64 den)\<rparr>
              else st))"

subsection \<open>The store is a repository\<close>

declare map_of_eq_Some_iff [simp del]

definition mem_proj :: "Store \<Rightarrow> Proj" where
  "mem_proj s =
     \<lparr>p_legs = gm_get (st_legs s), p_matches = gm_get (st_matches s), p_breaks = gm_get (st_breaks s),
      p_events = st_events s\<rparr>"

lemma mem_proj_simps [simp]:
  "p_legs (mem_proj s) = gm_get (st_legs s)" "p_matches (mem_proj s) = gm_get (st_matches s)"
  "p_breaks (mem_proj s) = gm_get (st_breaks s)" "p_events (mem_proj s) = st_events s"
  by (simp_all add: mem_proj_def)

text \<open>The reference index lists, without repetition, the stored legs of every reference.\<close>

definition refs_ok :: "(string, Leg) gomap \<Rightarrow> (string, string list) gomap \<Rightarrow> bool" where
  "refs_ok legs byref \<longleftrightarrow>
     (\<forall>r. distinct (gm_inner byref r) \<and>
        set (gm_inner byref r) = {i. \<exists>l. gm_get legs i = Some l \<and> TxnRef l = r})"

definition seqs_ok :: "Event list \<Rightarrow> bool" where
  "seqs_ok evs \<longleftrightarrow> (\<forall>k < length evs. Seq (evs ! k) = int k + 1)"

definition mem_ok :: "Store \<Rightarrow> bool" where
  "mem_ok s \<longleftrightarrow>
     gm_ok (st_legs s) \<and> gm_ok (st_matches s) \<and> gm_ok (st_breaks s) \<and>
     (\<forall>i l. gm_get (st_legs s) i = Some l \<longrightarrow> ID l = i) \<and>
     (\<forall>i m. gm_get (st_matches s) i = Some m \<longrightarrow> MID m = i) \<and>
     (\<forall>i b. gm_get (st_breaks s) i = Some b \<longrightarrow> BID b = i) \<and>
     refs_ok (st_legs s) (st_byRef s) \<and> seqs_ok (st_events s)"

lemma mem_ok_New [simp]: "mem_ok NewStore"
  by (simp add: mem_ok_def NewStore_def refs_ok_def seqs_ok_def gm_inner_def)

lemma apply_leg_ok:
  assumes "mem_ok s" "\<And>l'. gm_get (st_legs s) (ID l) = Some l' \<Longrightarrow> TxnRef l' = TxnRef l"
  shows "mem_ok (apply_leg l s)"
proof -
  have r: "refs_ok (st_legs s) (st_byRef s)" using assms(1) by (simp add: mem_ok_def)
  have "refs_ok (st_legs (apply_leg l s)) (st_byRef (apply_leg l s))"
    using r assms(2) unfolding refs_ok_def apply_leg_def Let_def by (auto split: if_splits)
  then show ?thesis
    using assms(1) by (auto simp: mem_ok_def apply_leg_def Let_def split: if_splits)
qed

lemma apply_leg_simps [simp]:
  "gm_get (st_legs (apply_leg l s)) = (gm_get (st_legs s))(ID l \<mapsto> l)"
  "st_matches (apply_leg l s) = st_matches s" "st_breaks (apply_leg l s) = st_breaks s"
  "st_events (apply_leg l s) = st_events s"
  by (simp_all add: apply_leg_def Let_def fun_eq_iff)

text \<open>A loop that refines its specification step by step.\<close>

lemma fold_refines:
  assumes "I s" "\<And>x s. x \<in> set xs \<Longrightarrow> I s \<Longrightarrow> I (f x s) \<and> a (f x s) = g x (a s)"
  shows "I (fold f xs s) \<and> a (fold f xs s) = fold g xs (a s)"
  using assms
proof (induction xs arbitrary: s)
  case (Cons x xs)
  have "I (f x s)" "a (f x s) = g x (a s)" using Cons.prems(2) [of x s] Cons.prems(1) by simp_all
  then show ?case using Cons.IH [of "f x s"] Cons.prems(2) by simp
qed simp

lemma apply_legs:
  assumes "mem_ok s" "distinct (map ID ls)"
    "\<forall>l \<in> set ls. \<forall>l'. gm_get (st_legs s) (ID l) = Some l' \<longrightarrow> TxnRef l' = TxnRef l"
  shows "mem_ok (fold apply_leg ls s) \<and>
    mem_proj (fold apply_leg ls s) = (mem_proj s)\<lparr>p_legs := upsert ID ls (p_legs (mem_proj s))\<rparr>"
  using assms
proof (induction ls arbitrary: s)
  case (Cons l ls)
  have "mem_ok (apply_leg l s)" using Cons.prems by (intro apply_leg_ok) auto
  moreover have "\<forall>x \<in> set ls. \<forall>l'. gm_get (st_legs (apply_leg l s)) (ID x) = Some l' \<longrightarrow> TxnRef l' = TxnRef x"
  proof (intro ballI allI impI)
    fix x l' assume x: "x \<in> set ls" "gm_get (st_legs (apply_leg l s)) (ID x) = Some l'"
    have "ID x \<noteq> ID l" using Cons.prems(2) x(1) by (simp add: image_iff) metis
    then show "TxnRef l' = TxnRef x" using Cons.prems(3) x by simp
  qed
  ultimately have "mem_ok (fold apply_leg ls (apply_leg l s)) \<and> mem_proj (fold apply_leg ls (apply_leg l s)) =
      (mem_proj (apply_leg l s))\<lparr>p_legs := upsert ID ls (p_legs (mem_proj (apply_leg l s)))\<rparr>"
    using Cons.prems(2) by (intro Cons.IH) auto
  moreover have "mem_proj (apply_leg l s) = (mem_proj s)\<lparr>p_legs := (p_legs (mem_proj s))(ID l \<mapsto> l)\<rparr>"
    by (simp add: mem_proj_def fun_eq_iff)
  ultimately show ?case by simp
qed (simp add: mem_proj_def)

lemma upsert_matches: "fold (\<lambda>m p. p\<lparr>p_matches := (p_matches p)(MID m \<mapsto> m)\<rparr>) ms p =
    p\<lparr>p_matches := upsert MID ms (p_matches p)\<rparr>"
  by (induction ms arbitrary: p) simp_all

lemma upsert_breaks: "fold (\<lambda>b p. p\<lparr>p_breaks := (p_breaks p)(BID b \<mapsto> b)\<rparr>) bs p =
    p\<lparr>p_breaks := upsert BID bs (p_breaks p)\<rparr>"
  by (induction bs arbitrary: p) simp_all

lemma apply_matches:
  assumes "mem_ok s"
  shows "mem_ok (fold (\<lambda>m s. s\<lparr>st_matches := gm_put (MID m) m (st_matches s)\<rparr>) ms s) \<and>
     mem_proj (fold (\<lambda>m s. s\<lparr>st_matches := gm_put (MID m) m (st_matches s)\<rparr>) ms s) =
     (mem_proj s)\<lparr>p_matches := upsert MID ms (p_matches (mem_proj s))\<rparr>"
  unfolding upsert_matches [symmetric] using assms
  by (rule fold_refines) (auto simp: mem_ok_def mem_proj_def fun_eq_iff)

lemma apply_breaks:
  assumes "mem_ok s"
  shows "mem_ok (fold (\<lambda>b s. s\<lparr>st_breaks := gm_put (BID b) b (st_breaks s)\<rparr>) bs s) \<and>
     mem_proj (fold (\<lambda>b s. s\<lparr>st_breaks := gm_put (BID b) b (st_breaks s)\<rparr>) bs s) =
     (mem_proj s)\<lparr>p_breaks := upsert BID bs (p_breaks (mem_proj s))\<rparr>"
  unfolding upsert_breaks [symmetric] using assms
  by (rule fold_refines) (auto simp: mem_ok_def mem_proj_def fun_eq_iff)

lemma number_events_Cons:
  "number_events n (ev # evs) = ev\<lparr>Seq := int n + 1\<rparr> # number_events (Suc n) evs"
  by (simp add: number_events_def)

lemma number_fold: "fold (\<lambda>ev p. p\<lparr>p_events := p_events p @ [ev\<lparr>Seq := int (length (p_events p)) + 1\<rparr>]\<rparr>) evs p =
    p\<lparr>p_events := p_events p @ number_events (length (p_events p)) evs\<rparr>"
  by (induction evs arbitrary: p) (simp_all add: number_events_Cons)

lemma seqs_ok_snoc: "seqs_ok evs \<Longrightarrow> seqs_ok (evs @ [ev\<lparr>Seq := int (length evs) + 1\<rparr>])"
  by (auto simp: seqs_ok_def nth_append less_Suc_eq)

lemma apply_events:
  assumes "mem_ok s"
  shows "mem_ok (fold apply_event evs s) \<and>
     mem_proj (fold apply_event evs s) =
     (mem_proj s)\<lparr>p_events := p_events (mem_proj s) @ number_events (length (p_events (mem_proj s))) evs\<rparr>"
  unfolding number_fold [symmetric] using assms
  by (rule fold_refines) (auto simp: mem_ok_def mem_proj_def apply_event_def intro: seqs_ok_snoc)

lemma mem_Apply_refines:
  assumes "mem_ok s" "keeps_refs cs (mem_proj s)" "mem_Apply s cs = (err, s')"
  shows "err = None \<and> mem_ok s' \<and> mem_proj s' = apply_spec cs (mem_proj s)"
proof -
  let ?s1 = "fold apply_leg (csLegs cs) s"
  let ?s2 = "fold (\<lambda>m s. s\<lparr>st_matches := gm_put (MID m) m (st_matches s)\<rparr>) (csMatches cs) ?s1"
  let ?s3 = "fold (\<lambda>b s. s\<lparr>st_breaks := gm_put (BID b) b (st_breaks s)\<rparr>) (csBreaks cs) ?s2"
  have 1: "mem_ok ?s1" "mem_proj ?s1 = (mem_proj s)\<lparr>p_legs := upsert ID (csLegs cs) (p_legs (mem_proj s))\<rparr>"
    using apply_legs [OF assms(1)] assms(2) by (simp_all add: keeps_refs_def)
  have 2: "mem_ok ?s2" "mem_proj ?s2 = (mem_proj ?s1)\<lparr>p_matches := upsert MID (csMatches cs) (p_matches (mem_proj ?s1))\<rparr>"
    using apply_matches [OF 1(1)] by blast+
  have 3: "mem_ok ?s3" "mem_proj ?s3 = (mem_proj ?s2)\<lparr>p_breaks := upsert BID (csBreaks cs) (p_breaks (mem_proj ?s2))\<rparr>"
    using apply_breaks [OF 2(1)] by blast+
  have s': "err = None" "s' = fold apply_event (csEvents cs) ?s3"
    using assms(3) by (simp_all add: mem_Apply_def Let_def)
  have "mem_ok s'" "mem_proj s' = (mem_proj ?s3)\<lparr>p_events := p_events (mem_proj ?s3) @
      number_events (length (p_events (mem_proj ?s3))) (csEvents cs)\<rparr>"
    unfolding s'(2) using apply_events [OF 3(1)] by blast+
  then show ?thesis
    unfolding 3(2) 2(2) 1(2) using s'(1) by (simp add: apply_spec_def mem_proj_def)
qed

lemma mem_LegsByTxnRef_set:
  assumes "mem_ok s" "mem_LegsByTxnRef s ref = Inr ls"
  shows "set ls = {l. \<exists>i. gm_get (st_legs s) i = Some l \<and> TxnRef l = ref}"
proof -
  have ids: "set (gm_inner (st_byRef s) ref) = {i. \<exists>l. gm_get (st_legs s) i = Some l \<and> TxnRef l = ref}"
    using assms(1) by (simp add: mem_ok_def refs_ok_def)
  have "set ls = (\<lambda>i. case gm_get (st_legs s) i of None \<Rightarrow> zero_leg | Some l \<Rightarrow> l) `
      set (gm_inner (st_byRef s) ref)"
    using assms(2) by (auto simp: mem_LegsByTxnRef_def)
  also have "\<dots> = {l. \<exists>i. gm_get (st_legs s) i = Some l \<and> TxnRef l = ref}"
    unfolding ids by (force simp: image_iff)
  finally show ?thesis .
qed

lemma distinct_keyed:
  assumes "gm_ok m" "\<And>i x. gm_get m i = Some x \<Longrightarrow> key x = i"
  shows "distinct (map key (map snd m))"
proof -
  have "key x = i" if "(i, x) \<in> set m" for i x using that assms(2) [of i x] by (simp only: gm_mem [OF assms(1)])
  then have "map key (map snd m) = map fst m" by auto
  then show ?thesis using assms(1) by (simp only:)
qed

lemma mem_OpenLegs_law:
  assumes "mem_ok s" "mem_OpenLegs s = Inr ls"
  shows "distinct (map ID ls) \<and> set ls = ran (open_legs (mem_proj s))"
proof
  have g: "gm_ok (st_legs s)" and i: "\<And>i l. gm_get (st_legs s) i = Some l \<Longrightarrow> ID l = i"
    using assms(1) by (simp_all add: mem_ok_def)
  have ls: "ls = sort_key ID (filter (\<lambda>l. Status l = LegOpen) (map snd (st_legs s)))"
    using assms(2) by (simp add: mem_OpenLegs_def)
  have "distinct (map ID (filter (\<lambda>l. Status l = LegOpen) (map snd (st_legs s))))"
    by (rule distinct_map_filter [OF distinct_keyed [OF g i]])
  then show "distinct (map ID ls)" unfolding ls distinct_map by simp
  have "l \<in> set ls \<longleftrightarrow> (\<exists>i. gm_get (st_legs s) i = Some l) \<and> Status l = LegOpen" for l
    unfolding ls set_sort set_filter gm_vals [OF g] ran_def by blast
  then show "set ls = ran (open_legs (mem_proj s))"
    by (auto simp: ran_def open_legs_Some)
qed

lemma mem_EventsFrom_eq:
  "1 \<le> from \<Longrightarrow> 0 < limit \<Longrightarrow>
     mem_EventsFrom s from limit = Inr (take (nat limit) (drop (nat (from - 1)) (st_events s)))"
  by (auto simp: mem_EventsFrom_def Let_def)

interpretation mem: reliable_repository mem_repo mem_proj mem_ok
proof unfold_locales
  fix s :: Store and i l
  show "mem_ok s \<Longrightarrow> p_legs (mem_proj s) i = Some l \<Longrightarrow> ID l = i" by (simp add: mem_ok_def)
next
  fix s :: Store and i b
  show "mem_ok s \<Longrightarrow> p_breaks (mem_proj s) i = Some b \<Longrightarrow> BID b = i" by (simp add: mem_ok_def)
next
  fix s cs s'
  show "mem_ok s \<Longrightarrow> updates_legs cs (mem_proj s) \<Longrightarrow> repo_Apply mem_repo s cs = (None, s') \<Longrightarrow>
      mem_ok s' \<and> mem_proj s' = apply_spec cs (mem_proj s)"
    using mem_Apply_refines [of s cs None s', OF _ updates_keep_refs] by (simp add: mem_repo_def)
next
  fix s ref ls
  show "mem_ok s \<Longrightarrow> repo_LegsByTxnRef mem_repo s ref = Inr ls \<Longrightarrow>
      set ls = {l. \<exists>i. p_legs (mem_proj s) i = Some l \<and> TxnRef l = ref}"
    using mem_LegsByTxnRef_set [of s ref ls] by (simp add: mem_repo_def)
next
  fix s ls
  show "mem_ok s \<Longrightarrow> repo_OpenLegs mem_repo s = Inr ls \<Longrightarrow>
      distinct (map ID ls) \<and> set ls = ran (open_legs (mem_proj s))"
    using mem_OpenLegs_law [of s ls] by (simp add: mem_repo_def)
next
  fix s "from" limit evs
  show "mem_ok s \<Longrightarrow> 1 \<le> from \<Longrightarrow> 0 < limit \<Longrightarrow> repo_EventsFrom mem_repo s from limit = Inr evs \<Longrightarrow>
      evs = take (nat limit) (drop (nat (from - 1)) (p_events (mem_proj s)))"
    by (simp add: mem_repo_def mem_EventsFrom_eq)
next
  fix s k
  show "mem_ok s \<Longrightarrow> k < length (p_events (mem_proj s)) \<Longrightarrow> Seq (p_events (mem_proj s) ! k) = int k + 1"
    by (simp add: mem_ok_def seqs_ok_def)
next
  fix s s'
  show "mem_ok s \<Longrightarrow> repo_ResetProjections mem_repo s = (None, s') \<Longrightarrow>
      mem_ok s' \<and> mem_proj s' = reset_spec (mem_proj s)"
    by (auto simp: mem_repo_def mem_ResetProjections_def mem_ok_def refs_ok_def gm_inner_def
        mem_proj_def reset_spec_def)
qed (auto simp: mem_repo_def mem_HasLeg_def mem_GetBreak_def lookup_def mem_LastSeq_def mem_Apply_def
    mem_ResetProjections_def mem_LegsByTxnRef_def mem_OpenLegs_def mem_EventsFrom_def Let_def
    split: option.splits)

subsection \<open>Counting\<close>

lemma count_legs:
  "LegsTotal (fold count_leg ls st) = LegsTotal st + int (length ls) \<and>
   LegsOpen (fold count_leg ls st) = LegsOpen st + int (length (filter (\<lambda>l. Status l = LegOpen) ls)) \<and>
   LegsMatched (fold count_leg ls st) = LegsMatched st + int (length (filter (\<lambda>l. Status l = LegMatched) ls)) \<and>
   LegsInBreak (fold count_leg ls st) = LegsInBreak st + int (length (filter (\<lambda>l. Status l = LegBroken) ls))"
  by (induction ls arbitrary: st) (auto simp: count_leg_def Let_def)

lemma count_matches:
  "LegsTotal (fold count_match ms st) = LegsTotal st \<and> LegsOpen (fold count_match ms st) = LegsOpen st \<and>
   LegsMatched (fold count_match ms st) = LegsMatched st \<and> LegsInBreak (fold count_match ms st) = LegsInBreak st \<and>
   BreaksOpen (fold count_match ms st) = BreaksOpen st \<and>
   BreaksResolved (fold count_match ms st) = BreaksResolved st \<and>
   AutoMatchRate (fold count_match ms st) = AutoMatchRate st \<and>
   MatchesTotal (fold count_match ms st) = MatchesTotal st + int (length ms)"
  by (induction ms arbitrary: st) (auto simp: count_match_def)

lemma count_legs_rest:
  "MatchesTotal (fold count_leg ls st) = MatchesTotal st \<and> BreaksOpen (fold count_leg ls st) = BreaksOpen st \<and>
   BreaksResolved (fold count_leg ls st) = BreaksResolved st \<and>
   AutoMatchRate (fold count_leg ls st) = AutoMatchRate st"
  by (induction ls arbitrary: st) (auto simp: count_leg_def Let_def)

lemma count_breaks:
  "LegsTotal (fold count_break bs st) = LegsTotal st \<and> LegsOpen (fold count_break bs st) = LegsOpen st \<and>
   LegsMatched (fold count_break bs st) = LegsMatched st \<and> LegsInBreak (fold count_break bs st) = LegsInBreak st \<and>
   MatchesTotal (fold count_break bs st) = MatchesTotal st \<and>
   AutoMatchRate (fold count_break bs st) = AutoMatchRate st \<and>
   BreaksOpen (fold count_break bs st) = BreaksOpen st + int (length (filter (\<lambda>b. BStatus b = BreakOpen) bs)) \<and>
   BreaksResolved (fold count_break bs st) =
     BreaksResolved st + int (length (filter (\<lambda>b. BStatus b \<noteq> BreakOpen) bs))"
  by (induction bs arbitrary: st) (auto simp: count_break_def)

lemma length_statuses:
  "\<forall>l \<in> set ls. Status l \<in> {LegOpen, LegMatched, LegBroken} \<Longrightarrow>
     length ls = length (filter (\<lambda>l. Status l = LegOpen) ls) + length (filter (\<lambda>l. Status l = LegMatched) ls) +
       length (filter (\<lambda>l. Status l = LegBroken) ls)"
  by (induction ls) auto

lemma ratio_bounds:
  assumes "0 \<le> a" "a \<le> b"
  shows "0 \<le> f64 (f64_of_int64 a / f64_of_int64 b) \<and> f64 (f64_of_int64 a / f64_of_int64 b) \<le> 1"
proof
  have f: "0 \<le> f64_of_int64 a" "f64_of_int64 a \<le> f64_of_int64 b"
    using assms unfolding f64_of_int64_def by (auto intro: f64_nonneg f64_mono)
  then show "0 \<le> f64 (f64_of_int64 a / f64_of_int64 b)" by (intro f64_nonneg) simp
  have "f64_of_int64 a / f64_of_int64 b \<le> 1" using f by (auto simp: divide_le_eq_1 intro: order_antisym)
  then have "f64 (f64_of_int64 a / f64_of_int64 b) \<le> f64 1" by (rule f64_mono)
  then show "f64 (f64_of_int64 a / f64_of_int64 b) \<le> 1" using f64_of_int [of 1] by simp
qed

subsection \<open>Properties\<close>

text \<open>
  C15: \<open>Apply\<close> of the memory store refines the contract of the repository: it never fails, keeps the
  store's invariant, and upserts legs, matches and breaks by identifier and appends the events, for
  every change set that names a leg once and keeps the references of stored legs.
\<close>

theorem mem_apply_refines:
  assumes "mem_ok s" and "keeps_refs cs (mem_proj s)"
  shows "case mem_Apply s cs of (err, s') \<Rightarrow>
    err = None \<and> mem_ok s' \<and> mem_proj s' = apply_spec cs (mem_proj s)"
proof -
  obtain err s' where a: "mem_Apply s cs = (err, s')" by (cases "mem_Apply s cs")
  show ?thesis using mem_Apply_refines [OF assms a] by (simp add: a)
qed

theorem mem_apply_refines_witness:
  "let cs = empty_cs\<lparr>csLegs := [plain_leg ''rail'' ''R1'' 100 ''VISA'' []]\<rparr>
   in mem_ok (snd (mem_Apply NewStore cs)) \<and>
      p_legs (mem_proj (snd (mem_Apply NewStore cs))) '''' = Some (plain_leg ''rail'' ''R1'' 100 ''VISA'' [])"
proof -
  let ?l = "plain_leg ''rail'' ''R1'' 100 ''VISA'' []"
  let ?cs = "empty_cs\<lparr>csLegs := [?l]\<rparr>"
  have "keeps_refs ?cs (mem_proj NewStore)" by (simp add: keeps_refs_def NewStore_def)
  moreover have "ID ?l = ''''" by (simp add: plain_leg_def)
  ultimately show ?thesis
    using mem_apply_refines [of NewStore ?cs] unfolding Let_def
    by (auto split: prod.splits simp del: mem_proj_simps)
qed

text \<open>
  C25: the event log is append-only and numbered without gaps: a change set adds its events at the end in
  their order, and after any number of change sets the event at position \<open>k\<close> has sequence number \<open>k + 1\<close>.
\<close>

theorem event_log_gapless:
  "st_events (snd (mem_Apply s cs)) = st_events s @ number_events (length (st_events s)) (csEvents cs) \<and>
   seqs_ok (st_events (fold (\<lambda>cs s. snd (mem_Apply s cs)) css NewStore))"
proof
  have legs: "st_events (fold apply_leg ls s) = st_events s" for ls s by (induction ls arbitrary: s) simp_all
  have ms: "st_events (fold (\<lambda>m s. s\<lparr>st_matches := gm_put (MID m) m (st_matches s)\<rparr>) ms s) = st_events s" for ms s
    by (induction ms arbitrary: s) simp_all
  have bs: "st_events (fold (\<lambda>b s. s\<lparr>st_breaks := gm_put (BID b) b (st_breaks s)\<rparr>) bs s) = st_events s" for bs s
    by (induction bs arbitrary: s) simp_all
  have evs: "st_events (fold apply_event evs s) = st_events s @ number_events (length (st_events s)) evs" for evs s
    by (induction evs arbitrary: s) (simp_all add: apply_event_def number_events_Cons)
  have app: "st_events (snd (mem_Apply s cs)) = st_events s @ number_events (length (st_events s)) (csEvents cs)"
    for s cs by (simp add: mem_Apply_def Let_def legs ms bs evs)
  then show "st_events (snd (mem_Apply s cs)) = st_events s @ number_events (length (st_events s)) (csEvents cs)" .
  have step: "seqs_ok (st_events s) \<Longrightarrow> seqs_ok (st_events (snd (mem_Apply s cs)))" for s cs
    unfolding app seqs_ok_def by (auto simp: nth_append number_events_nth)
  have "seqs_ok (st_events s) \<Longrightarrow> seqs_ok (st_events (fold (\<lambda>cs s. snd (mem_Apply s cs)) css s))" for s
    by (induction css arbitrary: s) (simp_all add: step)
  then show "seqs_ok (st_events (fold (\<lambda>cs s. snd (mem_Apply s cs)) css NewStore))"
    by (simp add: seqs_ok_def NewStore_def)
qed

text \<open>
  C26: \<open>ListBreaks\<close> pages consistently: the page of \<open>limit\<close> breaks at \<open>offset\<close> is that slice of the unpaged
  answer, which holds exactly the breaks that pass the filter, once each, oldest first.
\<close>

theorem list_breaks_pages:
  assumes "mem_ok s" and "0 < limit" and "0 \<le> offset"
    and "mem_ListBreaks s now (f\<lparr>f_Limit := 0, f_Offset := 0\<rparr>) = Inr full"
  shows "mem_ListBreaks s now (f\<lparr>f_Limit := limit, f_Offset := offset\<rparr>) =
      Inr (take (nat limit) (drop (nat offset) full)) \<and>
    sorted (map (\<lambda>b. (OpenedAt b, BID b)) full) \<and> distinct full \<and>
    (\<forall>b. b \<in> set full \<longleftrightarrow> p_breaks (mem_proj s) (BID b) = Some b \<and> break_passes f now b)"
proof (intro conjI allI)
  have pass: "break_passes (f\<lparr>f_Limit := a, f_Offset := b\<rparr>) now = break_passes f now" for a b
    by (simp add: break_passes_def fun_eq_iff)
  have full: "full = sort_key (\<lambda>b. (OpenedAt b, BID b)) (filter (break_passes f now) (map snd (st_breaks s)))"
    using assms(4) by (simp add: mem_ListBreaks_def Let_def pass)
  show "mem_ListBreaks s now (f\<lparr>f_Limit := limit, f_Offset := offset\<rparr>) =
      Inr (take (nat limit) (drop (nat offset) full))"
    unfolding full using assms(2,3) by (auto simp: mem_ListBreaks_def Let_def pass)
  show "sorted (map (\<lambda>b. (OpenedAt b, BID b)) full)" unfolding full by simp
  have g: "gm_ok (st_breaks s)" and i: "\<And>i b. gm_get (st_breaks s) i = Some b \<Longrightarrow> BID b = i"
    using assms(1) by (simp_all add: mem_ok_def)
  have "distinct (map snd (st_breaks s))" using distinct_keyed [OF g i] by (simp only: distinct_map)
  then show "distinct full" unfolding full by simp
  fix b show "b \<in> set full \<longleftrightarrow> p_breaks (mem_proj s) (BID b) = Some b \<and> break_passes f now b"
    unfolding full set_sort set_filter gm_vals [OF g] ran_def using i by auto
qed

definition demo_break :: "string \<Rightarrow> Time \<Rightarrow> Break" where
  "demo_break i t =
     \<lparr>BID = i, BLegIDs = [], BCurrency = ''USD'', BCounterparty = ''VISA'', BCategory = CatFee, BConfidence = 0,
      BClassifierID = '''', BTrigger = TriggerDuplicate, BStatus = BreakOpen, OpenedAt = t, ResolvedAt = None,
      BReason = '''', BActor = '''', AgeSeconds = 0\<rparr>"

definition demo_filter :: BreakFilter where
  "demo_filter =
     \<lparr>f_Status = BreakOpen, f_Category = '''', f_Currency = '''', f_Counterparty = '''', f_MinAge = 0,
      f_Limit = 0, f_Offset = 0\<rparr>"

definition demo_store :: Store where
  "demo_store = NewStore\<lparr>st_breaks := [(''b'', demo_break ''b'' 9), (''a'', demo_break ''a'' 5)]\<rparr>"

theorem list_breaks_pages_witness:
  "mem_ListBreaks demo_store 10 (demo_filter\<lparr>f_Limit := 1, f_Offset := 1\<rparr>) = Inr [demo_break ''b'' 9]"
proof -
  have ok: "mem_ok demo_store"
    by (auto simp: mem_ok_def demo_store_def NewStore_def refs_ok_def seqs_ok_def gm_inner_def demo_break_def
        split: if_splits)
  have full: "mem_ListBreaks demo_store 10 (demo_filter\<lparr>f_Limit := 0, f_Offset := 0\<rparr>) =
      Inr [demo_break ''a'' 5, demo_break ''b'' 9]" by code_simp
  show ?thesis using list_breaks_pages [OF ok _ _ full, of 1 1] by simp
qed

text \<open>
  the statistics add up: legs are open, matched or in a break, matches and breaks are counted once
  each, and the auto-match rate is a proportion.
\<close>

theorem stats_consistent:
  assumes "mem_Stats s = Inr st" and "\<forall>l \<in> set (map snd (st_legs s)). Status l \<in> {LegOpen, LegMatched, LegBroken}"
  shows "LegsTotal st = int (length (st_legs s)) \<and> LegsTotal st = LegsOpen st + LegsMatched st + LegsInBreak st \<and>
    MatchesTotal st = int (length (st_matches s)) \<and>
    BreaksOpen st + BreaksResolved st = int (length (st_breaks s)) \<and>
    0 \<le> AutoMatchRate st \<and> AutoMatchRate st \<le> 1"
proof -
  let ?ls = "map snd (st_legs s)"
  have c: "LegsTotal st = int (length ?ls)" "LegsOpen st = int (length (filter (\<lambda>l. Status l = LegOpen) ?ls))"
    "LegsMatched st = int (length (filter (\<lambda>l. Status l = LegMatched) ?ls))"
    "LegsInBreak st = int (length (filter (\<lambda>l. Status l = LegBroken) ?ls))"
    "MatchesTotal st = int (length (st_matches s))"
    "BreaksOpen st = int (length (filter (\<lambda>b. BStatus b = BreakOpen) (map snd (st_breaks s))))"
    "BreaksResolved st = int (length (filter (\<lambda>b. BStatus b \<noteq> BreakOpen) (map snd (st_breaks s))))"
    using assms(1) unfolding mem_Stats_def Let_def
    by (auto simp: count_legs count_matches count_breaks count_legs_rest split: if_splits)
  have "AutoMatchRate st = 0 \<or> AutoMatchRate st = f64 (f64_of_int64 (LegsMatched st) /
      f64_of_int64 (LegsMatched st + LegsInBreak st))"
    using assms(1) unfolding mem_Stats_def Let_def
    by (auto simp: count_legs count_matches count_breaks count_legs_rest split: if_splits)
  moreover have "length (map snd (st_breaks s)) = length (filter (\<lambda>b. BStatus b = BreakOpen) (map snd (st_breaks s))) +
      length (filter (\<lambda>b. BStatus b \<noteq> BreakOpen) (map snd (st_breaks s)))"
    by (rule sum_length_filter_compl [symmetric])
  ultimately show ?thesis
    using c length_statuses [OF assms(2)] ratio_bounds [of "LegsMatched st" "LegsMatched st + LegsInBreak st"] by auto
qed

theorem stats_consistent_witness:
  "case mem_Stats demo_store of Inl _ \<Rightarrow> False | Inr st \<Rightarrow> BreaksOpen st + BreaksResolved st = 2"
proof -
  obtain st where st: "mem_Stats demo_store = Inr st" by (auto simp: mem_Stats_def Let_def)
  have "\<forall>l \<in> set (map snd (st_legs demo_store)). Status l \<in> {LegOpen, LegMatched, LegBroken}"
    by (simp add: demo_store_def NewStore_def)
  from stats_consistent [OF st this] show ?thesis unfolding st by (simp add: demo_store_def NewStore_def)
qed

end
