(* ===== verification/Recon_Lifecycle.thy ===== *)
theory Recon_Lifecycle
  imports Recon_Engine Recon_MemStore
begin

text \<open>
  The engine against any repository that keeps its contract.

  \<^item> The life cycle of a leg: stored as open, matched or broken; an open leg is matched or broken once; a
    broken leg is matched by a late arrival; a matched leg never changes. \<open>evolves\<close> is one change of the
    projections that respects it.
  \<^item> The invariant \<open>eng_inv\<close>: the index holds exactly the open legs of the store.
  \<^item> In the locale of the repository: every operation, on every path, errors included, keeps the
    invariant and evolves the projections. The memory store instantiates the results.
\<close>

subsection \<open>The life cycle\<close>

definition advances :: "Leg \<Rightarrow> Leg \<Rightarrow> bool" where
  "advances l l' \<longleftrightarrow>
     (Status l = LegOpen \<and> (\<exists>m. l' = mark_matched m l)) \<or>
     (Status l = LegOpen \<and> (\<exists>b. l' = mark_broken b l)) \<or>
     (Status l = LegBroken \<and> (\<exists>m. l' = (mark_matched m l)\<lparr>BreakID := ''''\<rparr>))"

definition legal_cs :: "ChangeSet \<Rightarrow> Proj \<Rightarrow> bool" where
  "legal_cs cs p \<longleftrightarrow>
     distinct (map ID (csLegs cs)) \<and>
     (\<forall>l' \<in> set (csLegs cs). Status l' \<in> {LegOpen, LegMatched, LegBroken} \<and>
        (\<forall>l. p_legs p (ID l') = Some l \<longrightarrow> advances l l'))"

definition evolves :: "Proj \<Rightarrow> Proj \<Rightarrow> bool" where
  "evolves p p' \<longleftrightarrow> p' = p \<or> (\<exists>cs. legal_cs cs p \<and> p' = apply_spec cs p)"

lemma mark_simps [simp]:
  "ID (mark_matched m l) = ID l" "TxnRef (mark_matched m l) = TxnRef l" "Status (mark_matched m l) = LegMatched"
  "ID (mark_broken b l) = ID l" "TxnRef (mark_broken b l) = TxnRef l" "Status (mark_broken b l) = LegBroken"
  by (simp_all add: mark_matched_def mark_broken_def)

lemma advances_ref: "advances l l' \<Longrightarrow> TxnRef l' = TxnRef l"
  by (auto simp: advances_def)

lemma advances_update: "advances l l' \<Longrightarrow> l' = leg_update l' l"
  by (auto simp: advances_def leg_update_def mark_matched_def mark_broken_def)

lemma legal_updates: "legal_cs cs p \<Longrightarrow> updates_legs cs p"
  unfolding legal_cs_def updates_legs_def using advances_update by blast

lemma evolves_refl [simp]: "evolves p p"
  by (simp add: evolves_def)

text \<open>What evolution does to one leg: it stays, or takes one step of its life cycle.\<close>

lemma evolves_leg:
  assumes "evolves p p'" "p_legs p i = Some l"
  shows "\<exists>l'. p_legs p' i = Some l' \<and> (l' = l \<or> advances l l')"
proof -
  consider "p' = p" | cs where "legal_cs cs p" "p' = apply_spec cs p" using assms(1) by (auto simp: evolves_def)
  then show ?thesis
  proof cases
    case 1
    then show ?thesis using assms(2) by simp
  next
    case (2 cs)
    show ?thesis
    proof (cases "i \<in> ID ` set (csLegs cs)")
      case True
      then obtain l' where l': "l' \<in> set (csLegs cs)" "ID l' = i" by auto
      then have "p_legs p' i = Some l'"
        using upsert_lookup [of ID "csLegs cs" l' "p_legs p"] 2 by (simp add: legal_cs_def)
      moreover have "advances l l'" using 2(1) l' assms(2) by (auto simp: legal_cs_def)
      ultimately show ?thesis by blast
    next
      case False
      then show ?thesis using assms(2) 2(2) by (simp add: upsert_lookup_notin)
    qed
  qed
qed

lemma evolves_matched:
  assumes "evolves p p'" "p_legs p i = Some l" "Status l = LegMatched"
  shows "p_legs p' i = Some l"
  using evolves_leg [OF assms(1,2)] assms(3) by (auto simp: advances_def)

lemma evolves_star_matched:
  assumes "evolves\<^sup>*\<^sup>* p p'" "p_legs p i = Some l" "Status l = LegMatched"
  shows "p_legs p' i = Some l"
  using assms by (induction rule: rtranclp_induct) (auto intro: evolves_matched)

text \<open>The events only grow.\<close>

lemma evolves_events: "evolves p p' \<Longrightarrow> \<exists>evs. p_events p' = p_events p @ evs"
  by (auto simp: evolves_def)

lemma evolves_star_events: "evolves\<^sup>*\<^sup>* p p' \<Longrightarrow> \<exists>evs. p_events p' = p_events p @ evs"
proof (induction rule: rtranclp_induct)
  case (step p' p'')
  then show ?case using evolves_events [of p' p''] by auto
qed simp

subsection \<open>The invariant\<close>

definition eng_inv :: "'s Repository \<Rightarrow> ('s \<Rightarrow> Proj) \<Rightarrow> ('s \<Rightarrow> bool) \<Rightarrow> 's Engine \<Rightarrow> bool" where
  "eng_inv repo proj good e \<longleftrightarrow>
     eng_repo e = repo \<and> good (eng_store e) \<and> ix_ok (eng_ix e) \<and>
     Get (eng_ix e) = open_legs (proj (eng_store e))"

definition eng_ok :: "'s Repository \<Rightarrow> ('s \<Rightarrow> Proj) \<Rightarrow> ('s \<Rightarrow> bool) \<Rightarrow> 's Engine \<Rightarrow> 's Engine \<Rightarrow> bool" where
  "eng_ok repo proj good e e' \<longleftrightarrow>
     eng_inv repo proj good e' \<and> evolves (proj (eng_store e)) (proj (eng_store e')) \<and>
     eng_rules e' = eng_rules e \<and> eng_replaying e' = eng_replaying e \<and> eng_clock e' = eng_clock e \<and>
     ttl (eng_ix e') = ttl (eng_ix e)"

lemma hook_frame [simp]:
  "eng_ix (call_hook b c e) = eng_ix e" "eng_store (call_hook b c e) = eng_store e"
  "eng_repo (call_hook b c e) = eng_repo e" "eng_rules (call_hook b c e) = eng_rules e"
  "eng_replaying (call_hook b c e) = eng_replaying e" "eng_clf (call_hook b c e) = eng_clf e"
  "eng_clock (call_hook b c e) = eng_clock e" "eng_ticks (call_hook b c e) = eng_ticks e"
  by (simp_all add: call_hook_def)

lemmas hook_defs = fire_def fireMatch_def fireBreak_def notifyOpen_def

lemma eng_inv_hook [simp]: "eng_inv repo proj good (call_hook b c e) = eng_inv repo proj good e"
  by (simp add: eng_inv_def)

lemma eng_ok_hook [simp]: "eng_ok repo proj good e (call_hook b c e') = eng_ok repo proj good e e'"
  by (simp add: eng_ok_def)

lemma eng_ok_refl: "eng_inv repo proj good e \<Longrightarrow> eng_ok repo proj good e e"
  by (simp add: eng_ok_def)

text \<open>The legs of a change set leave the index, unless they are open.\<close>

lemma open_legs_closing:
  assumes "distinct (map ID (csLegs cs))" "\<forall>l \<in> set (csLegs cs). Status l \<noteq> LegOpen"
  shows "open_legs (apply_spec cs p) i = (if i \<in> ID ` set (csLegs cs) then None else open_legs p i)"
  using assms open_legs_apply_other [of i cs p] open_legs_apply_leg [OF assms(1)] by (auto simp: image_iff)

subsection \<open>What a change set says of an outcome\<close>

definition match_cs :: "Leg \<Rightarrow> Match \<Rightarrow> ChangeSet \<Rightarrow> bool" where
  "match_cs l m cs \<longleftrightarrow>
     csMatches cs = [m] \<and> ID l \<in> set (MLegIDs m) \<and> ID ` set (csLegs cs) = set (MLegIDs m) \<and>
     (\<forall>x \<in> set (csLegs cs). Status x = LegMatched \<and> MatchID x = MID m)"

definition break_cs :: "Leg \<Rightarrow> Break \<Rightarrow> ChangeSet \<Rightarrow> bool" where
  "break_cs l b cs \<longleftrightarrow>
     csMatches cs = [] \<and> csBreaks cs = [b] \<and> BStatus b = BreakOpen \<and> ID l \<in> set (BLegIDs b) \<and>
     BLegIDs b = map ID (csLegs cs) \<and> (\<forall>x \<in> set (csLegs cs). Status x = LegBroken \<and> BreakID x = BID b)"

definition outcome_cs :: "Leg \<Rightarrow> IngestResult \<Rightarrow> ChangeSet \<Rightarrow> bool" where
  "outcome_cs l r cs \<longleftrightarrow>
     r_LegID r = ID l \<and>
     (r_Outcome r = OutcomeMatched \<and>
        (\<exists>m. match_cs l m cs \<and> csBreaks cs = [] \<and> r_MatchID r = MID m \<and> r_RuleID r = MRuleID m) \<or>
      r_Outcome r = OutcomeResolvedBreak \<and>
        (\<exists>m b. match_cs l m cs \<and> csBreaks cs = [b] \<and> BStatus b = BreakResolved \<and>
           r_MatchID r = MID m \<and> r_BreakID r = BID b \<and> r_RuleID r = RuleT2Late) \<or>
      r_Outcome r = OutcomeBreak \<and> (\<exists>b. break_cs l b cs \<and> r_BreakID r = BID b) \<or>
      r_Outcome r = OutcomeOpen \<and> csLegs cs = [l\<lparr>Status := LegOpen\<rparr>] \<and> csMatches cs = [] \<and> csBreaks cs = [])"

text \<open>The legs of the change set are the new leg and stored ones.\<close>

definition only_new :: "Leg \<Rightarrow> ChangeSet \<Rightarrow> Proj \<Rightarrow> bool" where
  "only_new l cs p \<longleftrightarrow> (\<forall>x \<in> set (csLegs cs). ID x = ID l \<or> p_legs p (ID x) \<noteq> None)"

text \<open>The change set a new leg starts from: at most its \<open>leg.ingested\<close> event.\<close>

definition base_cs :: "ChangeSet \<Rightarrow> bool" where
  "base_cs cs \<longleftrightarrow> csLegs cs = [] \<and> csMatches cs = [] \<and> csBreaks cs = []"

definition adds_events :: "ChangeSet \<Rightarrow> ChangeSet \<Rightarrow> bool" where
  "adds_events cs cs' \<longleftrightarrow>
     (\<exists>evs. csEvents cs' = csEvents cs @ evs \<and> (\<forall>ev \<in> set evs. Type ev \<noteq> EvLegIngested \<and> Type ev \<noteq> EvLegDuplicate))"

lemma openBreak_cs:
  assumes "openBreak sha256 e cs now trigger related legs = Inr (b, cs')"
  shows "csLegs cs' = csLegs cs @ map (mark_broken (BID b)) legs" "csMatches cs' = csMatches cs"
    "csBreaks cs' = csBreaks cs @ [b]" "BLegIDs b = map ID legs" "BStatus b = BreakOpen" "adds_events cs cs'"
    "BTrigger b = trigger" "OpenedAt b = now" "BID b = DeriveID sha256 ''brk'' (map ID legs)"
  using assms by (auto simp: openBreak_def Let_def addEvent_Inr adds_events_def split: sum.splits)

text \<open>The legs of a match, as the engine collects them from the index.\<close>

lemma match_legs_of_facts:
  assumes ok: "ix_ok ix" and none: "Get ix (ID l) = None" and shape: "legs_shape ix l m"
  shows "distinct (map ID (match_legs_of ix l m))" "ID ` set (match_legs_of ix l m) = set (MLegIDs m)"
    "ID l \<in> set (MLegIDs m)"
    "x \<in> set (match_legs_of ix l m) \<Longrightarrow> x = mark_matched (MID m) l \<or>
       (\<exists>c. Get ix (ID x) = Some c \<and> x = mark_matched (MID m) c)"
proof -
  obtain ids where ids: "mset (MLegIDs m) = mset (ID l # ids)" "distinct ids" "ID l \<notin> set ids"
    "\<forall>i \<in> set ids. \<exists>c. Get ix i = Some c \<and> Key c = Key l"
    using shape unfolding legs_shape_def by blast
  define rest where "rest = filter (\<lambda>i. i \<noteq> ID l) (MLegIDs m)"
  let ?p = "\<lambda>i. mark_matched (MID m) (case Get ix i of None \<Rightarrow> zero_leg | Some p \<Rightarrow> p)"
  have ls: "match_legs_of ix l m = mark_matched (MID m) l # map ?p rest"
    by (simp add: match_legs_of_def rest_def)
  have set: "set (MLegIDs m) = insert (ID l) (set ids)" using mset_eq_setD [OF ids(1)] by simp
  have "distinct (MLegIDs m)" using ids(1-3) by (metis distinct.simps(2) mset_eq_imp_distinct_iff)
  then have rest: "distinct rest" "set rest = set ids" using set ids(3) by (auto simp: rest_def)
  have get: "\<exists>c. Get ix i = Some c \<and> ?p i = mark_matched (MID m) c \<and> ID (?p i) = i" if "i \<in> set rest" for i
  proof -
    from that have "i \<in> set ids" by (simp only: rest(2))
    then obtain c where "Get ix i = Some c" using ids(4) by auto
    then show ?thesis using Get_ID [OF ok] by simp
  qed
  then have "ID (?p i) = i" if "i \<in> set rest" for i using that by blast
  then have "map (\<lambda>i. ID (?p i)) rest = rest" by (rule map_idI)
  then have "map ID (map ?p rest) = rest" by (simp only: map_map o_def)
  then have map_ids: "map ID (match_legs_of ix l m) = ID l # rest" by (simp add: ls)
  show "distinct (map ID (match_legs_of ix l m))" unfolding map_ids using rest ids(3) by simp
  show "ID l \<in> set (MLegIDs m)" using set by simp
  have "ID ` set (match_legs_of ix l m) = set (map ID (match_legs_of ix l m))" by simp
  then show "ID ` set (match_legs_of ix l m) = set (MLegIDs m)" unfolding map_ids using rest(2) set by simp
  assume "x \<in> set (match_legs_of ix l m)"
  then consider "x = mark_matched (MID m) l" | i where "i \<in> set rest" "x = ?p i" unfolding ls by auto
  then show "x = mark_matched (MID m) l \<or> (\<exists>c. Get ix (ID x) = Some c \<and> x = mark_matched (MID m) c)"
  proof cases
    case (2 i)
    obtain c where c: "Get ix i = Some c" "?p i = mark_matched (MID m) c" "ID (?p i) = i" using get [OF 2(1)] by blast
    then have "Get ix (ID x) = Some c \<and> x = mark_matched (MID m) c" by (simp only: 2(2))
    then show ?thesis by blast
  qed simp
qed

lemma legs_shape_at [simp]: "legs_shape ix l (m\<lparr>MatchedAt := now\<rparr>) = legs_shape ix l m"
  by (simp add: legs_shape_def)

text \<open>The leg as it is stored: with the time of its ingestion.\<close>

definition stamped :: "'s Engine \<Rightarrow> Leg \<Rightarrow> Leg" where
  "stamped e l = (if IsZero (IngestedAt l) then l\<lparr>IngestedAt := eng_clock e (eng_ticks e)\<rparr> else l)"

lemma stamped_simps [simp]:
  "ID (stamped e l) = ID l" "TxnRef (stamped e l) = TxnRef l" "Source (stamped e l) = Source l"
  by (simp_all add: stamped_def)

definition ingested_event :: "'s Engine \<Rightarrow> string \<Rightarrow> Leg \<Rightarrow> Event" where
  "ingested_event e typ l =
     \<lparr>Seq = 0, Type = typ, At = eng_clock e (eng_ticks e), AggregateID = ID l, Payload = PLeg (stamped e l)\<rparr>"

definition first_cs :: "'s Engine \<Rightarrow> string \<Rightarrow> Leg \<Rightarrow> ChangeSet" where
  "first_cs e typ l = empty_cs\<lparr>csEvents := (if eng_replaying e then [] else [ingested_event e typ l])\<rparr>"

text \<open>What a successful \<open>ingestOne\<close> did, from the projections before and after.\<close>

definition ingested :: "'s Engine \<Rightarrow> Leg \<Rightarrow> IngestResult \<Rightarrow> Proj \<Rightarrow> Proj \<Rightarrow> bool" where
  "ingested e l r p p' \<longleftrightarrow>
     (if p_legs p (ID l) \<noteq> None
      then r = ingest_result (ID l) OutcomeDuplicate '''' '''' '''' \<and>
        p' = apply_spec (first_cs e EvLegDuplicate l) p
      else \<exists>cs'. legal_cs cs' p \<and> p' = apply_spec cs' p \<and> outcome_cs (stamped e l) r cs' \<and>
        adds_events (first_cs e EvLegIngested l) cs' \<and> only_new (stamped e l) cs' p)"

lemma apply_spec_empty: "apply_spec empty_cs p = p"
  by (simp add: apply_spec_def empty_cs_def)

lemma empty_cs_simps [simp]:
  "csLegs empty_cs = []" "csMatches empty_cs = []" "csBreaks empty_cs = []" "csEvents empty_cs = []"
  by (simp_all add: empty_cs_def)

lemma legal_no_legs: "csLegs cs = [] \<Longrightarrow> legal_cs cs p"
  by (simp add: legal_cs_def)

lemma open_legs_no_legs: "csLegs cs = [] \<Longrightarrow> open_legs (apply_spec cs p) = open_legs p"
  by (simp add: fun_eq_iff open_legs_def)

subsection \<open>The operations, over any repository\<close>

context repository
begin

lemma inv_simps:
  assumes "eng_inv repo proj good e"
  shows "eng_repo e = repo" "good (eng_store e)" "ix_ok (eng_ix e)" "Get (eng_ix e) = open_legs (proj (eng_store e))"
  using assms by (simp_all add: eng_inv_def)

lemma inv_ticks [simp]: "eng_inv repo proj good (e\<lparr>eng_ticks := n\<rparr>) = eng_inv repo proj good e"
  by (simp add: eng_inv_def)

text \<open>A change set that fails leaves everything as it was; one that lands is followed by the index.\<close>

lemma apply_failed:
  assumes inv: "eng_inv repo proj good e" and legal: "legal_cs cs (proj (eng_store e))"
    and a: "eng_apply e cs = (Some err, e')"
  shows "eng_ok repo proj good e e'"
proof -
  obtain s' where s': "repo_Apply repo (eng_store e) cs = (Some err, s')" "e' = e\<lparr>eng_store := s'\<rparr>"
    using a inv_simps(1) [OF inv] by (auto simp: eng_apply_def split: prod.splits)
  have "good s' \<and> proj s' = proj (eng_store e)"
    by (rule apply_err [OF inv_simps(2) [OF inv] legal_updates [OF legal] s'(1)])
  then show ?thesis using inv by (simp add: s'(2) eng_ok_def eng_inv_def)
qed

lemma apply_landed:
  assumes inv: "eng_inv repo proj good e" and legal: "legal_cs cs (proj (eng_store e))"
    and a: "eng_apply e cs = (None, e')"
  shows "eng_repo e' = repo" "good (eng_store e')" "proj (eng_store e') = apply_spec cs (proj (eng_store e))"
    "eng_ix e' = eng_ix e" "eng_rules e' = eng_rules e" "eng_replaying e' = eng_replaying e"
    "eng_clock e' = eng_clock e"
proof -
  obtain s' where s': "repo_Apply repo (eng_store e) cs = (None, s')" "e' = e\<lparr>eng_store := s'\<rparr>"
    using a inv_simps(1) [OF inv] by (auto simp: eng_apply_def split: prod.splits)
  have s: "good s' \<and> proj s' = apply_spec cs (proj (eng_store e))"
    by (rule apply_ok [OF inv_simps(2) [OF inv] legal_updates [OF legal] s'(1)])
  then show "good (eng_store e')" "proj (eng_store e') = apply_spec cs (proj (eng_store e))"
    by (simp_all add: s'(2))
  show "eng_repo e' = repo" using inv_simps(1) [OF inv] by (simp add: s'(2))
qed (use a in \<open>auto simp: eng_apply_def split: prod.splits\<close>)

lemma apply_ok_index:
  assumes inv: "eng_inv repo proj good e" and legal: "legal_cs cs (proj (eng_store e))"
    and a: "eng_apply e cs = (None, e')"
    and ix: "ix_ok ix'" "Get ix' = open_legs (apply_spec cs (proj (eng_store e)))" "ttl ix' = ttl (eng_ix e)"
  shows "eng_ok repo proj good e (e'\<lparr>eng_ix := ix'\<rparr>)"
  using apply_landed [OF inv legal a] ix legal unfolding eng_ok_def eng_inv_def evolves_def by auto

lemma apply_ok_same:
  assumes inv: "eng_inv repo proj good e" and legal: "legal_cs cs (proj (eng_store e))"
    and a: "eng_apply e cs = (None, e')"
    and same: "open_legs (apply_spec cs (proj (eng_store e))) = open_legs (proj (eng_store e))"
  shows "eng_ok repo proj good e e'"
proof -
  have "eng_ok repo proj good e (e'\<lparr>eng_ix := eng_ix e\<rparr>)"
    by (rule apply_ok_index [OF inv legal a]) (simp_all add: inv_simps [OF inv] same)
  then show ?thesis using apply_landed(4) [OF inv legal a] by (simp add: eng_ok_def eng_inv_def)
qed

text \<open>The branches for a new leg. Each result, good or bad, keeps the invariant.\<close>

definition landed :: "'s Engine \<Rightarrow> ChangeSet \<Rightarrow> Leg \<Rightarrow> IngestResult result \<Rightarrow> 's Engine \<Rightarrow> bool" where
  "landed e cs l res e' \<longleftrightarrow>
     eng_ok repo proj good e e' \<and>
     (case res of
        Inl _ \<Rightarrow> proj (eng_store e') = proj (eng_store e)
      | Inr r \<Rightarrow> \<exists>cs'. legal_cs cs' (proj (eng_store e)) \<and>
          proj (eng_store e') = apply_spec cs' (proj (eng_store e)) \<and> outcome_cs l r cs' \<and> adds_events cs cs' \<and>
          only_new l cs' (proj (eng_store e)))"

lemma landed_error:
  assumes inv: "eng_inv repo proj good e" and legal: "legal_cs cs' (proj (eng_store e))"
    and a: "eng_apply e cs' = (Some err, e')"
  shows "landed e cs l (Inl err) e'"
proof -
  obtain s' where s': "repo_Apply repo (eng_store e) cs' = (Some err, s')" "e' = e\<lparr>eng_store := s'\<rparr>"
    using a inv_simps(1) [OF inv] by (auto simp: eng_apply_def split: prod.splits)
  have "proj (eng_store e') = proj (eng_store e)"
    using apply_err [OF inv_simps(2) [OF inv] legal_updates [OF legal] s'(1)] by (simp add: s'(2))
  then show ?thesis using apply_failed [OF inv legal a] by (simp add: landed_def)
qed

lemma landed_refused: "eng_inv repo proj good e \<Longrightarrow> landed e cs l (Inl err) e"
  by (simp add: landed_def eng_ok_refl)

lemma landed_hook [simp]: "landed e cs l res (call_hook b c e') = landed e cs l res e'"
  by (simp add: landed_def split: sum.splits)

lemma landed_index:
  assumes inv: "eng_inv repo proj good e" and legal: "legal_cs cs' (proj (eng_store e))"
    and a: "eng_apply e cs' = (None, e')"
    and ix: "ix_ok ix'" "Get ix' = open_legs (apply_spec cs' (proj (eng_store e)))" "ttl ix' = ttl (eng_ix e)"
    and o: "outcome_cs l r cs'" "adds_events cs cs'" "only_new l cs' (proj (eng_store e))"
  shows "landed e cs l (Inr r) (e'\<lparr>eng_ix := ix'\<rparr>)"
  using apply_ok_index [OF inv legal a ix] apply_landed(3) [OF inv legal a] legal o
  by (auto simp: landed_def)

lemma landed_same:
  assumes inv: "eng_inv repo proj good e" and legal: "legal_cs cs' (proj (eng_store e))"
    and a: "eng_apply e cs' = (None, e')"
    and same: "open_legs (apply_spec cs' (proj (eng_store e))) = open_legs (proj (eng_store e))"
    and o: "outcome_cs l r cs'" "adds_events cs cs'" "only_new l cs' (proj (eng_store e))"
  shows "landed e cs l (Inr r) e'"
  using apply_ok_same [OF inv legal a same] apply_landed(3) [OF inv legal a] legal o
  by (auto simp: landed_def)

lemma ingest_break_landed:
  assumes inv: "eng_inv repo proj good e" and new: "p_legs (proj (eng_store e)) (ID l) = None" and base: "base_cs cs"
    and r: "ingest_break sha256 e cs now trigger related l = (res, e')"
  shows "landed e cs l res e'"
proof (cases "openBreak sha256 e cs now trigger related [l]")
  case (Inl err)
  then show ?thesis using r landed_refused [OF inv] by (auto simp: ingest_break_def)
next
  case (Inr bc)
  obtain b cs' where bc: "bc = (b, cs')" by (cases bc)
  note cs' = openBreak_cs [OF Inr [unfolded bc]]
  have legs: "csLegs cs' = [mark_broken (BID b) l]" using cs'(1) base by (simp add: base_cs_def)
  have legal: "legal_cs cs' (proj (eng_store e))" using new by (simp add: legal_cs_def legs)
  have same: "open_legs (apply_spec cs' (proj (eng_store e))) = open_legs (proj (eng_store e))"
    using new by (auto simp: fun_eq_iff open_legs_closing legs open_legs_def)
  have o: "outcome_cs l (ingest_result (ID l) OutcomeBreak '''' (BID b) '''') cs'"
    using cs' base legs by (auto simp: outcome_cs_def ingest_result_def break_cs_def base_cs_def mark_broken_def)
  have only: "only_new l cs' (proj (eng_store e))" by (simp add: only_new_def legs)
  have c: "commit e cs' l (ingest_result (ID l) OutcomeBreak '''' (BID b) '''') = (res, e')"
    using r Inr by (simp add: ingest_break_def bc)
  show ?thesis
  proof (cases "eng_apply e cs'")
    case (Pair err e1)
    then show ?thesis
      using c landed_error [OF inv legal] landed_same [OF inv legal _ same o cs'(6) only]
      by (cases err) (auto simp: commit_def Let_def hook_defs split: if_splits)
  qed
qed

lemma ingest_wait_landed:
  assumes inv: "eng_inv repo proj good e" and new: "p_legs (proj (eng_store e)) (ID l) = None" and base: "base_cs cs"
    and r: "ingest_wait e cs l = (res, e')"
  shows "landed e cs l res e'"
proof -
  let ?l = "l\<lparr>Status := LegOpen\<rparr>"
  let ?cs = "cs\<lparr>csLegs := csLegs cs @ [?l]\<rparr>"
  have legs: "csLegs ?cs = [?l]" using base by (simp add: base_cs_def)
  have legal: "legal_cs ?cs (proj (eng_store e))" using new by (simp add: legal_cs_def legs)
  have none: "Get (eng_ix e) (ID l) = None" using inv_simps(4) [OF inv] new by (simp add: open_legs_def)
  have get: "Get (Add (eng_ix e) ?l) = open_legs (apply_spec ?cs (proj (eng_store e)))"
    using none inv_simps(4) [OF inv] base by (auto simp: Get_Add fun_eq_iff open_legs_def base_cs_def)
  have o: "outcome_cs l (ingest_result (ID l) OutcomeOpen '''' '''' '''') ?cs" "adds_events cs ?cs"
    "only_new l ?cs (proj (eng_store e))"
    using base by (auto simp: outcome_cs_def ingest_result_def base_cs_def adds_events_def only_new_def)
  obtain err e1 where a: "eng_apply e ?cs = (err, e1)" by (cases "eng_apply e ?cs")
  show ?thesis
  proof (cases err)
    case None
    then have e1: "eng_apply e ?cs = (None, e1)" using a by simp
    have "landed e cs l (Inr (ingest_result (ID l) OutcomeOpen '''' '''' '''')) (e1\<lparr>eng_ix := Add (eng_ix e) ?l\<rparr>)"
      by (rule landed_index [OF inv legal e1 _ get _ o]) (simp_all add: ix_ok_Add inv_simps(3) [OF inv])
    then show ?thesis
      using r e1 apply_landed(4) [OF inv legal e1] by (auto simp: ingest_wait_def Let_def hook_defs)
  next
    case (Some x)
    then show ?thesis using r a landed_error [OF inv legal] by (auto simp: ingest_wait_def Let_def)
  qed
qed

lemma open_leg_stored:
  assumes "eng_inv repo proj good e" "Get (eng_ix e) i = Some c"
  shows "p_legs (proj (eng_store e)) i = Some c" "Status c = LegOpen" "ID c = i"
  using assms inv_simps(4) [OF assms(1)] Get_ID [OF inv_simps(3) [OF assms(1)] assms(2)]
  by (auto simp: open_legs_Some)

lemma ingest_match_landed:
  assumes inv: "eng_inv repo proj good e" and new: "p_legs (proj (eng_store e)) (ID l) = None" and base: "base_cs cs"
    and f: "matcher_find sha256 (eng_rules e) l (eng_ix e) ex = Some m0"
    and r: "ingest_match e cs now l m0 = (res, e')"
  shows "landed e cs l res e'"
proof -
  define m where "m = m0\<lparr>MatchedAt := now\<rparr>"
  define ls where "ls = match_legs_of (eng_ix e) l m"
  have none: "Get (eng_ix e) (ID l) = None" using inv_simps(4) [OF inv] new by (simp add: open_legs_def)
  have shape: "legs_shape (eng_ix e) l m"
    using find_shape [OF inv_simps(3) [OF inv] none f] by (simp add: m_def)
  note ls = match_legs_of_facts [OF inv_simps(3) [OF inv] none shape, folded ls_def]
  have st: "Status x = LegMatched \<and> MatchID x = MID m" if "x \<in> set ls" for x
    using ls(4) [OF that] by (auto simp: mark_matched_def)
  have adv: "advances c x" if "x \<in> set ls" "p_legs (proj (eng_store e)) (ID x) = Some c" for x c
    using ls(4) [OF that(1)]
  proof
    assume "x = mark_matched (MID m) l"
    then show ?thesis using that(2) new by simp
  next
    assume "\<exists>c. Get (eng_ix e) (ID x) = Some c \<and> x = mark_matched (MID m) c"
    then obtain c' where c': "Get (eng_ix e) (ID x) = Some c'" "x = mark_matched (MID m) c'" by blast
    have "Some c' = Some c" using open_leg_stored(1) [OF inv c'(1)] that(2) by (rule trans [OF sym])
    then show ?thesis using c'(2) open_leg_stored(2) [OF inv c'(1)] unfolding advances_def by blast
  qed
  show ?thesis
  proof (cases "addEvent (cs\<lparr>csLegs := csLegs cs @ ls, csMatches := csMatches cs @ [m]\<rparr>) EvMatchCreated now (MID m) (PMatch m)")
    case (Inl err)
    then show ?thesis using r landed_refused [OF inv] by (auto simp: ingest_match_def Let_def m_def ls_def)
  next
    case (Inr cs')
    then have cs': "csLegs cs' = ls" "csMatches cs' = [m]" "csBreaks cs' = []" "adds_events cs cs'"
      using base by (auto simp: addEvent_Inr base_cs_def adds_events_def)
    have legal: "legal_cs cs' (proj (eng_store e))"
      using ls(1) st adv unfolding legal_cs_def cs'(1) by blast
    have o: "outcome_cs l (ingest_result (ID l) OutcomeMatched (MID m) '''' (MRuleID m)) cs'"
      using cs' ls(2,3) st by (auto simp: outcome_cs_def ingest_result_def match_cs_def)
    have only: "only_new l cs' (proj (eng_store e))"
      unfolding only_new_def cs'(1)
    proof
      fix x assume "x \<in> set ls"
      from ls(4) [OF this] show "ID x = ID l \<or> p_legs (proj (eng_store e)) (ID x) \<noteq> None"
      proof
        assume "\<exists>c. Get (eng_ix e) (ID x) = Some c \<and> x = mark_matched (MID m) c"
        then obtain c where "Get (eng_ix e) (ID x) = Some c" by blast
        then show ?thesis using open_leg_stored(1) [OF inv] by simp
      qed simp
    qed
    have "open_legs (apply_spec cs' (proj (eng_store e))) i = Get (Remove (eng_ix e) (MLegIDs m)) i" for i
      using open_legs_closing [of cs' "proj (eng_store e)" i] ls(1,2) st
      by (simp add: cs'(1) Get_Remove inv_simps(4) [OF inv])
    then have get: "Get (Remove (eng_ix e) (MLegIDs m)) = open_legs (apply_spec cs' (proj (eng_store e)))" by auto
    obtain err e1 where a: "eng_apply e cs' = (err, e1)" by (cases "eng_apply e cs'")
    show ?thesis
    proof (cases err)
      case None
      then have e1: "eng_apply e cs' = (None, e1)" using a by simp
      have "landed e cs l (Inr (ingest_result (ID l) OutcomeMatched (MID m) '''' (MRuleID m)))
          (e1\<lparr>eng_ix := Remove (eng_ix e) (MLegIDs m)\<rparr>)"
        by (rule landed_index [OF inv legal e1 _ get _ o cs'(4) only]) (simp_all add: ix_ok_Remove inv_simps(3) [OF inv])
      moreover have "res = Inr (ingest_result (ID l) OutcomeMatched (MID m) '''' (MRuleID m))"
        "e' = fireMatch (fire (e1\<lparr>eng_ix := Remove (eng_ix e) (MLegIDs m)\<rparr>) (mark_matched (MID m) l) OutcomeMatched) m"
        using r Inr e1 apply_landed(4) [OF inv legal e1]
        by (auto simp: ingest_match_def Let_def m_def [symmetric] ls_def [symmetric])
      ultimately show ?thesis by (simp add: hook_defs)
    next
      case (Some x)
      then show ?thesis using r Inr a landed_error [OF inv legal]
        by (auto simp: ingest_match_def Let_def m_def [symmetric] ls_def [symmetric])
    qed
  qed
qed

lemma fold_Remove: "fold (\<lambda>p ix. Remove ix [ID p]) ps ix = Remove ix (map ID ps)"
  unfolding Remove_def by (induction ps arbitrary: ix) simp_all

lemma ingest_conflict_landed:
  assumes inv: "eng_inv repo proj good e" and new: "p_legs (proj (eng_store e)) (ID l) = None" and base: "base_cs cs"
    and r: "ingest_conflict sha256 e cs now related l (ByRef (eng_ix e) l) = (res, e')"
  shows "landed e cs l res e'"
proof (cases "openBreak sha256 e cs now TriggerRefConflict related (l # ByRef (eng_ix e) l)")
  case (Inl err)
  then show ?thesis using r landed_refused [OF inv] by (auto simp: ingest_conflict_def)
next
  case (Inr bc)
  obtain b cs' where bc: "bc = (b, cs')" by (cases bc)
  note cs' = openBreak_cs [OF Inr [unfolded bc]]
  define ps where "ps = ByRef (eng_ix e) l"
  note ix = inv_simps(3) [OF inv]
  have ps: "Get (eng_ix e) (ID c) = Some c \<and> ID c \<noteq> ID l" if "c \<in> set ps" for c
    using that by (simp add: ps_def ByRef_query [OF ix] set_query [OF ix])
  have dist: "distinct (map ID (l # ps))"
  proof -
    have "distinct (map ID ps)"
      using ps by (intro ids_distinct [OF ix]) (auto simp: ps_def ByRef_query [OF ix] distinct_query [OF ix])
    then show ?thesis using ps by fastforce
  qed
  have legs: "csLegs cs' = map (mark_broken (BID b)) (l # ps)"
    using cs'(1) base by (simp add: base_cs_def ps_def)
  have ids: "map ID (csLegs cs') = map ID (l # ps)" by (simp add: legs)
  have st: "Status x = LegBroken \<and> BreakID x = BID b" if "x \<in> set (csLegs cs')" for x
    using that unfolding legs by (auto simp: mark_broken_def)
  have adv: "advances c x" if x: "x \<in> set (csLegs cs')" "p_legs (proj (eng_store e)) (ID x) = Some c" for x c
  proof -
    obtain p where p: "p \<in> set (l # ps)" "x = mark_broken (BID b) p" using x(1) unfolding legs by auto
    then have "p \<noteq> l" using x(2) new by auto
    then have g: "Get (eng_ix e) (ID p) = Some p" using p(1) ps by simp
    have "Some p = Some c" using open_leg_stored(1) [OF inv g] x(2) unfolding p(2) mark_simps by (rule trans [OF sym])
    then show ?thesis using p(2) open_leg_stored(2) [OF inv g] unfolding advances_def by blast
  qed
  have legal: "legal_cs cs' (proj (eng_store e))"
    unfolding legal_cs_def ids using dist st adv by blast
  have o: "outcome_cs l (ingest_result (ID l) OutcomeBreak '''' (BID b) '''') cs'"
    using cs'(2-5) base ids st by (auto simp: outcome_cs_def ingest_result_def break_cs_def base_cs_def ps_def)
  have only: "only_new l cs' (proj (eng_store e))"
    unfolding only_new_def
  proof
    fix x assume "x \<in> set (csLegs cs')"
    then obtain p where "p \<in> set (l # ps)" "x = mark_broken (BID b) p" unfolding legs set_map by (rule imageE)
    then have p: "p = l \<or> p \<in> set ps" "ID x = ID p" by simp_all
    show "ID x = ID l \<or> p_legs (proj (eng_store e)) (ID x) \<noteq> None"
    proof (cases "p = l")
      case False
      then have "Get (eng_ix e) (ID p) = Some p" using p(1) ps by blast
      then show ?thesis using open_leg_stored(1) [OF inv] by (simp add: p(2))
    qed (simp add: p(2))
  qed
  have "open_legs (apply_spec cs' (proj (eng_store e))) i = Get (Remove (eng_ix e) (map ID ps)) i" for i
  proof -
    have "ID ` set (csLegs cs') = set (map ID (l # ps))" using arg_cong [OF ids, of set] by simp
    then have "open_legs (apply_spec cs' (proj (eng_store e))) i =
        (if i \<in> set (map ID (l # ps)) then None else open_legs (proj (eng_store e)) i)"
      using open_legs_closing [of cs' "proj (eng_store e)" i] dist st unfolding ids by simp
    then show ?thesis using new inv_simps(4) [OF inv] by (auto simp: Get_Remove open_legs_def)
  qed
  then have get: "Get (Remove (eng_ix e) (map ID ps)) = open_legs (apply_spec cs' (proj (eng_store e)))" by auto
  obtain err e1 where a: "eng_apply e cs' = (err, e1)" by (cases "eng_apply e cs'")
  show ?thesis
  proof (cases err)
    case None
    then have e1: "eng_apply e cs' = (None, e1)" using a by simp
    have "landed e cs l (Inr (ingest_result (ID l) OutcomeBreak '''' (BID b) ''''))
        (e1\<lparr>eng_ix := Remove (eng_ix e) (map ID ps)\<rparr>)"
      by (rule landed_index [OF inv legal e1 _ get _ o cs'(6) only]) (simp_all add: ix_ok_Remove ix)
    then show ?thesis
      using r Inr e1 apply_landed(4) [OF inv legal e1]
      by (auto simp: ingest_conflict_def bc Let_def hook_defs fold_Remove ps_def)
  next
    case (Some x)
    then show ?thesis using r Inr a landed_error [OF inv legal] by (auto simp: ingest_conflict_def bc)
  qed
qed

lemma late_candidate_Some:
  "late_candidate e l related = Some (r, b) \<Longrightarrow>
     r \<in> set related \<and> Source r \<noteq> Source l \<and> Status r = LegBroken \<and> Currency r = Currency l \<and>
     WithinTolerance (eng_rules e) (AmountMinor l) (AmountMinor r) \<and>
     repo_GetBreak (eng_repo e) (eng_store e) (BreakID r) = Inr b \<and> BStatus b = BreakOpen \<and> length (BLegIDs b) = 1"
  by (induction related) (auto split: if_splits sum.splits)

lemma ingest_late_landed:
  assumes inv: "eng_inv repo proj good e" and new: "p_legs (proj (eng_store e)) (ID l) = None" and base: "base_cs cs"
    and stored: "p_legs (proj (eng_store e)) (ID r0) = Some r0" "Status r0 = LegBroken"
    and res: "ingest_late sha256 e cs now l r0 b0 = (res, e')"
  shows "landed e cs l res e'"
proof -
  define m where "m = (pair sha256 l r0 TierTolerant RuleT2Late (f64 (tolerantConfidence (i64 (AmountMinor r0 - AmountMinor l))
     (Tolerance (eng_rules e) (AmountMinor l)) - f64 (5 / 100))))\<lparr>MatchedAt := now\<rparr>"
  define r where "r = (mark_matched (MID m) r0)\<lparr>BreakID := ''''\<rparr>"
  define b where "b = b0\<lparr>BStatus := BreakResolved, ResolvedAt := Some now,
     BReason := ''late arrival matched by '' @ RuleT2Late, BActor := ''system''\<rparr>"
  define cs0 where "cs0 = cs\<lparr>csLegs := csLegs cs @ [mark_matched (MID m) l, r], csMatches := csMatches cs @ [m],
     csBreaks := csBreaks cs @ [b]\<rparr>"
  define pl where "pl = PResolution \<lparr>rp_BreakID = BID b, rp_Reason = BReason b, rp_Actor = BActor b, rp_At = now,
     rp_MatchID = MID m\<rparr>"
  have eq: "ingest_late sha256 e cs now l r0 b0 =
      (case addEvent cs0 EvMatchCreated now (MID m) (PMatch m) of
         Inl err \<Rightarrow> (Inl err, e)
       | Inr cs \<Rightarrow>
           (case addEvent cs EvBreakResolved now (BID b) pl of
              Inl err \<Rightarrow> (Inl err, e)
            | Inr cs \<Rightarrow>
                (case eng_apply e cs of
                   (Some err, e) \<Rightarrow> (Inl err, e)
                 | (None, e) \<Rightarrow>
                     (Inr (ingest_result (ID l) OutcomeResolvedBreak (MID m) (BID b) (MRuleID m)),
                      fireMatch (fire e (mark_matched (MID m) l) OutcomeResolvedBreak) m))))"
    by (simp only: ingest_late_def Let_def m_def [symmetric] r_def [symmetric] b_def [symmetric] cs0_def [symmetric]
        pl_def [symmetric] mark_simps)
  have ne: "ID l \<noteq> ID r0" using new stored(1) by auto
  show ?thesis
  proof (cases "addEvent cs0 EvMatchCreated now (MID m) (PMatch m)")
    case (Inl err)
    then show ?thesis using res eq landed_refused [OF inv] by auto
  next
    case 1: (Inr cs1)
    show ?thesis
    proof (cases "addEvent cs1 EvBreakResolved now (BID b) pl")
      case (Inl err)
      then show ?thesis using res eq 1 landed_refused [OF inv] by auto
    next
      case 2: (Inr cs')
      have cs': "csLegs cs' = [mark_matched (MID m) l, r]" "csMatches cs' = [m]" "csBreaks cs' = [b]" "adds_events cs cs'"
        using 1 2 base by (auto simp: addEvent_Inr base_cs_def adds_events_def cs0_def)
      have ids: "ID r = ID r0" "Status r = LegMatched" "MatchID r = MID m"
        by (simp_all add: r_def mark_matched_def)
      have legal: "legal_cs cs' (proj (eng_store e))"
        using ne new stored ids by (auto simp: legal_cs_def cs'(1) advances_def r_def)
      have "MLegIDs m = sort [ID l, ID r0]" by (simp add: m_def pair_def Let_def)
      then have o: "outcome_cs l (ingest_result (ID l) OutcomeResolvedBreak (MID m) (BID b) (MRuleID m)) cs'"
        using cs' ids by (auto simp: outcome_cs_def ingest_result_def match_cs_def m_def b_def mark_matched_def)
      have only: "only_new l cs' (proj (eng_store e))" using stored(1) ids by (simp add: only_new_def cs'(1))
      have same: "open_legs (apply_spec cs' (proj (eng_store e))) = open_legs (proj (eng_store e))"
        using new stored ne ids by (auto simp: fun_eq_iff open_legs_closing cs'(1) open_legs_def)
      obtain err e1 where a: "eng_apply e cs' = (err, e1)" by (cases "eng_apply e cs'")
      show ?thesis
        using res eq 1 2 a landed_error [OF inv legal] landed_same [OF inv legal _ same o cs'(4) only]
        by (cases err) (auto simp: hook_defs)
    qed
  qed
qed

lemma ingest_new_landed:
  assumes inv: "eng_inv repo proj good e" and new: "p_legs (proj (eng_store e)) (ID l) = None" and base: "base_cs cs"
    and related: "repo_LegsByTxnRef (eng_repo e) (eng_store e) (TxnRef l) = Inr related"
    and r: "ingest_new sha256 e cs now related l = (res, e')"
  shows "landed e cs l res e'"
proof (cases "\<exists>r \<in> set related. Source r = Source l \<and> ID r \<noteq> ID l")
  case True
  then show ?thesis using r ingest_break_landed [OF inv new base] by (simp add: ingest_new_def)
next
  case step1: False
  show ?thesis
  proof (cases "matcher_find sha256 (eng_rules e) l (eng_ix e) (Some (ref_known e))")
    case (Some m)
    then show ?thesis using r step1 ingest_match_landed [OF inv new base Some] by (auto simp: ingest_new_def)
  next
    case step2: None
    show ?thesis
    proof (cases "ByRef (eng_ix e) l = []")
      case False
      then show ?thesis using r step1 step2 ingest_conflict_landed [OF inv new base] by (auto simp: ingest_new_def Let_def)
    next
      case step3: True
      show ?thesis
      proof (cases "late_candidate e l related")
        case (Some rb)
        obtain r0 b0 where rb: "rb = (r0, b0)" by (cases rb)
        have r0: "r0 \<in> set related" "Status r0 = LegBroken" using late_candidate_Some [OF Some [unfolded rb]] by auto
        have "set related = {x. \<exists>i. p_legs (proj (eng_store e)) i = Some x \<and> TxnRef x = TxnRef l}"
          using legs_by_ref [OF inv_simps(2) [OF inv]] related unfolding inv_simps(1) [OF inv] .
        then obtain i where i: "p_legs (proj (eng_store e)) i = Some r0" using r0(1) by blast
        then have "ID r0 = i" by (rule good_ids [OF inv_simps(2) [OF inv]])
        then have "p_legs (proj (eng_store e)) (ID r0) = Some r0" using i by simp
        from ingest_late_landed [OF inv new base this r0(2)] show ?thesis
          using r step1 step2 step3 Some rb by (auto simp: ingest_new_def Let_def)
      next
        case step4: None
        show ?thesis
          using r step1 step2 step3 step4 ingest_break_landed [OF inv new base] ingest_wait_landed [OF inv new base]
          by (auto simp: ingest_new_def Let_def split: if_splits)
      qed
    qed
  qed
qed

lemma ingest_duplicate_ok:
  assumes inv: "eng_inv repo proj good e" and r: "ingest_duplicate e now l = (res, e')"
  shows "eng_ok repo proj good e e' \<and> eng_ix e' = eng_ix e \<and>
    (case res of
       Inl _ \<Rightarrow> proj (eng_store e') = proj (eng_store e)
     | Inr r \<Rightarrow> r = ingest_result (ID l) OutcomeDuplicate '''' '''' '''' \<and>
         proj (eng_store e') = apply_spec (empty_cs\<lparr>csEvents := (if eng_replaying e then [] else
           [\<lparr>Seq = 0, Type = EvLegDuplicate, At = now, AggregateID = ID l, Payload = PLeg l\<rparr>])\<rparr>) (proj (eng_store e)))"
proof (cases "eng_replaying e")
  case True
  then show ?thesis
    using r eng_ok_refl [OF inv] by (auto simp: ingest_duplicate_def Let_def hook_defs apply_spec_def)
next
  case False
  show ?thesis
  proof (cases "addEvent empty_cs EvLegDuplicate now (ID l) (PLeg l)")
    case (Inl err)
    then show ?thesis using r False eng_ok_refl [OF inv] by (auto simp: ingest_duplicate_def Let_def)
  next
    case (Inr cs)
    then have cs: "cs = empty_cs\<lparr>csEvents := [\<lparr>Seq = 0, Type = EvLegDuplicate, At = now, AggregateID = ID l, Payload = PLeg l\<rparr>]\<rparr>"
      by (simp add: addEvent_Inr)
    have legal: "legal_cs cs (proj (eng_store e))" by (rule legal_no_legs) (simp add: cs)
    have same: "open_legs (apply_spec cs (proj (eng_store e))) = open_legs (proj (eng_store e))"
      by (rule open_legs_no_legs) (simp add: cs)
    obtain err e1 where a: "eng_apply e cs = (err, e1)" by (cases "eng_apply e cs")
    show ?thesis
    proof (cases err)
      case None
      then have e1: "eng_apply e cs = (None, e1)" using a by simp
      show ?thesis
        using r False Inr e1 apply_ok_same [OF inv legal e1 same] apply_landed(3,4) [OF inv legal e1]
        by (auto simp: ingest_duplicate_def Let_def hook_defs cs)
    next
      case (Some x)
      then have e1: "eng_apply e cs = (Some x, e1)" using a by simp
      have "landed e cs l (Inl x) e1" by (rule landed_error [OF inv legal e1])
      moreover have "eng_ix e1 = eng_ix e" using e1 by (auto simp: eng_apply_def split: prod.splits)
      ultimately show ?thesis using r False Inr e1 by (auto simp: ingest_duplicate_def Let_def landed_def)
    qed
  qed
qed

lemma ingestOne_spec:
  assumes inv: "eng_inv repo proj good e" and r: "ingestOne sha256 e l = (res, e')"
  shows "eng_ok repo proj good e e'"
    "res = Inl err \<Longrightarrow> proj (eng_store e') = proj (eng_store e)"
    "res = Inr out \<Longrightarrow> ingested e l out (proj (eng_store e)) (proj (eng_store e'))"
proof -
  define now where "now = eng_clock e (eng_ticks e)"
  define e0 where "e0 = e\<lparr>eng_ticks := eng_ticks e + 1\<rparr>"
  have e0: "eng_inv repo proj good e0" "eng_store e0 = eng_store e" "eng_replaying e0 = eng_replaying e"
    "eng_ok repo proj good e0 e1 = eng_ok repo proj good e e1" for e1
    using inv by (simp_all add: e0_def eng_ok_def)
  have one: "ingestOne sha256 e l = (case repo_HasLeg repo (eng_store e) (ID l) of
        Inl err \<Rightarrow> (Inl (Errorf ''dedupe lookup: '' err ''''), e0)
      | Inr seen \<Rightarrow>
          if seen then ingest_duplicate e0 now (stamped e l)
          else
            (case repo_LegsByTxnRef repo (eng_store e) (TxnRef l) of
               Inl err \<Rightarrow> (Inl (Errorf ''related lookup: '' err ''''), e0)
             | Inr related \<Rightarrow>
                 (case (if eng_replaying e then Inr empty_cs
                        else addEvent empty_cs EvLegIngested now (ID l) (PLeg (stamped e l))) of
                    Inl err \<Rightarrow> (Inl err, e0)
                  | Inr cs \<Rightarrow> ingest_new sha256 e0 cs now related (stamped e l))))"
    using stamped_def [of e l, folded now_def, symmetric]
    by (simp only: ingestOne_def read_clock_def Let_def prod.case now_def [symmetric]
        e0_def [symmetric] e0 inv_simps(1) [OF e0(1)] stamped_simps)
  have refl: "eng_ok repo proj good e e0" using eng_ok_refl [OF e0(1)] by (simp add: e0(4))
  have "eng_ok repo proj good e e' \<and> (case res of Inl _ \<Rightarrow> proj (eng_store e') = proj (eng_store e)
      | Inr out \<Rightarrow> ingested e l out (proj (eng_store e)) (proj (eng_store e')))"
  proof (cases "repo_HasLeg repo (eng_store e) (ID l)")
    case (Inl err)
    then show ?thesis using r one refl e0(2) by auto
  next
    case has: (Inr seen)
    then have seen: "seen \<longleftrightarrow> p_legs (proj (eng_store e)) (ID l) \<noteq> None"
      by (rule has_leg [OF inv_simps(2) [OF inv]])
    show ?thesis
    proof (cases seen)
      case True
      then have "ingest_duplicate e0 now (stamped e l) = (res, e')" using r one has by simp
      from ingest_duplicate_ok [OF e0(1) this] show ?thesis
        using seen True
        by (auto simp: e0 ingested_def first_cs_def ingested_event_def now_def split: sum.splits)
    next
      case False
      then have new: "p_legs (proj (eng_store e0)) (ID (stamped e l)) = None" using seen by (simp add: e0(2))
      show ?thesis
      proof (cases "repo_LegsByTxnRef repo (eng_store e) (TxnRef l)")
        case (Inl err)
        then show ?thesis using r one has False refl e0(2) by auto
      next
        case rel: (Inr related)
        have rel': "repo_LegsByTxnRef (eng_repo e0) (eng_store e0) (TxnRef (stamped e l)) = Inr related"
          using rel inv_simps(1) [OF e0(1)] by (simp add: e0(2))
        show ?thesis
        proof (cases "if eng_replaying e then Inr empty_cs
            else addEvent empty_cs EvLegIngested now (ID l) (PLeg (stamped e l))")
          case (Inl err)
          then show ?thesis using r one has False rel refl e0(2) by auto
        next
          case (Inr cs)
          then have cs: "cs = first_cs e EvLegIngested l"
            by (auto simp: first_cs_def ingested_event_def now_def addEvent_Inr split: if_splits)
          have base: "base_cs cs" by (simp add: cs first_cs_def base_cs_def)
          have "ingest_new sha256 e0 cs now related (stamped e l) = (res, e')" using r one has False rel Inr by simp
          from ingest_new_landed [OF e0(1) new base rel' this] show ?thesis
            using False seen by (auto simp: landed_def e0 ingested_def cs split: sum.splits)
        qed
      qed
    qed
  qed
  then show "eng_ok repo proj good e e'" "res = Inl err \<Longrightarrow> proj (eng_store e') = proj (eng_store e)"
    "res = Inr out \<Longrightarrow> ingested e l out (proj (eng_store e)) (proj (eng_store e'))" by auto
qed

end

end
