(* ===== verification/Recon_Operations.thy ===== *)
theory Recon_Operations
  imports Recon_Lifecycle
begin

text \<open>
  The operations of the engine as a whole, over any repository that keeps its contract: batches, expiry,
  break resolution, rebuilding the index and replay. \<open>eng_run\<close> says what every operation but a replay
  does: it ends with the invariant and evolves the projections in steps of the life cycle, on success
  and on every error.
\<close>

subsection \<open>Runs\<close>

definition eng_run :: "'s Repository \<Rightarrow> ('s \<Rightarrow> Proj) \<Rightarrow> ('s \<Rightarrow> bool) \<Rightarrow> 's Engine \<Rightarrow> 's Engine \<Rightarrow> bool" where
  "eng_run repo proj good e e' \<longleftrightarrow>
     eng_inv repo proj good e' \<and> evolves\<^sup>*\<^sup>* (proj (eng_store e)) (proj (eng_store e')) \<and>
     eng_rules e' = eng_rules e \<and> eng_replaying e' = eng_replaying e \<and> eng_clock e' = eng_clock e \<and>
     ttl (eng_ix e') = ttl (eng_ix e)"

lemma eng_run_refl: "eng_inv repo proj good e \<Longrightarrow> eng_run repo proj good e e"
  by (simp add: eng_run_def)

lemma eng_run_inv: "eng_run repo proj good e e' \<Longrightarrow> eng_inv repo proj good e'"
  by (simp add: eng_run_def)

lemma eng_run_ok: "eng_ok repo proj good e e' \<Longrightarrow> eng_run repo proj good e e'"
  by (auto simp: eng_run_def eng_ok_def)

lemma eng_run_trans: "eng_run repo proj good e e' \<Longrightarrow> eng_run repo proj good e' e'' \<Longrightarrow> eng_run repo proj good e e''"
  by (auto simp: eng_run_def)

lemma eng_run_hook [simp]: "eng_run repo proj good e (call_hook b c e') = eng_run repo proj good e e'"
  by (simp add: eng_run_def)

lemma eng_run_ticks [simp]: "eng_run repo proj good (e\<lparr>eng_ticks := n\<rparr>) e' = eng_run repo proj good e e'"
  by (simp add: eng_run_def)

subsection \<open>Batches\<close>

definition outcomes :: "string set" where
  "outcomes = {OutcomeDuplicate, OutcomeMatched, OutcomeBreak, OutcomeOpen, OutcomeResolvedBreak}"

lemma ingested_outcome: "ingested e l r p p' \<Longrightarrow> r_Outcome r \<in> outcomes \<and> r_LegID r = ID l"
  by (auto simp: ingested_def outcome_cs_def ingest_result_def outcomes_def split: if_splits)

text \<open>The counters of a batch add up to the results.\<close>

definition counters_ok :: "BatchResult \<Rightarrow> bool" where
  "counters_ok res \<longleftrightarrow>
     (let n = (\<lambda>os. length (filter (\<lambda>r. r_Outcome r \<in> os) (Results res))) in
      Accepted res = length (Results res) \<and> Duplicates res = n {OutcomeDuplicate} \<and>
      Matched res = n {OutcomeMatched, OutcomeResolvedBreak} \<and> Breaks res = n {OutcomeBreak} \<and>
      Open res = n {OutcomeOpen} \<and>
      Accepted res = Duplicates res + Matched res + Breaks res + Open res)"

lemma counters_zero: "counters_ok zero_batch"
  by (simp add: counters_ok_def zero_batch_def)

lemma counters_count: "counters_ok res \<Longrightarrow> r_Outcome r \<in> outcomes \<Longrightarrow> counters_ok (count_result r res)"
  by (auto simp: counters_ok_def count_result_def Let_def outcomes_def)

lemma Results_count [simp]: "Results (count_result r res) = Results res @ [r]"
  by (simp add: count_result_def Let_def)

text \<open>The steps of a batch: the engine before each leg, the result, the engine after.\<close>

definition batch_step :: "'s Repository \<Rightarrow> ('s \<Rightarrow> Proj) \<Rightarrow> ('s \<Rightarrow> bool) \<Rightarrow> 's Engine \<Rightarrow> Leg \<Rightarrow> IngestResult \<Rightarrow> 's Engine \<Rightarrow> bool" where
  "batch_step repo proj good e l r e' \<longleftrightarrow>
     eng_ok repo proj good e e' \<and> ingested e l r (proj (eng_store e)) (proj (eng_store e'))"

fun batch_steps :: "'s Repository \<Rightarrow> ('s \<Rightarrow> Proj) \<Rightarrow> ('s \<Rightarrow> bool) \<Rightarrow> 's Engine \<Rightarrow> Leg list \<Rightarrow> IngestResult list \<Rightarrow> 's Engine \<Rightarrow> bool" where
  "batch_steps repo proj good e (l # legs) (r # rs) e' \<longleftrightarrow>
     (\<exists>e1. batch_step repo proj good e l r e1 \<and> batch_steps repo proj good e1 legs rs e')"
| "batch_steps repo proj good e [] [] e' \<longleftrightarrow> e' = e"
| "batch_steps repo proj good e _ _ e' \<longleftrightarrow> False"

lemma batch_steps_length: "batch_steps repo proj good e legs rs e' \<Longrightarrow> length rs = length legs"
  by (induction repo proj good e legs rs e' rule: batch_steps.induct) auto

lemma batch_steps_run:
  "batch_steps repo proj good e legs rs e' \<Longrightarrow> eng_inv repo proj good e \<Longrightarrow> eng_run repo proj good e e'"
proof (induction repo proj good e legs rs e' rule: batch_steps.induct)
  case (1 repo proj good e l legs r rs e')
  then obtain e1 where e1: "batch_step repo proj good e l r e1" "batch_steps repo proj good e1 legs rs e'" by auto
  then have "eng_ok repo proj good e e1" by (simp add: batch_step_def)
  from eng_run_ok [OF this] show ?case using 1(1) [OF e1(2)] eng_run_inv eng_run_trans by blast
qed (auto intro: eng_run_refl)

lemma batch_steps_results:
  "batch_steps repo proj good e legs rs e' \<Longrightarrow> map r_LegID rs = map ID legs \<and> (\<forall>r \<in> set rs. r_Outcome r \<in> outcomes)"
  by (induction repo proj good e legs rs e' rule: batch_steps.induct)
    (auto simp: batch_step_def dest: ingested_outcome)

subsection \<open>Changes that bring no new leg\<close>

definition settles :: "Proj \<Rightarrow> Proj \<Rightarrow> bool" where
  "settles p p' \<longleftrightarrow>
     (\<exists>cs. legal_cs cs p \<and> p' = apply_spec cs p \<and> (\<forall>l \<in> set (csLegs cs). p_legs p (ID l) \<noteq> None) \<and>
        (\<forall>ev \<in> set (csEvents cs). Type ev \<noteq> EvLegIngested))"

lemma settles_no_legs:
  "csLegs cs = [] \<Longrightarrow> \<forall>ev \<in> set (csEvents cs). Type ev \<noteq> EvLegIngested \<Longrightarrow> settles p (apply_spec cs p)"
  unfolding settles_def by (rule exI [of _ cs]) (simp add: legal_no_legs)

lemma settles_evolves: "settles p p' \<Longrightarrow> evolves p p'"
  by (auto simp: settles_def evolves_def)

lemma settles_star_evolves: "settles\<^sup>*\<^sup>* p p' \<Longrightarrow> evolves\<^sup>*\<^sup>* p p'"
  by (rule rtranclp_mono [of settles evolves, THEN predicate2D]) (auto intro: settles_evolves)

lemma dom_upsert: "dom (upsert key xs m) = dom m \<union> key ` set xs"
  by (induction xs arbitrary: m) auto

lemma settles_dom: "settles p p' \<Longrightarrow> dom (p_legs p') = dom (p_legs p)"
proof -
  assume "settles p p'"
  then obtain cs where cs: "p' = apply_spec cs p" "\<forall>l \<in> set (csLegs cs). p_legs p (ID l) \<noteq> None"
    by (auto simp: settles_def)
  then show ?thesis by (auto simp: dom_upsert)
qed

lemma settles_star_dom: "settles\<^sup>*\<^sup>* p p' \<Longrightarrow> dom (p_legs p') = dom (p_legs p)"
  by (induction rule: rtranclp_induct) (simp_all add: settles_dom)

text \<open>The legs that the log says were ingested.\<close>

definition logged_ids :: "Event list \<Rightarrow> string set" where
  "logged_ids evs = AggregateID ` {ev \<in> set evs. Type ev = EvLegIngested}"

lemma logged_ids_Nil [simp]: "logged_ids [] = {}"
  by (simp add: logged_ids_def)

lemma logged_ids_Cons [simp]:
  "logged_ids (ev # evs) = (if Type ev = EvLegIngested then insert (AggregateID ev) (logged_ids evs) else logged_ids evs)"
  by (auto simp: logged_ids_def)

lemma logged_ids_append [simp]: "logged_ids (xs @ ys) = logged_ids xs \<union> logged_ids ys"
  by (auto simp: logged_ids_def)

lemma number_events_fields:
  "map Type (number_events n evs) = map Type evs" "map AggregateID (number_events n evs) = map AggregateID evs"
  "map Payload (number_events n evs) = map Payload evs"
  by (rule nth_equalityI; simp add: number_events_nth)+

lemma logged_ids_map: "map Type xs = map Type ys \<Longrightarrow> map AggregateID xs = map AggregateID ys \<Longrightarrow> logged_ids xs = logged_ids ys"
proof (induction xs ys rule: list_induct2')
  case (4 x xs y ys)
  then have "logged_ids [x] = logged_ids [y]" by (auto simp: logged_ids_def)
  then show ?case using 4 logged_ids_append [of "[x]" xs] logged_ids_append [of "[y]" ys] by simp
qed auto

lemma logged_ids_number [simp]: "logged_ids (number_events n evs) = logged_ids evs"
  by (rule logged_ids_map) (rule number_events_fields)+

text \<open>A log that grows by other events than ingestions.\<close>

definition quiet_ext :: "Event list \<Rightarrow> Event list \<Rightarrow> bool" where
  "quiet_ext xs ys \<longleftrightarrow> (\<exists>more. ys = xs @ more \<and> (\<forall>ev \<in> set more. Type ev \<noteq> EvLegIngested))"

lemma quiet_ext_refl [simp]: "quiet_ext xs xs"
  by (simp add: quiet_ext_def)

lemma quiet_ext_trans: "quiet_ext xs ys \<Longrightarrow> quiet_ext ys zs \<Longrightarrow> quiet_ext xs zs"
  by (auto simp: quiet_ext_def)

lemma quiet_ext_log: "quiet_ext xs ys \<Longrightarrow> logged_ids ys = logged_ids xs"
  by (auto simp: quiet_ext_def) (auto simp: logged_ids_def)

lemma number_events_types: "Type ` set (number_events n evs) = Type ` set evs"
  by (metis number_events_fields(1) set_map)

lemma quiet_ext_number: "\<forall>ev \<in> set evs. Type ev \<noteq> EvLegIngested \<Longrightarrow> quiet_ext xs (xs @ number_events n evs)"
  unfolding quiet_ext_def using number_events_types [of n evs] by (metis imageE image_eqI)

lemma settles_quiet: "settles p p' \<Longrightarrow> quiet_ext (p_events p) (p_events p')"
  by (auto simp: settles_def intro: quiet_ext_number)

lemma settles_star_quiet: "settles\<^sup>*\<^sup>* p p' \<Longrightarrow> quiet_ext (p_events p) (p_events p')"
  by (induction rule: rtranclp_induct) (auto dest: settles_quiet intro: quiet_ext_trans)

text \<open>Ingestion adds its leg to the projections and, outside a replay, to the log.\<close>

lemma outcome_brings: "outcome_cs l r cs \<Longrightarrow> ID l \<in> ID ` set (csLegs cs)"
  by (auto simp: outcome_cs_def match_cs_def break_cs_def)

lemma ingested_dom: "ingested e l r p p' \<Longrightarrow> dom (p_legs p') = insert (ID l) (dom (p_legs p))"
proof (cases "p_legs p (ID l)")
  case None
  assume "ingested e l r p p'"
  then obtain cs where "p' = apply_spec cs p" "outcome_cs (stamped e l) r cs" "only_new (stamped e l) cs p"
    using None by (auto simp: ingested_def)
  then show ?thesis using outcome_brings [of "stamped e l" r cs] by (auto simp: dom_upsert only_new_def)
next
  case (Some l')
  assume "ingested e l r p p'"
  then show ?thesis using Some by (auto simp: ingested_def first_cs_def)
qed

lemma ingested_log:
  "ingested e l r p p' \<Longrightarrow> logged_ids (p_events p') =
     (if eng_replaying e \<or> ID l \<in> dom (p_legs p) then logged_ids (p_events p) else insert (ID l) (logged_ids (p_events p)))"
proof (cases "p_legs p (ID l)")
  case None
  assume "ingested e l r p p'"
  then obtain cs where cs: "p' = apply_spec cs p" "adds_events (first_cs e EvLegIngested l) cs"
    using None by (auto simp: ingested_def)
  then have "logged_ids (csEvents cs) = logged_ids (csEvents (first_cs e EvLegIngested l))"
    by (auto simp: adds_events_def logged_ids_def)
  then show ?thesis using None cs(1) by (simp add: first_cs_def ingested_event_def dom_def)
next
  case (Some l')
  assume "ingested e l r p p'"
  then show ?thesis using Some by (auto simp: ingested_def first_cs_def ingested_event_def)
qed

lemma ingested_quiet:
  assumes "ingested e l r p p'" "eng_replaying e \<or> p_legs p (ID l) \<noteq> None"
  shows "quiet_ext (p_events p) (p_events p')"
proof (cases "p_legs p (ID l)")
  case None
  then obtain cs where cs: "p' = apply_spec cs p" "adds_events (first_cs e EvLegIngested l) cs"
    using assms(1) by (auto simp: ingested_def)
  then have "\<forall>ev \<in> set (csEvents cs). Type ev \<noteq> EvLegIngested"
    using None assms(2) by (auto simp: adds_events_def first_cs_def)
  then show ?thesis using cs(1) by (simp add: quiet_ext_number)
next
  case (Some l')
  then show ?thesis
    using assms(1) by (auto simp: ingested_def first_cs_def ingested_event_def intro!: quiet_ext_number)
qed

text \<open>A break opened on legs that are already open in the window.\<close>

lemma openBreak_expired:
  assumes "openBreak sha256 e cs now trigger related [l] = Inr (b, cs')" "csLegs cs = []" "csBreaks cs = []"
  shows "csLegs cs' = [mark_broken (BID b) l]" "csBreaks cs' = [b]" "BID b = DeriveID sha256 ''brk'' [ID l]"
    "BStatus b = BreakOpen"
  using openBreak_cs [OF assms(1)] assms(2,3) by simp_all

text \<open>What expiring a list of open legs does to the projections.\<close>

definition open_break :: "Proj \<Rightarrow> string \<Rightarrow> bool" where
  "open_break p i \<longleftrightarrow> (\<exists>b. p_breaks p i = Some b \<and> BStatus b = BreakOpen)"

definition broken_out :: "(string \<Rightarrow> string) \<Rightarrow> Leg list \<Rightarrow> Proj \<Rightarrow> Proj \<Rightarrow> bool" where
  "broken_out sha256 legs p p' \<longleftrightarrow>
     p_legs p' = upsert ID (map (\<lambda>l. mark_broken (DeriveID sha256 ''brk'' [ID l]) l) legs) (p_legs p) \<and>
     (\<forall>l \<in> set legs. open_break p' (DeriveID sha256 ''brk'' [ID l])) \<and>
     (\<forall>i. open_break p i \<longrightarrow> open_break p' i) \<and>
     p_matches p' = p_matches p \<and> settles\<^sup>*\<^sup>* p p'"

lemma broken_out_Nil: "broken_out sha256 [] p p' \<longleftrightarrow> p_legs p' = p_legs p \<and> (\<forall>i. open_break p i \<longrightarrow> open_break p' i) \<and>
    p_matches p' = p_matches p \<and> settles\<^sup>*\<^sup>* p p'"
  by (simp add: broken_out_def)

lemma broken_out_Cons:
  assumes one: "p_legs p1 = (p_legs p)(ID l \<mapsto> mark_broken (DeriveID sha256 ''brk'' [ID l]) l)"
    "p_breaks p1 = (p_breaks p)(DeriveID sha256 ''brk'' [ID l] \<mapsto> b)" "BStatus b = BreakOpen"
    "p_matches p1 = p_matches p" "settles p p1"
    and rest: "broken_out sha256 legs p1 p'"
  shows "broken_out sha256 (l # legs) p p'"
proof -
  have "open_break p1 (DeriveID sha256 ''brk'' [ID l])" using one(2,3) by (simp add: open_break_def)
  moreover have "open_break p1 i" if "open_break p i" for i using that one(2,3) by (auto simp: open_break_def)
  moreover have "settles\<^sup>*\<^sup>* p p'" using one(5) rest by (auto simp: broken_out_def intro: converse_rtranclp_into_rtranclp)
  ultimately show ?thesis using rest one(1,4) by (simp add: broken_out_def)
qed

lemma broken_out_event:
  assumes "broken_out sha256 legs p p'" "csLegs cs = []" "csMatches cs = []" "csBreaks cs = []"
    "\<forall>ev \<in> set (csEvents cs). Type ev \<noteq> EvLegIngested"
  shows "broken_out sha256 legs p (apply_spec cs p')"
proof -
  have "settles p' (apply_spec cs p')" by (rule settles_no_legs [OF assms(2,5)])
  then show ?thesis
    using assms(1-4) by (auto simp: broken_out_def open_break_def intro: rtranclp.rtrancl_into_rtrancl)
qed

text \<open>The expired legs are open legs of the window, each once.\<close>

lemma expired_facts:
  assumes "ix_ok ix"
  shows "distinct (map ID (Expired ix now d))" "\<forall>l \<in> set (Expired ix now d). Get ix (ID l) = Some l"
proof -
  have get: "Get ix (ID l) = Some l" if "l \<in> set (Expired ix now d)" for l
    using that unfolding Expired_query [OF assms] set_query [OF assms] by (rule conjunct1)
  then show "\<forall>l \<in> set (Expired ix now d). Get ix (ID l) = Some l" by (intro ballI)
  have "inj_on ID (set (Expired ix now d))"
  proof (rule inj_onI)
    fix x y assume xy: "x \<in> set (Expired ix now d)" "y \<in> set (Expired ix now d)" "ID x = ID y"
    have "Some x = Some y" using get [OF xy(1)] get [OF xy(2)] unfolding xy(3) by (rule trans [OF sym])
    then show "x = y" by simp
  qed
  then show "distinct (map ID (Expired ix now d))"
    using distinct_query [OF assms] by (simp add: distinct_map Expired_query [OF assms])
qed

lemma map_of_keyed:
  assumes "distinct (map key xs)" "\<And>x. x \<in> set xs \<longleftrightarrow> m (key x) = Some x" "\<And>i x. m i = Some x \<Longrightarrow> key x = i"
  shows "map_of (map (\<lambda>x. (key x, x)) xs) i = m i"
proof (cases "m i")
  case None
  then have "i \<notin> key ` set xs" using assms(2) by auto
  then have "map_of (map (\<lambda>x. (key x, x)) xs) i = None" by (induction xs) auto
  then show ?thesis using None by simp
next
  case (Some x)
  then have "key x = i" "x \<in> set xs" using assms(2,3) by auto
  moreover have "distinct (map fst (map (\<lambda>x. (key x, x)) xs))" using assms(1) by (simp add: o_def)
  ultimately have "map_of (map (\<lambda>x. (key x, x)) xs) i = Some x" by (intro map_of_is_SomeI) auto
  then show ?thesis using Some by simp
qed

subsection \<open>Batches and expiry, over any repository\<close>

context repository
begin

text \<open>
  A batch runs through a prefix of its legs: all of them unless there is an error; and an error changes
  nothing more.
\<close>

lemma ingest_loop_spec:
  assumes "eng_inv repo proj good e" "ingest_loop sha256 ctx i e res legs = (res', err, e')"
  shows "\<exists>k rs e1. k \<le> length legs \<and> batch_steps repo proj good e (take k legs) rs e1 \<and>
     Results res' = Results res @ rs \<and> (counters_ok res \<longrightarrow> counters_ok res') \<and> eng_ok repo proj good e1 e' \<and>
     proj (eng_store e') = proj (eng_store e1) \<and> (err = None \<longrightarrow> k = length legs \<and> e' = e1)"
  using assms
proof (induction legs arbitrary: i e res)
  case Nil
  then have "batch_steps repo proj good e (take 0 []) [] e" "eng_ok repo proj good e e" by (simp_all add: eng_ok_refl)
  then show ?case using Nil by (intro exI [of _ 0] exI [of _ "[]"] exI [of _ e]) auto
next
  case (Cons l legs)
  show ?case
  proof (cases "ctx i")
    case (Some x)
    then have "res' = res" "err = Some x" "e' = e" using Cons(3) by simp_all
    then show ?thesis using eng_ok_refl [OF Cons(2)] by (intro exI [of _ 0] exI [of _ "[]"] exI [of _ e]) simp
  next
    case ctx: None
    obtain o1 e1 where one: "ingestOne sha256 e l = (o1, e1)" by (cases "ingestOne sha256 e l")
    note spec = ingestOne_spec [OF Cons(2) one]
    show ?thesis
    proof (cases o1)
      case (Inl x)
      then show ?thesis using Cons(3) ctx one spec(1,2)
        by (intro exI [of _ 0] exI [of _ "[]"] exI [of _ e]) auto
    next
      case (Inr r)
      have st: "batch_step repo proj good e l r e1" using spec(1) spec(3) [OF Inr] by (simp add: batch_step_def)
      have inv1: "eng_inv repo proj good e1" using spec(1) by (simp add: eng_ok_def)
      have "ingest_loop sha256 ctx (i + 1) e1 (count_result r res) legs = (res', err, e')"
        using Cons(3) ctx one Inr by simp
      from Cons.IH [OF inv1 this] obtain k rs e2 where
        IH: "k \<le> length legs" "batch_steps repo proj good e1 (take k legs) rs e2"
        "Results res' = Results (count_result r res) @ rs" "counters_ok (count_result r res) \<longrightarrow> counters_ok res'"
        "eng_ok repo proj good e2 e'" "proj (eng_store e') = proj (eng_store e2)"
        "err = None \<longrightarrow> k = length legs \<and> e' = e2" by blast
      have "batch_steps repo proj good e (take (Suc k) (l # legs)) (r # rs) e2" using st IH(2) by auto
      moreover have "counters_ok res \<longrightarrow> counters_ok res'"
        using counters_count IH(4) ingested_outcome spec(3) [OF Inr] by blast
      moreover have "Results res' = Results res @ r # rs" using IH(3) by simp
      ultimately show ?thesis using IH(1,5-7)
        by (intro exI [of _ "Suc k"] exI [of _ "r # rs"] exI [of _ e2]) auto
    qed
  qed
qed

lemma expire_one:
  assumes inv: "eng_inv repo proj good e" and l: "Get (eng_ix e) (ID l) = Some l"
    and ev: "addEvent empty_cs EvLegExpired now (ID l) pl = Inr cs"
    and brk: "openBreak sha256 e cs now trigger related [l] = Inr (b, cs')"
  shows "legal_cs cs' (proj (eng_store e))" "settles (proj (eng_store e)) (apply_spec cs' (proj (eng_store e)))"
    "Get (Remove (eng_ix e) [ID l]) = open_legs (apply_spec cs' (proj (eng_store e)))"
    "p_legs (apply_spec cs' (proj (eng_store e))) =
       (p_legs (proj (eng_store e)))(ID l \<mapsto> mark_broken (DeriveID sha256 ''brk'' [ID l]) l)"
    "p_breaks (apply_spec cs' (proj (eng_store e))) = (p_breaks (proj (eng_store e)))(BID b \<mapsto> b)"
    "p_matches (apply_spec cs' (proj (eng_store e))) = p_matches (proj (eng_store e))"
proof -
  have cs: "csLegs cs = []" "csBreaks cs = []" "csMatches cs = []" "\<forall>ev \<in> set (csEvents cs). Type ev = EvLegExpired"
    using ev by (auto simp: addEvent_Inr)
  note b = openBreak_expired [OF brk cs(1,2)]
  note cs' = openBreak_cs [OF brk]
  note st = open_leg_stored [OF inv l]
  show legal: "legal_cs cs' (proj (eng_store e))"
    using st by (auto simp: legal_cs_def b(1) advances_def)
  have "\<forall>ev \<in> set (csEvents cs'). Type ev \<noteq> EvLegIngested"
    using cs(4) cs'(6) by (auto simp: adds_events_def)
  then show "settles (proj (eng_store e)) (apply_spec cs' (proj (eng_store e)))"
    using legal st(1) by (auto simp: settles_def b(1))
  show "Get (Remove (eng_ix e) [ID l]) = open_legs (apply_spec cs' (proj (eng_store e)))"
  proof
    fix i
    show "Get (Remove (eng_ix e) [ID l]) i = open_legs (apply_spec cs' (proj (eng_store e))) i"
      using open_legs_closing [of cs' "proj (eng_store e)" i] inv_simps(4) [OF inv] by (simp add: b(1) Get_Remove)
  qed
qed (use openBreak_expired [OF brk] openBreak_cs [OF brk] ev in \<open>simp_all add: addEvent_Inr\<close>)

text \<open>One round of the loop: it stops with an error and changes nothing, or breaks out the leg.\<close>

definition expire_stops :: "nat \<Rightarrow> 's Engine \<Rightarrow> nat \<times> goerr option \<times> 's Engine \<Rightarrow> bool" where
  "expire_stops cnt e r \<longleftrightarrow>
     (case r of (cnt', err, e') \<Rightarrow> cnt' = cnt \<and> err \<noteq> None \<and> eng_ok repo proj good e e' \<and> eng_ix e' = eng_ix e \<and>
        proj (eng_store e') = proj (eng_store e))"

lemma expire_stops_refl: "eng_inv repo proj good e \<Longrightarrow> expire_stops cnt e (cnt, Some err, e)"
  by (simp add: expire_stops_def eng_ok_refl)

lemma expire_loop_round:
  assumes inv: "eng_inv repo proj good e" and l: "Get (eng_ix e) (ID l) = Some l"
  shows "expire_stops cnt e (expire_loop sha256 ctx i e now forced cnt (l # legs)) \<or>
    (\<exists>e2 b. expire_loop sha256 ctx (i + 1) e2 now forced (cnt + 1) legs = expire_loop sha256 ctx i e now forced cnt (l # legs) \<and>
       eng_ok repo proj good e e2 \<and> eng_ix e2 = Remove (eng_ix e) [ID l] \<and>
       p_legs (proj (eng_store e2)) = (p_legs (proj (eng_store e)))(ID l \<mapsto> mark_broken (DeriveID sha256 ''brk'' [ID l]) l) \<and>
       p_breaks (proj (eng_store e2)) = (p_breaks (proj (eng_store e)))(DeriveID sha256 ''brk'' [ID l] \<mapsto> b) \<and>
       BStatus b = BreakOpen \<and> p_matches (proj (eng_store e2)) = p_matches (proj (eng_store e)) \<and>
       settles (proj (eng_store e)) (proj (eng_store e2)))"
proof -
  consider (err) x where "expire_loop sha256 ctx i e now forced cnt (l # legs) = (cnt, Some x, e)"
    | (brk) cs related b cs' where "ctx i = None" "repo_LegsByTxnRef (eng_repo e) (eng_store e) (TxnRef l) = Inr related"
      "addEvent empty_cs EvLegExpired now (ID l) (PExpired (ID l) forced) = Inr cs"
      "openBreak sha256 e cs now TriggerWindowExpired related [l] = Inr (b, cs')"
  proof (cases "ctx i")
    case (Some x)
    then show thesis using err by simp
  next
    case ctx: None
    show thesis
    proof (cases "repo_LegsByTxnRef (eng_repo e) (eng_store e) (TxnRef l)")
      case (Inl x)
      then show thesis using err ctx l by simp
    next
      case rel: (Inr related)
      show thesis
      proof (cases "addEvent empty_cs EvLegExpired now (ID l) (PExpired (ID l) forced)")
        case (Inl x)
        then show thesis using err ctx l rel by simp
      next
        case ev: (Inr cs)
        then show thesis using err ctx l rel brk [OF ctx rel ev]
          by (cases "openBreak sha256 e cs now TriggerWindowExpired related [l]") auto
      qed
    qed
  qed
  then show ?thesis
  proof cases
    case err
    then show ?thesis by (simp only: expire_stops_refl [OF inv] simp_thms)
  next
    case brk
    note one = expire_one [OF inv l brk(3,4)]
    obtain er e1 where a: "eng_apply e cs' = (er, e1)" by (cases "eng_apply e cs'")
    show ?thesis
    proof (cases er)
      case (Some x)
      have "landed e cs l (Inl x) e1" by (rule landed_error [OF inv one(1) a [unfolded Some]])
      moreover have "eng_ix e1 = eng_ix e" using a by (auto simp: eng_apply_def split: prod.splits)
      ultimately show ?thesis using brk l a Some by (simp add: landed_def expire_stops_def)
    next
      case None
      note a' = a [unfolded None]
      define e2 where "e2 = fireBreak (e1\<lparr>eng_ix := Remove (eng_ix e1) [ID l]\<rparr>) b"
      have e2: "eng_ix e2 = Remove (eng_ix e) [ID l]" "proj (eng_store e2) = apply_spec cs' (proj (eng_store e))"
        using apply_landed(3,4) [OF inv one(1) a'] by (simp_all add: e2_def hook_defs)
      have "eng_ok repo proj good e (e1\<lparr>eng_ix := Remove (eng_ix e) [ID l]\<rparr>)"
        by (rule apply_ok_index [OF inv one(1) a' _ one(3)]) (simp_all add: ix_ok_Remove inv_simps(3) [OF inv])
      then have "eng_ok repo proj good e e2" using apply_landed(4) [OF inv one(1) a'] by (simp add: e2_def hook_defs)
      moreover have "expire_loop sha256 ctx (i + 1) e2 now forced (cnt + 1) legs = expire_loop sha256 ctx i e now forced cnt (l # legs)"
        using brk l a' by (simp add: e2_def)
      ultimately show ?thesis
        using one(2,4-6) openBreak_cs(5,9) [OF brk(4)] e2 by (intro disjI2 exI [of _ e2] exI [of _ b]) simp
    qed
  qed
qed

text \<open>
  The loop of an expiry breaks out a prefix of the expired legs, all of them unless there is an error;
  an error leaves the rest in the window.
\<close>

lemma expire_loop_spec:
  assumes "eng_inv repo proj good e" "distinct (map ID legs)" "\<forall>l \<in> set legs. Get (eng_ix e) (ID l) = Some l"
    "expire_loop sha256 ctx i e now forced cnt legs = (cnt', err, e')"
  shows "\<exists>k \<le> length legs. cnt' = cnt + k \<and> eng_run repo proj good e e' \<and> (err = None \<longrightarrow> k = length legs) \<and>
     Get (eng_ix e') = (\<lambda>i. if i \<in> ID ` set (take k legs) then None else Get (eng_ix e) i) \<and>
     broken_out sha256 (take k legs) (proj (eng_store e)) (proj (eng_store e'))"
  using assms
proof (induction legs arbitrary: i e cnt)
  case Nil
  then show ?case by (auto simp: broken_out_Nil eng_run_refl)
next
  case (Cons l legs)
  have l: "Get (eng_ix e) (ID l) = Some l" using Cons(4) by simp
  from expire_loop_round [OF Cons(2) l, of cnt sha256 ctx i now forced legs]
  consider "expire_stops cnt e (cnt', err, e')" | e2 b where
    "expire_loop sha256 ctx (i + 1) e2 now forced (cnt + 1) legs = (cnt', err, e')"
    "eng_ok repo proj good e e2" "eng_ix e2 = Remove (eng_ix e) [ID l]"
    "p_legs (proj (eng_store e2)) = (p_legs (proj (eng_store e)))(ID l \<mapsto> mark_broken (DeriveID sha256 ''brk'' [ID l]) l)"
    "p_breaks (proj (eng_store e2)) = (p_breaks (proj (eng_store e)))(DeriveID sha256 ''brk'' [ID l] \<mapsto> b)"
    "BStatus b = BreakOpen" "p_matches (proj (eng_store e2)) = p_matches (proj (eng_store e))"
    "settles (proj (eng_store e)) (proj (eng_store e2))"
    unfolding Cons(5) by (elim disjE exE conjE) (rule that(1), assumption, rule that(2), assumption+)
  then show ?case
  proof cases
    case 1
    then show ?thesis by (intro exI [of _ 0]) (simp add: expire_stops_def broken_out_Nil eng_run_ok)
  next
    case (2 e2 b)
    have "distinct (map ID legs)" "ID l \<notin> ID ` set legs" using Cons(3) by simp_all
    moreover have "Get (eng_ix e2) (ID x) = Some x" if "x \<in> set legs" for x
    proof -
      have "Get (eng_ix e) (ID x) = Some x" by (rule bspec [OF Cons(4)]) (simp add: that)
      moreover have "ID x \<noteq> ID l" using imageI [OF that, of ID] \<open>ID l \<notin> ID ` set legs\<close> by metis
      ultimately show ?thesis by (simp add: 2(3) Get_Remove)
    qed
    moreover have "eng_inv repo proj good e2" using 2(2) by (simp add: eng_ok_def)
    ultimately obtain k where
      k: "k \<le> length legs" "cnt' = cnt + 1 + k" "eng_run repo proj good e2 e'" "err = None \<longrightarrow> k = length legs"
      "Get (eng_ix e') = (\<lambda>i. if i \<in> ID ` set (take k legs) then None else Get (eng_ix e2) i)"
      "broken_out sha256 (take k legs) (proj (eng_store e2)) (proj (eng_store e'))"
      using Cons.IH [OF _ _ _ 2(1)] by blast
    have "Get (eng_ix e') = (\<lambda>i. if i \<in> ID ` set (take (Suc k) (l # legs)) then None else Get (eng_ix e) i)"
      using k(5) by (auto simp: 2(3) Get_Remove fun_eq_iff)
    moreover have "broken_out sha256 (take (Suc k) (l # legs)) (proj (eng_store e)) (proj (eng_store e'))"
      unfolding take_Suc_Cons by (rule broken_out_Cons [OF 2(4-8) k(6)])
    moreover have "eng_run repo proj good e e'" using eng_run_trans [OF eng_run_ok [OF 2(2)] k(3)] .
    ultimately show ?thesis using k(1,2,4) by (intro exI [of _ "Suc k"]) simp
  qed
qed

text \<open>A change set without legs: the index stays as it is.\<close>

lemma quiet_apply:
  assumes inv: "eng_inv repo proj good e" and cs: "csLegs cs = []" and a: "eng_apply e cs = (er, e')"
  shows "eng_ok repo proj good e e' \<and> eng_ix e' = eng_ix e \<and>
    proj (eng_store e') = (if er = None then apply_spec cs (proj (eng_store e)) else proj (eng_store e))"
proof (cases er)
  case None
  note a' = a [unfolded None]
  show ?thesis
    using apply_ok_same [OF inv legal_no_legs [OF cs] a' open_legs_no_legs [OF cs]]
      apply_landed(3,4) [OF inv legal_no_legs [OF cs] a'] None by simp
next
  case (Some x)
  have "landed e cs l (Inl x) e'" for l by (rule landed_error [OF inv legal_no_legs [OF cs] a [unfolded Some]])
  moreover have "eng_ix e' = eng_ix e" using a by (auto simp: eng_apply_def split: prod.splits)
  ultimately show ?thesis using Some by (simp add: landed_def)
qed

lemma expire_spec:
  assumes inv: "eng_inv repo proj good e" and ex: "expire sha256 ctx e d forced = (cnt, err, e')"
  defines "legs \<equiv> Expired (eng_ix e) (eng_clock e (eng_ticks e)) d"
  shows "cnt \<le> length legs \<and> eng_run repo proj good e e' \<and> (err = None \<longrightarrow> cnt = length legs) \<and>
     Get (eng_ix e') = (\<lambda>i. if i \<in> ID ` set (take cnt legs) then None else Get (eng_ix e) i) \<and>
     broken_out sha256 (take cnt legs) (proj (eng_store e)) (proj (eng_store e'))"
proof -
  define now where "now = eng_clock e (eng_ticks e)"
  define e0 where "e0 = e\<lparr>eng_ticks := eng_ticks e + 1\<rparr>"
  have e0: "eng_inv repo proj good e0" "eng_ix e0 = eng_ix e" "eng_store e0 = eng_store e"
    "eng_run repo proj good e e1 = eng_run repo proj good e0 e1" for e1
    using inv by (simp_all add: e0_def)
  have legs: "legs = Expired (eng_ix e0) now d" by (simp add: legs_def now_def e0(2))
  have run: "expire sha256 ctx e d forced = (if legs = [] then (0, None, e0)
      else case expire_loop sha256 ctx 0 e0 now forced 0 legs of
           (cnt, Some err, e) \<Rightarrow> (cnt, Some err, e)
         | (cnt, None, e) \<Rightarrow>
             if forced
             then (case addEvent empty_cs EvWindowClosed now ''window'' (PClosed (int cnt) d) of
                     Inl err \<Rightarrow> (cnt, Some err, e)
                   | Inr cs \<Rightarrow>
                       (case eng_apply e cs of
                          (Some err, e) \<Rightarrow> (cnt, Some err, e)
                        | (None, e) \<Rightarrow> (cnt, None, notifyOpen e)))
             else (cnt, None, notifyOpen e))"
    by (simp only: expire_def read_clock_def Let_def prod.case now_def [symmetric] e0_def [symmetric] legs [symmetric])
  show ?thesis
  proof (cases "legs = []")
    case True
    then show ?thesis using ex run e0 eng_run_refl [OF e0(1)] by (auto simp: broken_out_Nil)
  next
    case False
    obtain k er e1 where loop: "expire_loop sha256 ctx 0 e0 now forced 0 legs = (k, er, e1)"
      by (cases "expire_loop sha256 ctx 0 e0 now forced 0 legs")
    note dist = expired_facts [OF inv_simps(3) [OF e0(1)], of now d, folded legs]
    have k: "k \<le> length legs" "eng_run repo proj good e0 e1" "er = None \<longrightarrow> k = length legs"
      "Get (eng_ix e1) = (\<lambda>i. if i \<in> ID ` set (take k legs) then None else Get (eng_ix e) i)"
      "broken_out sha256 (take k legs) (proj (eng_store e)) (proj (eng_store e1))"
      using expire_loop_spec [OF e0(1) dist loop] by (auto simp: e0(2,3))
    have closed: "eng_ok repo proj good e1 e2 \<and> eng_ix e2 = eng_ix e1 \<and>
        broken_out sha256 (take k legs) (proj (eng_store e)) (proj (eng_store e2))"
      if "addEvent empty_cs EvWindowClosed now ''window'' pl = Inr cs" "eng_apply e1 cs = (er', e2)" for pl cs er' e2
    proof -
      have cs: "csLegs cs = []" "csMatches cs = []" "csBreaks cs = []" "\<forall>ev \<in> set (csEvents cs). Type ev \<noteq> EvLegIngested"
        using that(1) by (auto simp: addEvent_Inr)
      note q = quiet_apply [OF eng_run_inv [OF k(2)] cs(1) that(2)]
      show ?thesis using q broken_out_event [OF k(5) cs] k(5) by (cases er') auto
    qed
    show ?thesis
      using ex run False loop k closed e0(4) eng_run_trans [OF k(2) eng_run_ok]
      by (auto simp: hook_defs split: option.splits if_splits sum.splits prod.splits)
  qed
qed

lemma expire_leaves_none:
  assumes inv: "eng_inv repo proj good e" and ex: "expire sha256 ctx e d forced = (cnt, None, e')"
  shows "Expired (eng_ix e') (eng_clock e (eng_ticks e)) d = []"
proof -
  let ?now = "eng_clock e (eng_ticks e)"
  note spec = expire_spec [OF inv ex]
  have ok: "ix_ok (eng_ix e)" "ix_ok (eng_ix e')" "ttl (eng_ix e') = ttl (eng_ix e)"
    using spec inv by (auto simp: eng_run_def eng_inv_def)
  have get: "Get (eng_ix e') = (\<lambda>i. if i \<in> ID ` set (Expired (eng_ix e) ?now d) then None else Get (eng_ix e) i)"
    using spec by simp
  have False if "x \<in> set (Expired (eng_ix e') ?now d)" for x
  proof -
    have x: "Get (eng_ix e') (ID x) = Some x"
      "IngestedAt x \<le> (if d \<ge> 0 then ?now + i64 (- d) else ?now + i64 (- ttl (eng_ix e)))"
      using that unfolding Expired_query [OF ok(2)] set_query [OF ok(2)] by (simp_all only: ok(3))
    then have "Get (eng_ix e) (ID x) = Some x" by (auto simp: get split: if_splits)
    then have "x \<in> set (Expired (eng_ix e) ?now d)" using x(2) unfolding Expired_query [OF ok(1)] set_query [OF ok(1)] by simp
    then have "Get (eng_ix e') (ID x) = None" unfolding get by simp
    then show False using x(1) by simp
  qed
  then show ?thesis by (cases "Expired (eng_ix e') ?now d") auto
qed

lemma Ingest_spec:
  assumes inv: "eng_inv repo proj good e" and r: "Ingest sha256 ctx e legs = (res, err, e')"
  shows "(\<exists>x. validate_batch sha256 0 legs = Inl x \<and> err = Some x \<and> res = zero_batch \<and> e' = e) \<or>
    (\<exists>legs' k e1. validate_batch sha256 0 legs = Inr legs' \<and> k \<le> length legs' \<and>
       batch_steps repo proj good e (take k legs') (Results res) e1 \<and> counters_ok res \<and> eng_ok repo proj good e1 e' \<and>
       proj (eng_store e') = proj (eng_store e1) \<and> (err = None \<longrightarrow> k = length legs'))"
proof (cases "validate_batch sha256 0 legs")
  case (Inl x)
  then show ?thesis using r by (simp add: Ingest_def)
next
  case (Inr legs')
  obtain res1 er e1 where loop: "ingest_loop sha256 ctx 0 e zero_batch legs' = (res1, er, e1)"
    by (cases "ingest_loop sha256 ctx 0 e zero_batch legs'")
  have e': "res = res1" "err = er" "e' = e1 \<or> e' = notifyOpen e1"
    using r Inr loop by (auto simp: Ingest_def split: option.splits)
  obtain k rs e2 where k: "k \<le> length legs'" "batch_steps repo proj good e (take k legs') rs e2"
    "Results res1 = rs" "counters_ok res1" "eng_ok repo proj good e2 e1" "proj (eng_store e1) = proj (eng_store e2)"
    "er = None \<longrightarrow> k = length legs'"
    using ingest_loop_spec [OF inv loop] counters_zero by (auto simp: zero_batch_def)
  have "eng_ok repo proj good e2 e'" "proj (eng_store e') = proj (eng_store e2)" using k(5,6) e'(3) by (auto simp: hook_defs)
  then show ?thesis using Inr k(1,2,3,4,7) e'(1,2) by (intro disjI2 exI [of _ legs'] exI [of _ k] exI [of _ e2]) simp
qed

lemma Ingest_run:
  assumes inv: "eng_inv repo proj good e" and r: "Ingest sha256 ctx e legs = (res, err, e')"
  shows "eng_run repo proj good e e'"
  using Ingest_spec [OF inv r]
proof (elim disjE exE conjE)
  fix legs' k e1 assume "batch_steps repo proj good e (take k legs') (Results res) e1" "eng_ok repo proj good e1 e'"
  then show ?thesis using batch_steps_run [OF _ inv] eng_run_ok eng_run_trans by metis
qed (simp add: eng_run_refl [OF inv])

lemma Rebuild_spec:
  assumes store: "eng_repo e = repo" "good (eng_store e)" and r: "Rebuild e = (err, e')"
  shows "eng_store e' = eng_store e \<and>
    (if err = None then eng_inv repo proj good e' \<and> ttl (eng_ix e') = ttl (eng_ix e) else e' = e)"
proof (cases "repo_OpenLegs repo (eng_store e)")
  case (Inl x)
  then show ?thesis using r store(1) by (auto simp: Rebuild_def)
next
  case (Inr legs)
  note legs = open_legs_law [OF store(2) Inr]
  define ix where "ix = foldl Add (NewIndex (ttl (eng_ix e))) legs"
  have e': "err = None" "e' = notifyOpen (e\<lparr>eng_ix := ix\<rparr>)" using r store(1) Inr by (auto simp: Rebuild_def ix_def)
  have fold: "ix_ok (foldl Add ix ls) \<and> ttl (foldl Add ix ls) = ttl ix \<and>
      Get (foldl Add ix ls) = (\<lambda>i. case Get ix i of None \<Rightarrow> map_of (map (\<lambda>l. (ID l, l)) ls) i | Some l \<Rightarrow> Some l)"
    if "ix_ok ix" for ix ls
    using that
  proof (induction ls arbitrary: ix)
    case (Cons l ls)
    show ?case using Cons.IH [OF ix_ok_Add [OF Cons.prems], of l]
      by (auto simp: Get_Add fun_eq_iff split: option.splits)
  qed (simp add: fun_eq_iff split: option.splits)
  have "Get ix = map_of (map (\<lambda>l. (ID l, l)) legs)" "ix_ok ix" "ttl ix = ttl (eng_ix e)"
    using fold [OF ix_ok_New] by (simp_all add: ix_def)
  moreover have "map_of (map (\<lambda>l. (ID l, l)) legs) i = open_legs (proj (eng_store e)) i" for i
  proof (rule map_of_keyed)
    show "distinct (map ID legs)" using legs by simp
    fix l
    have "l \<in> set legs \<longleftrightarrow> (\<exists>i. open_legs (proj (eng_store e)) i = Some l)" using legs by (simp add: ran_def)
    also have "\<dots> \<longleftrightarrow> open_legs (proj (eng_store e)) (ID l) = Some l"
      using good_ids [OF store(2)] by (auto simp: open_legs_Some)
    finally show "l \<in> set legs \<longleftrightarrow> open_legs (proj (eng_store e)) (ID l) = Some l" .
    fix i show "open_legs (proj (eng_store e)) i = Some l \<Longrightarrow> ID l = i"
      using good_ids [OF store(2)] by (auto simp: open_legs_Some)
  qed
  ultimately show ?thesis using store e' by (simp add: eng_inv_def hook_defs fun_eq_iff)
qed

subsection \<open>Resolving a break\<close>

lemma ResolveBreak_spec:
  assumes inv: "eng_inv repo proj good e" and r: "ResolveBreak e i reason actor = (b, err, e')"
  shows "eng_run repo proj good e e' \<and> eng_ix e' = eng_ix e \<and>
    (if err \<noteq> None then proj (eng_store e') = proj (eng_store e) \<and> settles\<^sup>*\<^sup>* (proj (eng_store e)) (proj (eng_store e'))
     else reason \<noteq> '''' \<and> actor \<noteq> '''' \<and>
       (\<exists>b0. p_breaks (proj (eng_store e)) i = Some b0 \<and> BStatus b0 \<noteq> BreakResolved \<and>
          b = b0\<lparr>BStatus := BreakResolved, ResolvedAt := Some (eng_clock e (eng_ticks e)), BReason := reason, BActor := actor\<rparr>) \<and>
       settles (proj (eng_store e)) (proj (eng_store e')) \<and>
       p_breaks (proj (eng_store e')) = (p_breaks (proj (eng_store e)))(i \<mapsto> b) \<and>
       p_legs (proj (eng_store e')) = p_legs (proj (eng_store e)) \<and>
       p_matches (proj (eng_store e')) = p_matches (proj (eng_store e)) \<and>
       (\<exists>ev. p_events (proj (eng_store e')) = p_events (proj (eng_store e)) @ [ev] \<and>
          Type ev = EvBreakResolved \<and> AggregateID ev = i))"
proof (cases "reason = '''' \<or> actor = ''''")
  case True
  then show ?thesis using r eng_run_refl [OF inv] by (auto simp: ResolveBreak_def)
next
  case args: False
  show ?thesis
  proof (cases "repo_GetBreak repo (eng_store e) i")
    case (Inl x)
    then show ?thesis using r args inv_simps(1) [OF inv] eng_run_refl [OF inv] by (auto simp: ResolveBreak_def)
  next
    case get: (Inr b0)
    have b0: "p_breaks (proj (eng_store e)) i = Some b0" "BID b0 = i"
      using get_break [OF inv_simps(2) [OF inv] get] good_break_ids [OF inv_simps(2) [OF inv]] by auto
    show ?thesis
    proof (cases "BStatus b0 = BreakResolved")
      case True
      then show ?thesis using r args get inv_simps(1) [OF inv] eng_run_refl [OF inv] by (auto simp: ResolveBreak_def)
    next
      case st: False
      define now where "now = eng_clock e (eng_ticks e)"
      define e0 where "e0 = e\<lparr>eng_ticks := eng_ticks e + 1\<rparr>"
      define b1 where "b1 = b0\<lparr>BStatus := BreakResolved, ResolvedAt := Some now, BReason := reason, BActor := actor\<rparr>"
      define pl where "pl = PResolution \<lparr>rp_BreakID = BID b1, rp_Reason = reason, rp_Actor = actor, rp_At = now, rp_MatchID = ''''\<rparr>"
      have e0: "eng_inv repo proj good e0" "eng_ix e0 = eng_ix e" "eng_store e0 = eng_store e"
        "eng_run repo proj good e e1 = eng_run repo proj good e0 e1" for e1
        using inv by (simp_all add: e0_def)
      have run: "ResolveBreak e i reason actor =
          (case addEvent (empty_cs\<lparr>csBreaks := [b1]\<rparr>) EvBreakResolved now (BID b1) pl of
             Inl err \<Rightarrow> (zero_break, Some err, e0)
           | Inr cs \<Rightarrow> (case eng_apply e0 cs of (Some err, e) \<Rightarrow> (zero_break, Some err, e) | (None, e) \<Rightarrow> (b1, None, e)))"
        using args get st by (simp only: ResolveBreak_def read_clock_def Let_def prod.case now_def [symmetric] if_False
            e0_def [symmetric] b1_def [symmetric] pl_def [symmetric] inv_simps(1) [OF inv] sum.case)
      show ?thesis
      proof (cases "addEvent (empty_cs\<lparr>csBreaks := [b1]\<rparr>) EvBreakResolved now (BID b1) pl")
        case (Inl x)
        then show ?thesis using r run e0 eng_run_refl [OF e0(1)] by auto
      next
        case (Inr cs)
        then have cs: "csLegs cs = []" "csMatches cs = []" "csBreaks cs = [b1]" "\<forall>ev \<in> set (csEvents cs). Type ev \<noteq> EvLegIngested"
          by (auto simp: addEvent_Inr)
        obtain er e1 where a: "eng_apply e0 cs = (er, e1)" by (cases "eng_apply e0 cs")
        have q: "eng_run repo proj good e e1" "eng_ix e1 = eng_ix e"
          "proj (eng_store e1) = (if er = None then apply_spec cs (proj (eng_store e)) else proj (eng_store e))"
          using quiet_apply [OF e0(1) cs(1) a] e0(2-4) eng_run_ok by auto
        have i: "BID b1 = i" using b0(2) by (simp add: b1_def)
        have "\<exists>ev. p_events (apply_spec cs (proj (eng_store e))) = p_events (proj (eng_store e)) @ [ev] \<and>
            Type ev = EvBreakResolved \<and> AggregateID ev = i"
          using Inr i by (simp add: addEvent_Inr number_events_Cons)
        then show ?thesis
          using i r run Inr a q args b0(1) st settles_no_legs [OF cs(1,4), of "proj (eng_store e)"] cs(1-3)
          by (cases er) (auto simp: b1_def now_def)
      qed
    qed
  qed
qed

end


subsection \<open>The record of an outcome\<close>

definition matched_as :: "Proj \<Rightarrow> string \<Rightarrow> string \<Rightarrow> bool" where
  "matched_as p i mid \<longleftrightarrow>
     (\<exists>m. p_matches p mid = Some m \<and> i \<in> set (MLegIDs m) \<and>
        (\<forall>j \<in> set (MLegIDs m). \<exists>x. p_legs p j = Some x \<and> Status x = LegMatched \<and> MatchID x = mid))"

definition broken_as :: "Proj \<Rightarrow> string \<Rightarrow> string \<Rightarrow> bool" where
  "broken_as p i bid \<longleftrightarrow>
     (\<exists>b. p_breaks p bid = Some b \<and> BStatus b = BreakOpen \<and> i \<in> set (BLegIDs b) \<and>
        (\<forall>j \<in> set (BLegIDs b). \<exists>x. p_legs p j = Some x \<and> Status x = LegBroken \<and> BreakID x = bid))"

definition recorded :: "string \<Rightarrow> IngestResult \<Rightarrow> Proj \<Rightarrow> bool" where
  "recorded i r p \<longleftrightarrow>
     r_LegID r = i \<and>
     (r_Outcome r = OutcomeMatched \<and> matched_as p i (r_MatchID r) \<or>
      r_Outcome r = OutcomeResolvedBreak \<and> matched_as p i (r_MatchID r) \<and>
        (\<exists>b. p_breaks p (r_BreakID r) = Some b \<and> BStatus b = BreakResolved) \<or>
      r_Outcome r = OutcomeBreak \<and> broken_as p i (r_BreakID r) \<or>
      r_Outcome r = OutcomeOpen \<and> (\<exists>x. open_legs p i = Some x))"

lemma match_recorded:
  assumes "legal_cs cs p" "match_cs l m cs"
  shows "matched_as (apply_spec cs p) (ID l) (MID m)"
proof -
  have d: "distinct (map ID (csLegs cs))" using assms(1) by (simp add: legal_cs_def)
  have "\<exists>x. upsert ID (csLegs cs) (p_legs p) j = Some x \<and> Status x = LegMatched \<and> MatchID x = MID m"
    if "j \<in> set (MLegIDs m)" for j
  proof -
    have "j \<in> ID ` set (csLegs cs)" using that assms(2) by (simp add: match_cs_def)
    then obtain x where "x \<in> set (csLegs cs)" "ID x = j" by blast
    then show ?thesis using upsert_lookup [OF d, of x "p_legs p"] assms(2) by (auto simp: match_cs_def)
  qed
  then show ?thesis using assms(2) by (simp add: matched_as_def match_cs_def)
qed

lemma break_recorded:
  assumes "legal_cs cs p" "break_cs l b cs"
  shows "broken_as (apply_spec cs p) (ID l) (BID b)"
proof -
  have d: "distinct (map ID (csLegs cs))" using assms(1) by (simp add: legal_cs_def)
  have "\<exists>x. upsert ID (csLegs cs) (p_legs p) j = Some x \<and> Status x = LegBroken \<and> BreakID x = BID b"
    if "j \<in> set (BLegIDs b)" for j
  proof -
    have ids: "BLegIDs b = map ID (csLegs cs)" using assms(2) unfolding break_cs_def by (elim conjE)
    from that have "j \<in> ID ` set (csLegs cs)" unfolding ids set_map .
    then obtain x where x: "j = ID x" "x \<in> set (csLegs cs)" by (rule imageE)
    have "Status x = LegBroken \<and> BreakID x = BID b" using assms(2) x(2) unfolding break_cs_def by (elim conjE) (rule bspec)
    then show ?thesis using upsert_lookup [OF d x(2), of "p_legs p"] unfolding x(1) by blast
  qed
  then show ?thesis using assms(2) by (auto simp: broken_as_def break_cs_def)
qed

lemma ingested_recorded:
  assumes "ingested e l r p p'" "p_legs p (ID l) = None"
  shows "recorded (ID l) r p'"
proof -
  obtain cs where cs: "legal_cs cs p" "p' = apply_spec cs p" "outcome_cs (stamped e l) r cs"
    using assms by (auto simp: ingested_def)
  note m = match_recorded [OF cs(1), of "stamped e l"] and b = break_recorded [OF cs(1), of "stamped e l"]
  show ?thesis
    using cs(3) m b unfolding recorded_def outcome_cs_def cs(2) by (auto simp: open_legs_def)
qed

text \<open>Along any run a leg stays, and takes only steps of its life cycle.\<close>

lemma evolves_star_leg:
  "evolves\<^sup>*\<^sup>* p p' \<Longrightarrow> p_legs p i = Some l \<Longrightarrow> \<exists>l'. p_legs p' i = Some l' \<and> advances\<^sup>*\<^sup>* l l'"
proof (induction rule: rtranclp_induct)
  case (step p' p'')
  then obtain l' where l': "p_legs p' i = Some l'" "advances\<^sup>*\<^sup>* l l'" by blast
  then show ?case using evolves_leg [OF step(2) l'(1)] by (auto intro: rtranclp.rtrancl_into_rtrancl)
qed auto

lemma advances_star_keeps:
  "advances\<^sup>*\<^sup>* l l' \<Longrightarrow> ID l' = ID l \<and> same_business l l' \<and> IngestedAt l' = IngestedAt l \<and>
     (Status l' = Status l \<or> Status l = LegOpen \<and> Status l' \<in> {LegMatched, LegBroken} \<or>
      Status l = LegBroken \<and> Status l' = LegMatched)"
proof (induction rule: rtranclp_induct)
  case base
  then show ?case by (simp add: same_business_def)
next
  case (step l' l'')
  have "ID l'' = ID l' \<and> same_business l' l'' \<and> IngestedAt l'' = IngestedAt l'"
    using step(2) by (auto simp: advances_def same_business_def mark_matched_def mark_broken_def)
  moreover have "Status l' = LegOpen \<and> Status l'' \<in> {LegMatched, LegBroken} \<or> Status l' = LegBroken \<and> Status l'' = LegMatched"
    using step(2) by (auto simp: advances_def mark_matched_def mark_broken_def)
  ultimately show ?case using step(3) by (auto simp: same_business_def)
qed

end
