(* ===== verification/Recon_Replay.thy ===== *)
theory Recon_Replay
  imports Recon_Operations
begin

text \<open>
  Replay. \<open>replay_all\<close> is the reference: it feeds the events of the log one by one, without pages. The
  paged loop of the code reads the same events, ends for enough fuel, and is not disturbed by the events
  that replaying itself appends to the log.
\<close>

fun replay_all ::
    "(string \<Rightarrow> string) \<Rightarrow> 's Engine \<Rightarrow> ReplayResult \<Rightarrow> Event list \<Rightarrow> ReplayResult \<times> goerr option \<times> 's Engine" where
  "replay_all sha256 e res [] = (res, None, e)"
| "replay_all sha256 e res (ev # evs) =
     (case replay_event sha256 e res ev of
        (res, Some err, e) \<Rightarrow> (res, Some err, e)
      | (res, None, e) \<Rightarrow> replay_all sha256 e res evs)"

lemma replay_all_append:
  "replay_all sha256 e res (xs @ ys) =
     (case replay_all sha256 e res xs of
        (res, Some err, e) \<Rightarrow> (res, Some err, e)
      | (res, None, e) \<Rightarrow> replay_all sha256 e res ys)"
  by (induction xs arbitrary: e res) (auto split: prod.splits option.splits)

text \<open>A page of consecutive events is replayed up to the last sequence number of the replay.\<close>

lemma replay_page_eq:
  assumes "\<forall>j < length evs. Seq (evs ! j) = cursor + int j"
  shows "case replay_all sha256 e res (take (nat (through + 1 - cursor)) evs) of
     (res', Some err, e') \<Rightarrow> \<exists>c. replay_page sha256 e res cursor through evs = (res', c, Some err, e')
   | (res', None, e') \<Rightarrow> replay_page sha256 e res cursor through evs =
       (res', cursor + int (min (length evs) (nat (through + 1 - cursor))), None, e')"
  using assms
proof (induction evs arbitrary: e res cursor)
  case (Cons ev evs)
  have seq: "Seq ev = cursor" using Cons.prems by force
  have "\<forall>j < length evs. Seq (evs ! j) = cursor + 1 + int j"
  proof (intro allI impI)
    fix j assume "j < length evs"
    then show "Seq (evs ! j) = cursor + 1 + int j" using spec [OF Cons.prems, of "Suc j"] by simp
  qed
  note IH = Cons.IH [OF this]
  show ?case
  proof (cases "cursor > through")
    case False
    then have n: "nat (through + 1 - cursor) = Suc (nat (through + 1 - (cursor + 1)))" by linarith
    obtain res1 er e1 where step: "replay_event sha256 e res ev = (res1, er, e1)"
      by (cases "replay_event sha256 e res ev")
    show ?thesis
      using IH [of e1 res1] False seq step n
      by (cases er) (auto split: prod.splits option.splits)
  qed (simp add: seq)
qed simp

lemma replay_slice:
  assumes "m \<le> n"
  shows "take n xs = take m xs @ take (n - m) (drop m xs)"
proof -
  have "n = m + (n - m)" using assms by simp
  then show ?thesis by (metis take_add)
qed

text \<open>The legs that a replay of these events feeds to the engine.\<close>

definition replayed_ids :: "(string \<Rightarrow> string) \<Rightarrow> Event list \<Rightarrow> string set" where
  "replayed_ids sha256 evs =
     {ID l |l ev. ev \<in> set evs \<and> Type ev = EvLegIngested \<and> unmarshalLeg sha256 (Payload ev) = Inr l}"

lemma replayed_ids_Nil [simp]: "replayed_ids sha256 [] = {}"
  by (simp add: replayed_ids_def)

lemma replayed_ids_Cons: "replayed_ids sha256 (ev # evs) = replayed_ids sha256 [ev] \<union> replayed_ids sha256 evs"
  by (auto simp: replayed_ids_def)

definition ingested_events :: "Event list \<Rightarrow> nat" where
  "ingested_events evs = length (filter (\<lambda>ev. Type ev = EvLegIngested) evs)"

lemma ingested_events_Cons:
  "ingested_events (ev # evs) = (if Type ev = EvLegIngested then 1 else 0) + ingested_events evs"
  by (simp add: ingested_events_def)

lemma count_replayed_simps [simp]:
  "EventsRead (count_replayed r res) = EventsRead res" "LegsReplayed (count_replayed r res) = LegsReplayed res + 1"
  "FromSeq (count_replayed r res) = FromSeq res" "ThroughSeq (count_replayed r res) = ThroughSeq res"
  by (simp_all add: count_replayed_def Let_def)

lemma replay_event_counts:
  "replay_event sha256 e res ev = (res', None, e') \<Longrightarrow>
     EventsRead res' = EventsRead res + 1 \<and> LegsReplayed res' = LegsReplayed res + ingested_events [ev]"
  by (auto simp: replay_event_def Let_def ingested_events_def split: if_splits prod.splits sum.splits option.splits)

lemma replay_all_counts:
  "replay_all sha256 e res evs = (res', None, e') \<Longrightarrow>
     EventsRead res' = EventsRead res + length evs \<and> LegsReplayed res' = LegsReplayed res + ingested_events evs"
proof (induction evs arbitrary: e res)
  case (Cons ev evs)
  obtain res1 er e1 where step: "replay_event sha256 e res ev = (res1, er, e1)"
    by (cases "replay_event sha256 e res ev")
  then have "er = None" "replay_all sha256 e1 res1 evs = (res', None, e')" using Cons(2) by (auto split: option.splits)
  then show ?case using Cons.IH replay_event_counts [of sha256 e res ev] step
    by (auto simp: ingested_events_def)
qed (simp add: ingested_events_def)

text \<open>More fuel does not change a result.\<close>

lemma replay_loop_more: "replay_loop fuel sha256 e res cursor through = Some r \<Longrightarrow> fuel \<le> fuel' \<Longrightarrow>
    replay_loop fuel' sha256 e res cursor through = Some r"
proof (induction fuel arbitrary: fuel' e res cursor)
  case (Suc fuel)
  obtain n where n: "fuel' = Suc n" "fuel \<le> n" using Suc(3) by (cases fuel') auto
  show ?case
    using Suc.prems(1) Suc.IH [OF _ n(2)]
    by (auto simp: n(1) split: if_splits sum.splits prod.splits option.splits)
qed simp


text \<open>The end of a replay, and the replay as its start followed by the loop.\<close>

definition replay_end :: "(ReplayResult \<times> goerr option \<times> 's Engine) option \<Rightarrow> (ReplayResult \<times> goerr option \<times> 's Engine) option" where
  "replay_end r =
     (case r of
        None \<Rightarrow> None
      | Some (res, err, e) \<Rightarrow> Some (res, err, (if err = None then notifyOpen e else e)\<lparr>eng_replaying := False\<rparr>))"

lemma Replay_loop:
  assumes "repo_LastSeq (eng_repo e) (eng_store e) = Inr through"
    and "eng_apply (e\<lparr>eng_ticks := eng_ticks e + 1\<rparr>) start = (None, e1)"
    and "addEvent empty_cs EvReplayStarted (eng_clock e (eng_ticks e)) ''replay'' (PReplay (if f < 1 then 1 else f) through) = Inr start"
    and "repo_ResetProjections (eng_repo e1) (eng_store e1) = (None, s)"
  shows "Replay fuel sha256 e f =
    replay_end (replay_loop fuel sha256 (e1\<lparr>eng_store := s, eng_ix := NewIndex (ttl (eng_ix e1)), eng_replaying := True\<rparr>)
      (zero_replay\<lparr>FromSeq := if f < 1 then 1 else f, ThroughSeq := through\<rparr>) (if f < 1 then 1 else f) through)"
  using assms unfolding Replay_def read_clock_def Let_def prod.case
  by (simp only: sum.case option.case prod.case replay_end_def) (auto split: option.splits prod.splits)

context repository
begin

lemma reapplyResolution_ok:
  assumes inv: "eng_inv repo proj good e" and r: "reapplyResolution e ev = (err, e')"
  shows "eng_ok repo proj good e e' \<and> eng_ix e' = eng_ix e \<and> (\<exists>bs. proj (eng_store e') =
    apply_spec (empty_cs\<lparr>csBreaks := bs\<rparr>) (proj (eng_store e)))"
proof -
  have no: "\<exists>bs. proj (eng_store e) = apply_spec (empty_cs\<lparr>csBreaks := bs\<rparr>) (proj (eng_store e))"
    by (rule exI [of _ "[]"]) (simp add: apply_spec_def)
  have "err = None \<and> e' = e \<or> (\<exists>b. eng_apply e (empty_cs\<lparr>csBreaks := [b]\<rparr>) = (err, e'))"
    using r by (auto simp: reapplyResolution_def Let_def split: if_splits sum.splits)
  then show ?thesis
  proof
    assume "err = None \<and> e' = e"
    then show ?thesis using eng_ok_refl [OF inv] no by auto
  next
    assume "\<exists>b. eng_apply e (empty_cs\<lparr>csBreaks := [b]\<rparr>) = (err, e')"
    then obtain b where a: "eng_apply e (empty_cs\<lparr>csBreaks := [b]\<rparr>) = (err, e')" ..
    have "csLegs (empty_cs\<lparr>csBreaks := [b]\<rparr>) = []" by simp
    from quiet_apply [OF inv this a] show ?thesis using no by (cases err) auto
  qed
qed

lemma replay_event_ok:
  assumes inv: "eng_inv repo proj good e" and r: "replay_event sha256 e res ev = (res', err, e')"
  shows "eng_ok repo proj good e e'"
proof -
  consider "e' = e" | x where "reapplyResolution e ev = (x, e')" | l o' where "ingestOne sha256 e l = (o', e')"
    using r by (auto simp: replay_event_def Let_def split: if_splits prod.splits sum.splits option.splits)
  then show ?thesis
    by cases (use eng_ok_refl [OF inv] reapplyResolution_ok [OF inv] ingestOne_spec(1) [OF inv] in auto)
qed

lemma replay_all_run:
  "eng_inv repo proj good e \<Longrightarrow> replay_all sha256 e res evs = (res', err, e') \<Longrightarrow> eng_run repo proj good e e'"
proof (induction evs arbitrary: e res)
  case (Cons ev evs)
  obtain res1 er e1 where step: "replay_event sha256 e res ev = (res1, er, e1)"
    by (cases "replay_event sha256 e res ev")
  note ok = replay_event_ok [OF Cons(2) step]
  then have "eng_inv repo proj good e1" by (simp add: eng_ok_def)
  then show ?case
    using Cons(1,3) eng_run_ok [OF ok] step by (cases er) (auto intro: eng_run_trans)
qed (simp add: eng_run_refl)

text \<open>
  The paged loop: it returns for enough fuel, with the invariant, and its result is that of the reference
  unless the log could not be read.
\<close>

lemma replay_loop_spec:
  assumes "eng_inv repo proj good e" "1 \<le> cursor" "through \<le> int (length (p_events (proj (eng_store e))))"
    "nat (through + 1 - cursor) + 500 \<le> 500 * fuel"
  shows "\<exists>res' err e'. replay_loop fuel sha256 e res cursor through = Some (res', err, e') \<and> eng_run repo proj good e e' \<and>
    (replay_all sha256 e res (take (nat (through + 1 - cursor)) (drop (nat (cursor - 1)) (p_events (proj (eng_store e))))) = (res', err, e')
     \<or> err \<noteq> None \<and> (\<exists>s c x. repo_EventsFrom repo s c replay_page_size = Inl x))"
  using assms
proof (induction fuel arbitrary: e res cursor)
  case (Suc fuel)
  let ?E = "p_events (proj (eng_store e))"
  define n where "n = nat (through + 1 - cursor)"
  define D where "D = drop (nat (cursor - 1)) ?E"
  note inv = Suc(2) and good = inv_simps(2) [OF Suc(2)]
  show ?case
  proof (cases "cursor \<le> through")
    case False
    then show ?thesis using eng_run_refl [OF inv] by simp
  next
    case cur: True
    show ?thesis
    proof (cases "repo_EventsFrom repo (eng_store e) cursor replay_page_size")
      case (Inl x)
      then show ?thesis using cur eng_run_refl [OF inv] inv_simps(1) [OF inv] by auto
    next
      case (Inr evs)
      have evs: "evs = take 500 D"
        using events_from [OF good Suc(3) _ Inr] by (simp add: replay_page_size_def D_def)
      have len: "n \<le> length D" "0 < n" using cur Suc(3,4) by (auto simp: n_def D_def)
      have ne: "evs \<noteq> []" using len by (auto simp: evs)
      have "\<forall>j < length evs. Seq (evs ! j) = cursor + int j"
        using event_seqs [OF good] Suc(3) by (auto simp: evs D_def)
      note page = replay_page_eq [OF this, of sha256 e res through, folded n_def]
      obtain res1 er e1 where all: "replay_all sha256 e res (take n evs) = (res1, er, e1)"
        by (cases "replay_all sha256 e res (take n evs)")
      have split: "take n D = take n evs @ take (n - 500) (drop 500 D)"
        using replay_slice [of "min 500 n" n D] by (cases "n \<le> 500") (simp_all add: evs min_def)
      note run1 = replay_all_run [OF inv all]
      show ?thesis
      proof (cases er)
        case (Some x)
        then obtain c where "replay_page sha256 e res cursor through evs = (res1, c, Some x, e1)" using page all by auto
        then have "replay_loop (Suc fuel) sha256 e res cursor through = Some (res1, er, e1)"
          using cur Inr ne Some inv_simps(1) [OF inv] by simp
        moreover have "replay_all sha256 e res (take n D) = (res1, er, e1)" using split all Some by (simp add: replay_all_append)
        ultimately show ?thesis using run1 by (simp add: n_def D_def)
      next
        case None
        define c where "c = cursor + int (min (length evs) n)"
        have pg: "replay_page sha256 e res cursor through evs = (res1, c, None, e1)" using page all None by (simp add: c_def)
        have rest: "replay_all sha256 e res (take n D) = replay_all sha256 e1 res1 (take (n - 500) (drop 500 D))"
          using split all None by (simp add: replay_all_append)
        show ?thesis
        proof (cases "int (length evs) < replay_page_size")
          case True
          then have "length D < 500" by (simp add: evs replay_page_size_def)
          then have "replay_all sha256 e res (take n D) = (res1, None, e1)" using rest by simp
          then show ?thesis using True cur Inr ne pg run1 inv_simps(1) [OF inv] by (simp add: n_def D_def)
        next
          case False
          then have full: "length evs = 500" "500 \<le> length D" by (simp_all add: evs replay_page_size_def)
          obtain more where E1: "p_events (proj (eng_store e1)) = ?E @ more"
            using evolves_star_events run1 by (auto simp: eng_run_def)
          have c: "1 \<le> c" "c = cursor + int (min 500 n)" "nat (through + 1 - c) = n - 500"
            using Suc(3) full(1) cur by (auto simp: c_def n_def)
          have "n \<le> 500 * fuel" using Suc(5) by (simp add: n_def)
          then have "n - 500 + 500 \<le> 500 * fuel" using len(2) by (cases fuel) auto
          moreover have "through \<le> int (length (?E @ more))" using Suc(4) by simp
          ultimately obtain res2 er2 e2 where IH: "replay_loop fuel sha256 e1 res1 c through = Some (res2, er2, e2)"
            "eng_run repo proj good e1 e2"
            "replay_all sha256 e1 res1 (take (n - 500) (drop (nat (c - 1)) (?E @ more))) = (res2, er2, e2) \<or>
              er2 \<noteq> None \<and> (\<exists>s c x. repo_EventsFrom repo s c replay_page_size = Inl x)"
            using Suc.IH [OF eng_run_inv [OF run1] c(1), of res1, unfolded E1 c(3)] by blast
          have "take (n - 500) (drop (nat (c - 1)) (?E @ more)) = take (n - 500) (drop 500 D)"
          proof (cases "n \<le> 500")
            case False
            then have "nat (c - 1) = nat (cursor - 1) + 500" using c(2) Suc(3) by linarith
            moreover have "nat (cursor - 1) + n \<le> length ?E" using len(1) False by (simp add: D_def)
            ultimately show ?thesis using False by (simp add: D_def add.commute)
          qed simp
          then show ?thesis
            using IH False cur Inr ne pg rest eng_run_trans [OF run1 IH(2)] inv_simps(1) [OF inv] by (auto simp: n_def D_def)
        qed
      qed
    qed
  qed
qed simp

text \<open>In a replay the legs come from the log and nothing is logged as ingested again.\<close>

lemma replay_event_legs:
  assumes inv: "eng_inv repo proj good e" and rep: "eng_replaying e" and r: "replay_event sha256 e res ev = (res', None, e')"
  shows "dom (p_legs (proj (eng_store e'))) = dom (p_legs (proj (eng_store e))) \<union> replayed_ids sha256 [ev]"
    "quiet_ext (p_events (proj (eng_store e))) (p_events (proj (eng_store e')))"
proof -
  consider (skip) "Type ev \<noteq> EvLegIngested" "e' = e"
    | (resolve) "Type ev = EvBreakResolved" "reapplyResolution e ev = (None, e')"
    | (leg) l out where "Type ev = EvLegIngested" "unmarshalLeg sha256 (Payload ev) = Inr l" "ingestOne sha256 e l = (Inr out, e')"
    using r by (auto simp: replay_event_def Let_def split: if_splits prod.splits sum.splits option.splits)
  then have "dom (p_legs (proj (eng_store e'))) = dom (p_legs (proj (eng_store e))) \<union> replayed_ids sha256 [ev] \<and>
     quiet_ext (p_events (proj (eng_store e))) (p_events (proj (eng_store e')))"
  proof cases
    case skip
    then show ?thesis by (simp add: replayed_ids_def)
  next
    case resolve
    then show ?thesis using reapplyResolution_ok [OF inv resolve(2)] by (auto simp: replayed_ids_def)
  next
    case leg
    have "replayed_ids sha256 [ev] = {ID l}" using leg(1,2) by (auto simp: replayed_ids_def)
    then show ?thesis
      using ingested_dom [OF ingestOne_spec(3) [OF inv leg(3) refl]] ingested_quiet [OF ingestOne_spec(3) [OF inv leg(3) refl]] rep
      by simp
  qed
  then show "dom (p_legs (proj (eng_store e'))) = dom (p_legs (proj (eng_store e))) \<union> replayed_ids sha256 [ev]"
    "quiet_ext (p_events (proj (eng_store e))) (p_events (proj (eng_store e')))" by blast+
qed

lemma replay_all_legs:
  "eng_inv repo proj good e \<Longrightarrow> eng_replaying e \<Longrightarrow> replay_all sha256 e res evs = (res', None, e') \<Longrightarrow>
     dom (p_legs (proj (eng_store e'))) = dom (p_legs (proj (eng_store e))) \<union> replayed_ids sha256 evs \<and>
     quiet_ext (p_events (proj (eng_store e))) (p_events (proj (eng_store e')))"
proof (induction evs arbitrary: e res)
  case (Cons ev evs)
  obtain res1 er e1 where step: "replay_event sha256 e res ev = (res1, er, e1)"
    by (cases "replay_event sha256 e res ev")
  have er: "er = None" "replay_all sha256 e1 res1 evs = (res', None, e')" using Cons(4) step by (auto split: option.splits)
  note ok = replay_event_ok [OF Cons(2) step]
  then have e1: "eng_inv repo proj good e1" "eng_replaying e1" using Cons(3) by (simp_all add: eng_ok_def)
  show ?case
    using Cons.IH [OF e1 er(2)] replay_event_legs [OF Cons(2,3) step [unfolded er(1)]] replayed_ids_Cons [of sha256 ev evs]
    by (auto intro: quiet_ext_trans)
qed simp

text \<open>A replay is refused at its start and changes no projection, or clears them and feeds the log to the engine.\<close>

lemma Replay_cases:
  assumes inv: "eng_inv repo proj good e" and rep: "\<not> eng_replaying e"
  obtains (refused) x e' where "\<And>fuel. Replay fuel sha256 e f = Some (zero_replay, Some x, e')"
    "eng_inv repo proj good e'" "\<not> eng_replaying e'" "eng_clock e' = eng_clock e" "eng_rules e' = eng_rules e"
    "settles\<^sup>*\<^sup>* (proj (eng_store e)) (proj (eng_store e'))"
    "(\<exists>y. repo_LastSeq repo (eng_store e) = Inl y) \<or> (\<exists>s cs. fst (repo_Apply repo s cs) \<noteq> None) \<or>
     (\<exists>s. fst (repo_ResetProjections repo s) \<noteq> None)"
  | (fed) e2 res0 more where
    "\<And>fuel. Replay fuel sha256 e f =
       replay_end (replay_loop fuel sha256 e2 res0 (if f < 1 then 1 else f) (int (length (p_events (proj (eng_store e))))))"
    "eng_inv repo proj good e2" "eng_replaying e2" "eng_clock e2 = eng_clock e" "eng_rules e2 = eng_rules e"
    "p_legs (proj (eng_store e2)) = Map.empty" "p_events (proj (eng_store e2)) = p_events (proj (eng_store e)) @ more"
    "quiet_ext (p_events (proj (eng_store e))) (p_events (proj (eng_store e2)))" "EventsRead res0 = 0" "LegsReplayed res0 = 0"
proof -
  let ?P = "proj (eng_store e)"
  let ?c = "if f < 1 then 1 else f"
  define e0 where "e0 = e\<lparr>eng_ticks := eng_ticks e + 1\<rparr>"
  have e0: "eng_inv repo proj good e0" "eng_store e0 = eng_store e" "\<not> eng_replaying e0"
    "eng_rules e0 = eng_rules e" "eng_clock e0 = eng_clock e"
    using inv rep by (simp_all add: e0_def)
  show thesis
  proof (cases "repo_LastSeq repo (eng_store e)")
    case (Inl y)
    then have "Replay fuel sha256 e f = Some (zero_replay, Some (Errorf ''last seq: '' y ''''), e)" for fuel
      using inv_simps(1) [OF inv] by (simp add: Replay_def)
    then show thesis using refused [of _ e] inv rep Inl by blast
  next
    case thr: (Inr through)
    have through: "through = int (length (p_events ?P))" by (rule last_seq [OF inv_simps(2) [OF inv] thr])
    have thr': "repo_LastSeq (eng_repo e) (eng_store e) = Inr through" using thr inv_simps(1) [OF inv] by simp
    obtain start where start: "addEvent empty_cs EvReplayStarted (eng_clock e (eng_ticks e)) ''replay'' (PReplay ?c through) = Inr start"
      "csLegs start = []" "\<forall>ev \<in> set (csEvents start). Type ev \<noteq> EvLegIngested"
      using addEvent_Inr [of empty_cs EvReplayStarted "eng_clock e (eng_ticks e)" "''replay''" "PReplay ?c through"] by simp
    obtain er e1 where a: "eng_apply e0 start = (er, e1)" by (cases "eng_apply e0 start")
    have e1: "eng_inv repo proj good e1" "\<not> eng_replaying e1" "eng_rules e1 = eng_rules e" "eng_clock e1 = eng_clock e"
      "proj (eng_store e1) = (if er = None then apply_spec start ?P else ?P)"
      using quiet_apply [OF e0(1) start(2) a] e0 by (auto simp: eng_ok_def)
    have set1: "settles\<^sup>*\<^sup>* ?P (proj (eng_store e1))" using settles_no_legs [OF start(2,3), of ?P] by (auto simp: e1(5))
    show thesis
    proof (cases er)
      case (Some x)
      then have "Replay fuel sha256 e f = Some (zero_replay, Some x, e1)" for fuel
        using thr' start(1) a by (simp add: Replay_def read_clock_def e0_def)
      moreover have "fst (repo_Apply repo (eng_store e0) start) \<noteq> None"
        using a Some inv_simps(1) [OF e0(1)] by (auto simp: eng_apply_def split: prod.splits)
      ultimately show thesis using refused [of x e1] e1(1-4) set1 by blast
    next
      case None
      obtain er2 s where reset: "repo_ResetProjections repo (eng_store e1) = (er2, s)"
        by (cases "repo_ResetProjections repo (eng_store e1)")
      have reset': "repo_ResetProjections (eng_repo e1) (eng_store e1) = (er2, s)" using reset inv_simps(1) [OF e1(1)] by simp
      note a' = a [unfolded None e0_def]
      show thesis
      proof (cases er2)
        case (Some x)
        have s: "good s" "proj s = proj (eng_store e1)"
          using reset_err [OF inv_simps(2) [OF e1(1)] reset [unfolded Some]] by auto
        have "Replay fuel sha256 e f = Some (zero_replay, Some (Errorf ''reset projections: '' x ''''), e1\<lparr>eng_store := s\<rparr>)" for fuel
          using thr' start(1) a' reset' Some by (simp add: Replay_def read_clock_def)
        moreover have "fst (repo_ResetProjections repo (eng_store e1)) \<noteq> None" using reset Some by simp
        moreover have "eng_inv repo proj good (e1\<lparr>eng_store := s\<rparr>)" "\<not> eng_replaying (e1\<lparr>eng_store := s\<rparr>)"
          "eng_clock (e1\<lparr>eng_store := s\<rparr>) = eng_clock e" "eng_rules (e1\<lparr>eng_store := s\<rparr>) = eng_rules e"
          "settles\<^sup>*\<^sup>* ?P (proj (eng_store (e1\<lparr>eng_store := s\<rparr>)))"
          using e1(1-4) s set1 by (simp_all add: eng_inv_def)
        ultimately show thesis by (intro refused) blast+
      next
        case None': None
        have s: "good s" "proj s = reset_spec (proj (eng_store e1))"
          using reset_ok [OF inv_simps(2) [OF e1(1)] reset [unfolded None']] by auto
        define e2 where "e2 = e1\<lparr>eng_store := s, eng_ix := NewIndex (ttl (eng_ix e1)), eng_replaying := True\<rparr>"
        have e2: "eng_inv repo proj good e2" "eng_replaying e2" "eng_clock e2 = eng_clock e" "eng_rules e2 = eng_rules e"
          "p_legs (proj (eng_store e2)) = Map.empty"
          "p_events (proj (eng_store e2)) = p_events ?P @ number_events (length (p_events ?P)) (csEvents start)"
          using s inv_simps(1) [OF e1(1)] e1(3-5) None
          by (auto simp: e2_def eng_inv_def reset_spec_def open_legs_def fun_eq_iff)
        show thesis
          by (rule fed [OF Replay_loop [OF thr' a' start(1) reset' [unfolded None'], folded e2_def, unfolded through] e2])
            (simp_all add: e2(6) quiet_ext_number [OF start(3)] zero_replay_def)
      qed
    qed
  qed
qed

lemma Replay_more:
  assumes inv: "eng_inv repo proj good e" and rep: "\<not> eng_replaying e"
    and r: "Replay fuel sha256 e f = Some r" and more: "fuel \<le> fuel'"
  shows "Replay fuel' sha256 e f = Some r"
proof (rule Replay_cases [OF inv rep, of sha256 f])
  fix x e' assume "\<And>fuel. Replay fuel sha256 e f = Some (zero_replay, Some x, e')"
  then show ?thesis using r by metis
next
  fix e2 :: "'s Engine" and res0
  let ?loop = "\<lambda>fuel. replay_loop fuel sha256 e2 res0 (if f < 1 then 1 else f) (int (length (p_events (proj (eng_store e)))))"
  assume run: "\<And>fuel. Replay fuel sha256 e f = replay_end (?loop fuel)"
  obtain r' where r': "?loop fuel = Some r'" using r run [of fuel] by (cases "?loop fuel") (simp_all add: replay_end_def)
  then have "?loop fuel' = Some r'" by (rule replay_loop_more [OF _ more])
  then show ?thesis using r r' run [of fuel] run [of fuel'] by simp
qed

text \<open>The fuel that a replay needs: one round per 500 events and one more.\<close>

lemma Replay_spec:
  fixes f :: int
  assumes inv: "eng_inv repo proj good e" and rep: "\<not> eng_replaying e"
    and fuel: "length (p_events (proj (eng_store e))) + 500 \<le> 500 * fuel"
  shows "\<exists>res err e'. Replay fuel sha256 e f = Some (res, err, e') \<and> eng_inv repo proj good e' \<and> \<not> eng_replaying e' \<and>
    eng_rules e' = eng_rules e \<and> eng_clock e' = eng_clock e \<and>
    (\<exists>more. p_events (proj (eng_store e')) = p_events (proj (eng_store e)) @ more) \<and>
    (err = None \<longrightarrow>
       (let evs = drop (nat (f - 1)) (p_events (proj (eng_store e))) in
        dom (p_legs (proj (eng_store e'))) = replayed_ids sha256 evs \<and>
        quiet_ext (p_events (proj (eng_store e))) (p_events (proj (eng_store e'))) \<and>
        EventsRead res = length evs \<and> LegsReplayed res = ingested_events evs))"
proof (rule Replay_cases [OF inv rep, of sha256 f])
  fix x e' assume "\<And>fuel. Replay fuel sha256 e f = Some (zero_replay, Some x, e')"
    "eng_inv repo proj good e'" "\<not> eng_replaying e'" "eng_clock e' = eng_clock e" "eng_rules e' = eng_rules e"
    "settles\<^sup>*\<^sup>* (proj (eng_store e)) (proj (eng_store e'))"
  then show ?thesis using evolves_star_events [OF settles_star_evolves] by simp
next
  fix e2 res0 more
  let ?P = "proj (eng_store e)" and ?c = "if f < 1 then 1 else f"
  let ?n = "int (length (p_events ?P))" and ?evs = "drop (nat (f - 1)) (p_events ?P)"
  assume run: "\<And>fuel. Replay fuel sha256 e f = replay_end (replay_loop fuel sha256 e2 res0 ?c ?n)"
    and e2: "eng_inv repo proj good e2" "eng_replaying e2" "eng_clock e2 = eng_clock e" "eng_rules e2 = eng_rules e"
    "p_legs (proj (eng_store e2)) = Map.empty" "p_events (proj (eng_store e2)) = p_events ?P @ more" "quiet_ext (p_events ?P) (p_events (proj (eng_store e2)))"
    and res0: "EventsRead res0 = 0" "LegsReplayed res0 = 0"
  have bound: "nat (?n + 1 - ?c) + 500 \<le> 500 * fuel" "1 \<le> ?c" "?n \<le> int (length (p_events (proj (eng_store e2))))"
    using fuel by (auto simp: e2(6))
  have slice: "take (nat (?n + 1 - ?c)) (drop (nat (?c - 1)) (p_events (proj (eng_store e2)))) = ?evs"
    by (auto simp: e2(6) nat_diff_distrib)
  obtain res err e' where loop: "replay_loop fuel sha256 e2 res0 ?c ?n = Some (res, err, e')" "eng_run repo proj good e2 e'"
    "replay_all sha256 e2 res0 ?evs = (res, err, e') \<or> err \<noteq> None"
    using replay_loop_spec [OF e2(1) bound(2,3,1), of sha256 res0, unfolded slice] by blast
  define e'' where "e'' = (if err = None then notifyOpen e' else e')\<lparr>eng_replaying := False\<rparr>"
  have "Replay fuel sha256 e f = Some (res, err, e'')" by (simp add: run loop(1) replay_end_def e''_def)
  moreover have frame: "eng_inv repo proj good e''" "\<not> eng_replaying e''" "proj (eng_store e'') = proj (eng_store e')"
    "eng_rules e'' = eng_rules e" "eng_clock e'' = eng_clock e"
    using loop(2) e2(3,4) by (auto simp: e''_def eng_run_def eng_inv_def hook_defs)
  moreover have "\<exists>more. p_events (proj (eng_store e'')) = p_events ?P @ more"
    using evolves_star_events loop(2) e2(6) frame(3) by (fastforce simp: eng_run_def)
  moreover have "let evs = ?evs in dom (p_legs (proj (eng_store e''))) = replayed_ids sha256 evs \<and>
      quiet_ext (p_events ?P) (p_events (proj (eng_store e''))) \<and>
      EventsRead res = length evs \<and> LegsReplayed res = ingested_events evs" if "err = None"
  proof -
    have all: "replay_all sha256 e2 res0 ?evs = (res, None, e')" using loop(3) that by simp
    show ?thesis
      using replay_all_legs [OF e2(1,2) all] replay_all_counts [OF all] res0 quiet_ext_trans [OF e2(7)]
      by (simp add: frame(3) e2(5) Let_def)
  qed
  ultimately show ?thesis by blast
qed

end

end
