(* ===== verification/Recon_Progress.thy ===== *)
theory Recon_Progress
  imports Recon_Replay
begin

text \<open>
  Progress over a repository whose calls do not fail: when the instants of the clock can be written in
  JSON, no operation of the engine fails on its own.
\<close>

lemma addEvent_total:
  "list_all time_json_ok (payload_times p) \<Longrightarrow>
     addEvent cs typ now a p = Inr (cs\<lparr>csEvents := csEvents cs @ [\<lparr>Seq = 0, Type = typ, At = now, AggregateID = a, Payload = p\<rparr>]\<rparr>)"
  by (simp add: addEvent_Inr)

lemma openBreak_total:
  assumes "time_json_ok now"
  shows "\<exists>b cs'. openBreak sha256 e cs now trigger related legs = Inr (b, cs')"
  using assms by (simp add: openBreak_def Let_def addEvent_total)

text \<open>The time of ingestion of a leg to be logged: missing, or one that JSON can express.\<close>

definition leg_time_ok :: "Leg \<Rightarrow> bool" where
  "leg_time_ok l \<longleftrightarrow> IsZero (IngestedAt l) \<or> time_json_ok (IngestedAt l)"

definition clock_ok :: "'s Engine \<Rightarrow> bool" where
  "clock_ok e \<longleftrightarrow> (\<forall>n. time_json_ok (eng_clock e n))"

lemma stamped_time: "clock_ok e \<Longrightarrow> leg_time_ok l \<Longrightarrow> time_json_ok (IngestedAt (stamped e l))"
  by (auto simp: stamped_def clock_ok_def leg_time_ok_def)

lemma clock_ok_run: "eng_run repo proj good e e' \<Longrightarrow> clock_ok e \<Longrightarrow> clock_ok e'"
  by (simp add: eng_run_def clock_ok_def)

lemma clock_ok_ok: "eng_ok repo proj good e e' \<Longrightarrow> clock_ok e \<Longrightarrow> clock_ok e'"
  by (simp add: eng_ok_def clock_ok_def)

text \<open>A replay succeeds when the log can be decoded.\<close>

definition decodable :: "(string \<Rightarrow> string) \<Rightarrow> Event list \<Rightarrow> bool" where
  "decodable sha256 evs \<longleftrightarrow>
     (\<forall>ev \<in> set evs. Type ev = EvLegIngested \<longrightarrow> (\<exists>l. unmarshalLeg sha256 (Payload ev) = Inr l \<and> leg_time_ok l))"

context reliable_repository
begin

lemma eng_apply_total:
  assumes "eng_repo e = repo"
  shows "\<exists>e'. eng_apply e cs = (None, e')"
  using apply_total [of "eng_store e" cs] assms
  by (cases "repo_Apply repo (eng_store e) cs") (simp add: eng_apply_def)

lemma ingest_new_total:
  assumes repo: "eng_repo e = repo" and now: "time_json_ok now"
  shows "\<exists>out e'. ingest_new sha256 e cs now related l = (Inr out, e')"
proof -
  note ap = eng_apply_total [OF repo]
  have brk: "\<exists>out e'. ingest_break sha256 e cs now trigger related l = (Inr out, e')" for trigger
  proof -
    obtain b cs' where "openBreak sha256 e cs now trigger related [l] = Inr (b, cs')" using openBreak_total [OF now] by blast
    moreover obtain e' where "eng_apply e cs' = (None, e')" using ap by blast
    ultimately show ?thesis by (simp add: ingest_break_def commit_def Let_def)
  qed
  have conf: "\<exists>out e'. ingest_conflict sha256 e cs now related l ps = (Inr out, e')" for ps
  proof -
    obtain b cs' where "openBreak sha256 e cs now TriggerRefConflict related (l # ps) = Inr (b, cs')"
      using openBreak_total [OF now] by blast
    moreover obtain e' where "eng_apply e cs' = (None, e')" using ap by blast
    ultimately show ?thesis by (simp add: ingest_conflict_def Let_def)
  qed
  have mat: "\<exists>out e'. ingest_match e cs now l m = (Inr out, e')" for m
  proof -
    have "\<exists>e'. eng_apply e cs' = (None, e')" for cs' by (rule ap)
    then show ?thesis using now by (auto simp: ingest_match_def Let_def addEvent_total split: prod.splits option.splits) (metis Pair_inject option.distinct(1))
  qed
  have late: "\<exists>out e'. ingest_late sha256 e cs now l r b = (Inr out, e')" for r b
  proof -
    have "\<exists>e'. eng_apply e cs' = (None, e')" for cs' by (rule ap)
    then show ?thesis using now by (auto simp: ingest_late_def Let_def addEvent_total split: prod.splits option.splits) (metis Pair_inject option.distinct(1))
  qed
  have wait: "\<exists>out e'. ingest_wait e cs l = (Inr out, e')"
  proof -
    obtain e' where "eng_apply e (cs\<lparr>csLegs := csLegs cs @ [l\<lparr>Status := LegOpen\<rparr>]\<rparr>) = (None, e')" using ap by blast
    then show ?thesis by (simp add: ingest_wait_def Let_def)
  qed
  show ?thesis
    using brk conf mat late wait by (auto simp: ingest_new_def Let_def split: option.splits)
qed

lemma ingestOne_total:
  assumes inv: "eng_inv repo proj good e" and clock: "clock_ok e" and l: "leg_time_ok l"
  shows "\<exists>out e'. ingestOne sha256 e l = (Inr out, e')"
proof -
  define now where "now = eng_clock e (eng_ticks e)"
  define e0 where "e0 = e\<lparr>eng_ticks := eng_ticks e + 1\<rparr>"
  have e0: "eng_repo e0 = repo" using inv_simps(1) [OF inv] by (simp add: e0_def)
  have now: "time_json_ok now" using clock by (simp add: clock_ok_def now_def)
  have t: "list_all time_json_ok (payload_times (PLeg (stamped e l)))" using stamped_time [OF clock l] by simp
  have one: "ingestOne sha256 e l = (case repo_HasLeg repo (eng_store e0) (ID l) of
        Inl err \<Rightarrow> (Inl (Errorf ''dedupe lookup: '' err ''''), e0)
      | Inr seen \<Rightarrow>
          if seen then ingest_duplicate e0 now (stamped e l)
          else
            (case repo_LegsByTxnRef repo (eng_store e0) (TxnRef l) of
               Inl err \<Rightarrow> (Inl (Errorf ''related lookup: '' err ''''), e0)
             | Inr related \<Rightarrow>
                 (case (if eng_replaying e0 then Inr empty_cs
                        else addEvent empty_cs EvLegIngested now (ID l) (PLeg (stamped e l))) of
                    Inl err \<Rightarrow> (Inl err, e0)
                  | Inr cs \<Rightarrow> ingest_new sha256 e0 cs now related (stamped e l))))"
    using stamped_def [of e l, folded now_def, symmetric]
    by (simp only: ingestOne_def read_clock_def Let_def prod.case now_def [symmetric] e0_def [symmetric] e0 stamped_simps)
  obtain seen where seen: "repo_HasLeg repo (eng_store e0) (ID l) = Inr seen" using has_leg_total by blast
  obtain related where rel: "repo_LegsByTxnRef repo (eng_store e0) (TxnRef l) = Inr related" using legs_by_ref_total by blast
  show ?thesis
  proof (cases seen)
    case True
    have "\<exists>out e'. ingest_duplicate e0 now (stamped e l) = (Inr out, e')"
      using eng_apply_total [OF e0] addEvent_total [OF t, of empty_cs EvLegDuplicate now "ID l"]
      by (auto simp: ingest_duplicate_def Let_def split: option.splits prod.splits) (metis Pair_inject option.distinct(1))
    then show ?thesis using one seen True by simp
  next
    case False
    then show ?thesis
      using one seen rel ingest_new_total [OF e0 now] addEvent_total [OF t, of empty_cs EvLegIngested now "ID l"] by auto
  qed
qed

text \<open>A batch of valid legs is accepted as a whole.\<close>

lemma ingest_loop_total:
  assumes "eng_inv repo proj good e" "clock_ok e" "\<forall>l \<in> set legs. leg_time_ok l" "\<forall>i. ctx i = None"
  shows "\<exists>res' e'. ingest_loop sha256 ctx i e res legs = (res', None, e')"
  using assms
proof (induction legs arbitrary: i e res)
  case (Cons l legs)
  obtain out e1 where one: "ingestOne sha256 e l = (Inr out, e1)" using ingestOne_total Cons.prems by force
  note ok = ingestOne_spec(1) [OF Cons.prems(1) one]
  have "eng_inv repo proj good e1" "clock_ok e1" using ok clock_ok_ok [OF ok] Cons.prems(2) by (simp_all add: eng_ok_def)
  then show ?case using Cons.IH [of e1] Cons.prems(3,4) one by simp
qed simp

lemma Ingest_total:
  assumes "eng_inv repo proj good e" "clock_ok e" "\<forall>l \<in> set legs'. leg_time_ok l" "\<forall>i. ctx i = None"
    "validate_batch sha256 0 legs = Inr legs'"
  shows "\<exists>res e'. Ingest sha256 ctx e legs = (res, None, e')"
  using ingest_loop_total [OF assms(1-4)] assms(5) by (auto simp: Ingest_def split: prod.splits option.splits)
    (metis Pair_inject option.distinct(1))

text \<open>An expiry goes through to its end.\<close>

lemma apply_repo: "eng_apply e cs = (er, e') \<Longrightarrow> eng_repo e' = eng_repo e"
  by (auto simp: eng_apply_def split: prod.splits)

lemma expire_loop_total:
  assumes "eng_repo e = repo" "time_json_ok now" "\<forall>i. ctx i = None"
  shows "\<exists>cnt' e'. expire_loop sha256 ctx i e now forced cnt legs = (cnt', None, e') \<and> eng_repo e' = repo"
  using assms
proof (induction legs arbitrary: i e cnt)
  case (Cons l legs)
  show ?case
  proof (cases "Get (eng_ix e) (ID l) = None")
    case True
    then show ?thesis using Cons by simp
  next
    case False
    obtain related where rel: "repo_LegsByTxnRef repo (eng_store e) (TxnRef l) = Inr related" using legs_by_ref_total by blast
    have ev: "addEvent empty_cs EvLegExpired now (ID l) (PExpired (ID l) forced) \<noteq> Inl x" for x
      by (simp add: addEvent_total)
    obtain cs where cs: "addEvent empty_cs EvLegExpired now (ID l) (PExpired (ID l) forced) = Inr cs"
      using ev by (cases "addEvent empty_cs EvLegExpired now (ID l) (PExpired (ID l) forced)") auto
    obtain b cs' where b: "openBreak sha256 e cs now TriggerWindowExpired related [l] = Inr (b, cs')"
      using openBreak_total [OF Cons.prems(2)] by blast
    obtain e1 where e1: "eng_apply e cs' = (None, e1)" using eng_apply_total [OF Cons.prems(1)] by blast
    have "eng_repo (fireBreak (e1\<lparr>eng_ix := Remove (eng_ix e1) [ID l]\<rparr>) b) = repo"
      using apply_repo [OF e1] Cons.prems(1) by (simp add: hook_defs)
    from Cons.IH [OF this Cons.prems(2,3)] show ?thesis using Cons.prems(1,3) False rel cs b e1 by auto
  qed
qed simp

lemma expire_total:
  assumes inv: "eng_inv repo proj good e" and clock: "clock_ok e" and ctx: "\<forall>i. ctx i = None"
  shows "\<exists>cnt e'. expire sha256 ctx e d forced = (cnt, None, e')"
proof -
  define now where "now = eng_clock e (eng_ticks e)"
  define e0 where "e0 = e\<lparr>eng_ticks := eng_ticks e + 1\<rparr>"
  have e0: "eng_repo e0 = repo" using inv_simps(1) [OF inv] by (simp add: e0_def)
  have now: "time_json_ok now" using clock by (simp add: clock_ok_def now_def)
  obtain cnt e1 where loop: "expire_loop sha256 ctx 0 e0 now forced 0 (Expired (eng_ix e0) now d) = (cnt, None, e1)" "eng_repo e1 = repo"
    using expire_loop_total [OF e0 now ctx] by blast
  obtain e2 where closed: "eng_apply e1 (empty_cs\<lparr>csEvents := [\<lparr>Seq = 0, Type = EvWindowClosed, At = now, AggregateID = ''window'',
      Payload = PClosed (int cnt) d\<rparr>]\<rparr>) = (None, e2)" using eng_apply_total [OF loop(2)] by blast
  have "expire sha256 ctx e d forced = (if Expired (eng_ix e0) now d = [] then (0, None, e0)
      else if forced then (cnt, None, notifyOpen e2) else (cnt, None, notifyOpen e1))"
    using loop(1) closed
    by (simp add: expire_def read_clock_def addEvent_total now_def [symmetric] e0_def [symmetric, unfolded One_nat_def add_Suc_right add_0_right])
  then show ?thesis by simp
qed

lemma replay_event_total:
  assumes inv: "eng_inv repo proj good e" and clock: "clock_ok e" and ev: "decodable sha256 [ev]"
  shows "\<exists>res' e'. replay_event sha256 e res ev = (res', None, e')"
proof -
  have re: "\<exists>e'. reapplyResolution e ev = (None, e')"
    using eng_apply_total [OF inv_simps(1) [OF inv]] by (auto simp: reapplyResolution_def Let_def split: sum.splits)
  consider "Type ev = EvBreakResolved" | "Type ev \<noteq> EvBreakResolved" "Type ev \<noteq> EvLegIngested"
    | l where "Type ev = EvLegIngested" "unmarshalLeg sha256 (Payload ev) = Inr l" "leg_time_ok l"
    using ev by (auto simp: decodable_def)
  then show ?thesis
  proof cases
    case 1
    then show ?thesis using re by (auto simp: replay_event_def Let_def)
  next
    case 2
    then show ?thesis by (simp add: replay_event_def Let_def)
  next
    case (3 l)
    then show ?thesis using ingestOne_total [OF inv clock 3(3), of sha256] by (auto simp: replay_event_def Let_def)
  qed
qed

lemma replay_all_total:
  assumes "eng_inv repo proj good e" "clock_ok e" "decodable sha256 evs"
  shows "\<exists>res' e'. replay_all sha256 e res evs = (res', None, e')"
  using assms
proof (induction evs arbitrary: e res)
  case (Cons ev evs)
  have d: "decodable sha256 [ev]" "decodable sha256 evs" using Cons.prems(3) by (simp_all add: decodable_def)
  obtain res1 e1 where step: "replay_event sha256 e res ev = (res1, None, e1)"
    using replay_event_total [OF Cons.prems(1,2) d(1)] by blast
  note ok = replay_event_ok [OF Cons.prems(1) step]
  have "eng_inv repo proj good e1" "clock_ok e1" using ok clock_ok_ok [OF ok] Cons.prems(2) by (simp_all add: eng_ok_def)
  from Cons.IH [OF this d(2)] show ?case using step by simp
qed simp

lemma Replay_total:
  assumes inv: "eng_inv repo proj good e" and rep: "\<not> eng_replaying e" and clock: "clock_ok e"
    and fuel: "length (p_events (proj (eng_store e))) + 500 \<le> 500 * fuel"
    and d: "decodable sha256 (drop (nat (f - 1)) (p_events (proj (eng_store e))))"
  shows "\<exists>res e'. Replay fuel sha256 e f = Some (res, None, e')"
proof (rule Replay_cases [OF inv rep, of sha256 f])
  assume "(\<exists>y. repo_LastSeq repo (eng_store e) = Inl y) \<or> (\<exists>s cs. fst (repo_Apply repo s cs) \<noteq> None) \<or>
     (\<exists>s. fst (repo_ResetProjections repo s) \<noteq> None)"
  moreover obtain n where "repo_LastSeq repo (eng_store e) = Inr n" using last_seq_total by blast
  ultimately show ?thesis using apply_total reset_total by simp
next
  fix e2 res0 more
  let ?P = "proj (eng_store e)" and ?c = "if f < 1 then 1 else f"
  let ?n = "int (length (p_events ?P))" and ?evs = "drop (nat (f - 1)) (p_events ?P)"
  assume run: "\<And>fuel. Replay fuel sha256 e f = replay_end (replay_loop fuel sha256 e2 res0 ?c ?n)"
    and e2: "eng_inv repo proj good e2" "eng_clock e2 = eng_clock e" "p_events (proj (eng_store e2)) = p_events ?P @ more"
  have bound: "nat (?n + 1 - ?c) + 500 \<le> 500 * fuel" "1 \<le> ?c" "?n \<le> int (length (p_events (proj (eng_store e2))))"
    using fuel by (auto simp: e2(3))
  have slice: "take (nat (?n + 1 - ?c)) (drop (nat (?c - 1)) (p_events (proj (eng_store e2)))) = ?evs"
    by (auto simp: e2(3) nat_diff_distrib)
  obtain res err e' where loop: "replay_loop fuel sha256 e2 res0 ?c ?n = Some (res, err, e')"
    "replay_all sha256 e2 res0 ?evs = (res, err, e') \<or> (\<exists>s c x. repo_EventsFrom repo s c replay_page_size = Inl x)"
    using replay_loop_spec [OF e2(1) bound(2,3,1), of sha256 res0, unfolded slice] by blast
  moreover have "repo_EventsFrom repo s c replay_page_size \<noteq> Inl x" for s c x
    using events_from_total [of s c replay_page_size] by auto
  moreover have "clock_ok e2" using clock by (simp add: clock_ok_def e2(2))
  ultimately have "err = None" using replay_all_total [OF e2(1) _ d, of res0] by auto
  then show ?thesis using run loop(1) by (simp add: replay_end_def)
qed

lemma ResolveBreak_total:
  assumes inv: "eng_inv repo proj good e" and clock: "clock_ok e" and args: "reason \<noteq> ''''" "actor \<noteq> ''''"
    and b: "p_breaks (proj (eng_store e)) i = Some b0" "BStatus b0 \<noteq> BreakResolved"
  shows "\<exists>b e'. ResolveBreak e i reason actor = (b, None, e')"
proof -
  define now where "now = eng_clock e (eng_ticks e)"
  define e0 where "e0 = e\<lparr>eng_ticks := eng_ticks e + 1\<rparr>"
  define b1 where "b1 = b0\<lparr>BStatus := BreakResolved, ResolvedAt := Some now, BReason := reason, BActor := actor\<rparr>"
  define pl where "pl = PResolution \<lparr>rp_BreakID = BID b1, rp_Reason = reason, rp_Actor = actor, rp_At = now, rp_MatchID = ''''\<rparr>"
  have get: "repo_GetBreak repo (eng_store e) i = Inr b0" by (rule get_break_total [OF inv_simps(2) [OF inv] b(1)])
  have "\<exists>cs. addEvent (empty_cs\<lparr>csBreaks := [b1]\<rparr>) EvBreakResolved now (BID b1) pl = Inr cs"
    using clock by (simp add: addEvent_Inr pl_def now_def clock_ok_def)
  then obtain cs where cs: "addEvent (empty_cs\<lparr>csBreaks := [b1]\<rparr>) EvBreakResolved now (BID b1) pl = Inr cs" ..
  obtain e1 where "eng_apply e0 cs = (None, e1)" using eng_apply_total [of e0 cs] inv_simps(1) [OF inv] by (auto simp: e0_def)
  then have "ResolveBreak e i reason actor = (b1, None, e1)"
    using args get b(2) cs by (simp only: ResolveBreak_def read_clock_def Let_def prod.case now_def [symmetric] if_False simp_thms
        e0_def [symmetric] b1_def [symmetric] pl_def [symmetric] inv_simps(1) [OF inv] sum.case option.case)
  then show ?thesis by blast
qed

end

end
