(* ===== verification/Recon_System.thy ===== *)
theory Recon_System
  imports Recon_Progress
begin

text \<open>
  The system: an engine over the memory store, started as \<open>cmd/recon-stream/main.go\<close> starts it, and the
  operations that the API and the sweeper call, in any order and with any outcome, restarts over the same
  store included. What holds in every reachable state.
\<close>

subsection \<open>The log\<close>

text \<open>Every ingestion in the log decodes to a leg with the identifier under which it is logged.\<close>

definition log_ok :: "(string \<Rightarrow> string) \<Rightarrow> Event list \<Rightarrow> bool" where
  "log_ok sha256 evs \<longleftrightarrow>
     (\<forall>ev \<in> set evs. Type ev = EvLegIngested \<longrightarrow>
        (\<exists>l. unmarshalLeg sha256 (Payload ev) = Inr l \<and> leg_time_ok l \<and> ID l = AggregateID ev))"

lemma log_ok_Nil [simp]: "log_ok sha256 []"
  by (simp add: log_ok_def)

lemma log_ok_append [simp]: "log_ok sha256 (xs @ ys) \<longleftrightarrow> log_ok sha256 xs \<and> log_ok sha256 ys"
  by (auto simp: log_ok_def)

lemma log_ok_quiet: "quiet_ext xs ys \<Longrightarrow> log_ok sha256 xs \<Longrightarrow> log_ok sha256 ys"
  by (auto simp: quiet_ext_def) (auto simp: log_ok_def)

lemma log_ok_decodable: "log_ok sha256 evs \<Longrightarrow> decodable sha256 (drop n evs)"
  using in_set_dropD by (fastforce simp: log_ok_def decodable_def)

lemma replayed_logged: "log_ok sha256 evs \<Longrightarrow> replayed_ids sha256 evs = logged_ids evs"
  by (force simp: log_ok_def replayed_ids_def logged_ids_def)


subsection \<open>Legs as the sources deliver them\<close>

text \<open>A decoded leg: its value date was parsed, its time of ingestion is missing or one that JSON can express.\<close>

definition from_json :: "Leg \<Rightarrow> bool" where
  "from_json l \<longleftrightarrow> date_ok (ValueDate l) \<and> leg_time_ok l"

lemma validate_batch_legs:
  "validate_batch sha256 i legs = Inr legs' \<Longrightarrow>
     legs' = map (\<lambda>l. AssignID sha256 (normalise l)) legs \<and> (\<forall>l \<in> set legs. valid_leg (normalise l))"
proof (induction legs arbitrary: i legs')
  case (Cons l legs)
  obtain l1 where l1: "Validate l = (l1, None)" using Cons.prems by (cases "Validate l") (auto split: option.splits)
  obtain rest where rest: "validate_batch sha256 (i + 1) legs = Inr rest" "legs' = AssignID sha256 l1 # rest"
    using Cons.prems l1 by (auto split: sum.splits)
  show ?case using Cons.IH [OF rest(1)] rest(2) l1 by (auto simp: Validate_None)
qed simp

lemma validate_batch_valid:
  "(\<forall>l \<in> set legs. valid_leg (normalise l)) \<Longrightarrow>
     validate_batch sha256 i legs = Inr (map (\<lambda>l. AssignID sha256 (normalise l)) legs)"
  by (induction legs arbitrary: i) (simp_all add: Validate_def leg_problems_Nil)

text \<open>A logged leg decodes to itself, with the identifier under which it was ingested.\<close>

lemma unmarshal_stamped:
  assumes v: "valid_leg l" and j: "from_json l" and c: "clock_ok e"
  shows "\<exists>l'. unmarshalLeg sha256 (PLeg (stamped e (AssignID sha256 l))) = Inr l' \<and> leg_time_ok l' \<and>
     ID l' = ID (AssignID sha256 l)"
proof -
  let ?s = "stamped e (AssignID sha256 l)"
  have date: "ValueDate ?s = ValueDate l" by (simp add: stamped_def AssignID_def)
  have "valid_leg ?s" using v by (simp add: valid_leg_def stamped_def AssignID_def)
  then have val: "Validate ?s = (?s, None)" by (rule Validate_valid)
  have dec: "decode_leg (PLeg ?s) = Inr ?s" using ParseDate_String [of "ValueDate l"] j date
    by (simp add: from_json_def)
  have "leg_time_ok (AssignID sha256 l)" using j by (simp add: from_json_def leg_time_ok_def AssignID_def)
  then have time: "time_json_ok (IngestedAt ?s)" by (rule stamped_time [OF c])
  have "leg_id sha256 ?s = leg_id sha256 l"
    by (simp add: leg_id_def ContentHash_def hash_input_def hash_fields_def attr_def stamped_def AssignID_def)
  then show ?thesis using dec val time by (simp add: unmarshalLeg_def AssignID_def leg_time_ok_def)
qed

lemma from_json_normalise [simp]: "from_json (normalise l) = from_json l"
  by (simp add: from_json_def normalise_def leg_time_ok_def)

text \<open>Ingesting such a leg keeps the log decodable.\<close>

lemma ingested_log_ok:
  assumes i: "ingested e (AssignID sha256 l) r p p'" and l: "valid_leg l" "from_json l" and c: "clock_ok e"
    and log: "log_ok sha256 (p_events p)"
  shows "log_ok sha256 (p_events p')"
proof (cases "eng_replaying e \<or> p_legs p (ID (AssignID sha256 l)) \<noteq> None")
  case True
  then show ?thesis using log_ok_quiet [OF ingested_quiet [OF i] log] by blast
next
  case False
  then obtain cs where cs: "p' = apply_spec cs p" "adds_events (first_cs e EvLegIngested (AssignID sha256 l)) cs"
    using i by (auto simp: ingested_def)
  then obtain evs where evs: "csEvents cs = ingested_event e EvLegIngested (AssignID sha256 l) # evs"
    "\<forall>ev \<in> set evs. Type ev \<noteq> EvLegIngested"
    using False by (auto simp: adds_events_def first_cs_def)
  have n: "number_events n (csEvents cs) = (ingested_event e EvLegIngested (AssignID sha256 l))\<lparr>Seq := int n + 1\<rparr> # number_events (Suc n) evs" for n
    by (simp add: evs(1) number_events_Cons)
  have "log_ok sha256 [(ingested_event e EvLegIngested (AssignID sha256 l))\<lparr>Seq := k\<rparr>]" for k
    using unmarshal_stamped [OF l c] by (auto simp: log_ok_def ingested_event_def)
  moreover have "log_ok sha256 (number_events k evs)" for k
    using log_ok_quiet [OF quiet_ext_number [OF evs(2), of "[]" k]] by simp
  ultimately show ?thesis
    using log log_ok_append [of sha256 "[(ingested_event e EvLegIngested (AssignID sha256 l))\<lparr>Seq := k\<rparr>]" "number_events n evs" for k n]
    by (simp add: cs(1) n)
qed

lemma batch_steps_log:
  assumes "batch_steps repo proj good e (map (AssignID sha256) ls) rs e'" "clock_ok e" "\<not> eng_replaying e"
    "\<forall>l \<in> set ls. valid_leg l \<and> from_json l" "log_ok sha256 (p_events (proj (eng_store e)))"
  shows "log_ok sha256 (p_events (proj (eng_store e'))) \<and>
    dom (p_legs (proj (eng_store e'))) = dom (p_legs (proj (eng_store e))) \<union> ID ` set (map (AssignID sha256) ls) \<and>
    (dom (p_legs (proj (eng_store e))) \<subseteq> logged_ids (p_events (proj (eng_store e))) \<longrightarrow>
     dom (p_legs (proj (eng_store e'))) \<subseteq> logged_ids (p_events (proj (eng_store e'))))"
  using assms
proof (induction ls arbitrary: e rs)
  case Nil
  then show ?case by (cases rs) auto
next
  case (Cons l ls)
  obtain r rs' e1 where rs: "rs = r # rs'" "batch_step repo proj good e (AssignID sha256 l) r e1"
    "batch_steps repo proj good e1 (map (AssignID sha256) ls) rs' e'" using Cons.prems(1) by (cases rs) auto
  have ok: "eng_ok repo proj good e e1" and i: "ingested e (AssignID sha256 l) r (proj (eng_store e)) (proj (eng_store e1))"
    using rs(2) by (simp_all add: batch_step_def)
  have e1: "clock_ok e1" "\<not> eng_replaying e1" using ok clock_ok_ok [OF ok] Cons.prems(2,3) by (simp_all add: eng_ok_def)
  have log1: "log_ok sha256 (p_events (proj (eng_store e1)))"
    using ingested_log_ok [OF i _ _ Cons.prems(2,5)] Cons.prems(4) by simp
  have ls: "\<forall>l \<in> set ls. valid_leg l \<and> from_json l" using Cons.prems(4) by simp
  have sub: "dom (p_legs (proj (eng_store e))) \<subseteq> logged_ids (p_events (proj (eng_store e))) \<longrightarrow>
      dom (p_legs (proj (eng_store e1))) \<subseteq> logged_ids (p_events (proj (eng_store e1)))"
    unfolding ingested_dom [OF i] ingested_log [OF i] using Cons.prems(3) by auto
  note IH = Cons.IH [OF rs(3) e1 ls log1]
  have "dom (p_legs (proj (eng_store e'))) = dom (p_legs (proj (eng_store e))) \<union> ID ` set (map (AssignID sha256) (l # ls))"
    using IH ingested_dom [OF i] by simp
  then show ?case using IH sub by blast
qed


subsection \<open>Steps\<close>

text \<open>\<open>run\<close> makes an engine over the store, with the rules of the configuration, and rebuilds its index.\<close>

definition boots :: "Store \<Rightarrow> Store Engine \<Rightarrow> bool" where
  "boots s e \<longleftrightarrow>
     (\<exists>clf rules t hooks clock e0.
        NewEngine (Some mem_repo) (Some clf) rules t hooks clock s = Inr e0 \<and> (\<forall>n. time_json_ok (clock n)) \<and>
        Rebuild e0 = (None, e))"

inductive sys_step :: "(string \<Rightarrow> string) \<Rightarrow> Store Engine \<Rightarrow> Store Engine \<Rightarrow> bool" for sha256 where
  step_ingest: "Ingest sha256 ctx e legs = (res, err, e') \<Longrightarrow> \<forall>l \<in> set legs. from_json l \<Longrightarrow> sys_step sha256 e e'"
| step_sweep: "Sweep sha256 ctx e = (cnt, err, e') \<Longrightarrow> sys_step sha256 e e'"
| step_close: "CloseWindow sha256 ctx e d = (cnt, err, e') \<Longrightarrow> sys_step sha256 e e'"
| step_resolve: "ResolveBreak e i reason actor = (b, err, e') \<Longrightarrow> sys_step sha256 e e'"
| step_restart: "boots (eng_store e) e' \<Longrightarrow> sys_step sha256 e e'"

inductive reachable :: "(string \<Rightarrow> string) \<Rightarrow> Store Engine \<Rightarrow> bool" for sha256 where
  reach_start: "boots NewStore e \<Longrightarrow> reachable sha256 e"
| reach_step: "reachable sha256 e \<Longrightarrow> sys_step sha256 e e' \<Longrightarrow> reachable sha256 e'"
| reach_replay: "reachable sha256 e \<Longrightarrow> Replay fuel sha256 e f = Some (res, err, e') \<Longrightarrow> reachable sha256 e'"

inductive_cases sys_stepE: "sys_step sha256 e e'"

definition sys_inv :: "(string \<Rightarrow> string) \<Rightarrow> Store Engine \<Rightarrow> bool" where
  "sys_inv sha256 e \<longleftrightarrow>
     eng_inv mem_repo mem_proj mem_ok e \<and> \<not> eng_replaying e \<and> clock_ok e \<and> log_ok sha256 (st_events (eng_store e)) \<and>
     dom (gm_get (st_legs (eng_store e))) \<subseteq> logged_ids (st_events (eng_store e))"

lemma sys_invD:
  assumes "sys_inv sha256 e"
  shows "eng_inv mem_repo mem_proj mem_ok e" "\<not> eng_replaying e" "clock_ok e" "log_ok sha256 (p_events (mem_proj (eng_store e)))"
    "dom (p_legs (mem_proj (eng_store e))) \<subseteq> logged_ids (p_events (mem_proj (eng_store e)))"
  using assms by (simp_all add: sys_inv_def)

text \<open>Starting over a store keeps it.\<close>

lemma boots_inv:
  assumes "boots s e" "mem_ok s"
  shows "eng_inv mem_repo mem_proj mem_ok e \<and> \<not> eng_replaying e \<and> clock_ok e \<and> eng_store e = s"
proof -
  obtain clf rules t hooks clock e0 where b: "NewEngine (Some mem_repo) (Some clf) rules t hooks clock s = Inr e0"
    "\<forall>n. time_json_ok (clock n)" "Rebuild e0 = (None, e)" using assms(1) unfolding boots_def by blast
  have e0: "eng_repo e0 = mem_repo" "eng_store e0 = s" "\<not> eng_replaying e0" "eng_clock e0 = clock"
    using b(1) by (auto simp: NewEngine_def split: option.splits if_splits)
  have "eng_replaying e = eng_replaying e0" "eng_clock e = eng_clock e0"
    using b(3) by (auto simp: Rebuild_def hook_defs split: sum.splits)
  then show ?thesis
    using mem.Rebuild_spec [OF e0(1) _ b(3)] assms(2) e0 b(2) by (simp add: clock_ok_def)
qed

text \<open>A run that brings no new leg.\<close>

lemma settled_inv:
  assumes inv: "sys_inv sha256 e" and run: "eng_run mem_repo mem_proj mem_ok e e'"
    and st: "settles\<^sup>*\<^sup>* (mem_proj (eng_store e)) (mem_proj (eng_store e'))"
  shows "sys_inv sha256 e'"
proof -
  note I = sys_invD [OF inv]
  have "log_ok sha256 (p_events (mem_proj (eng_store e')))" using log_ok_quiet [OF settles_star_quiet [OF st] I(4)] .
  moreover have "dom (p_legs (mem_proj (eng_store e'))) \<subseteq> logged_ids (p_events (mem_proj (eng_store e')))"
    using I(5) settles_star_dom [OF st] quiet_ext_log [OF settles_star_quiet [OF st]] by simp
  ultimately show ?thesis using run I(2) clock_ok_run [OF run I(3)] by (simp add: sys_inv_def eng_run_def)
qed

lemma expire_inv:
  assumes inv: "sys_inv sha256 e" and ex: "expire sha256 ctx e d forced = (cnt, err, e')"
  shows "sys_inv sha256 e'"
  using mem.expire_spec [OF sys_invD(1) [OF inv] ex] settled_inv [OF inv] by (auto simp: broken_out_def)

lemma Ingest_inv:
  assumes inv: "sys_inv sha256 e" and r: "Ingest sha256 ctx e legs = (res, err, e')" and j: "\<forall>l \<in> set legs. from_json l"
  shows "sys_inv sha256 e'"
  using mem.Ingest_spec [OF sys_invD(1) [OF inv] r]
proof (elim disjE exE conjE)
  fix legs' k e1
  assume v: "validate_batch sha256 0 legs = Inr legs'" and b: "batch_steps mem_repo mem_proj mem_ok e (take k legs') (Results res) e1"
    and p: "mem_proj (eng_store e') = mem_proj (eng_store e1)"
  note I = sys_invD [OF inv]
  note legs = validate_batch_legs [OF v]
  have "take k legs' = map (AssignID sha256) (map normalise (take k legs))" using legs by (simp add: take_map)
  note b' = b [unfolded this]
  have ok: "\<forall>l \<in> set (map normalise (take k legs)). valid_leg l \<and> from_json l"
    using legs j set_take_subset [of k legs] by auto
  have run: "eng_run mem_repo mem_proj mem_ok e e'" by (rule mem.Ingest_run [OF I(1) r])
  from batch_steps_log [OF b' I(3,2) ok I(4)]
  have "log_ok sha256 (p_events (mem_proj (eng_store e')))"
    "dom (p_legs (mem_proj (eng_store e'))) \<subseteq> logged_ids (p_events (mem_proj (eng_store e')))"
    using I(5) unfolding p by blast+
  then show ?thesis using I(2) run clock_ok_run [OF run I(3)] by (simp add: sys_inv_def eng_run_def)
qed (use inv in simp)

lemma step_inv: "sys_step sha256 e e' \<Longrightarrow> sys_inv sha256 e \<Longrightarrow> sys_inv sha256 e'"
proof (induction rule: sys_step.induct)
  case (step_ingest ctx e legs res err e')
  then show ?case using Ingest_inv by blast
next
  case (step_sweep ctx e cnt err e')
  then show ?case using expire_inv by (auto simp: Sweep_def)
next
  case (step_close ctx e d cnt err e')
  then show ?case using expire_inv by (auto simp: CloseWindow_def)
next
  case (step_resolve e i reason actor b err e')
  note spec = mem.ResolveBreak_spec [OF sys_invD(1) [OF step_resolve(2)] step_resolve(1)]
  show ?case by (rule settled_inv [OF step_resolve(2)]) (use spec in \<open>auto split: if_splits\<close>)
next
  case (step_restart e e')
  then show ?case
    using boots_inv [of "eng_store e" e'] by (simp add: sys_inv_def eng_inv_def)
qed

text \<open>A replay of the memory store, from any event and with any fuel that ends it.\<close>

lemma Replay_sys:
  assumes inv: "sys_inv sha256 e" and r: "Replay fuel sha256 e f = Some (res, err, e')"
  defines "evs \<equiv> drop (nat (f - 1)) (st_events (eng_store e))"
  shows "err = None \<and> sys_inv sha256 e' \<and> dom (gm_get (st_legs (eng_store e'))) = logged_ids evs \<and>
    quiet_ext (st_events (eng_store e)) (st_events (eng_store e')) \<and>
    EventsRead res = length evs \<and> LegsReplayed res = ingested_events evs"
proof -
  note I = sys_invD [OF inv]
  let ?P = "mem_proj (eng_store e)"
  define big where "big = fuel + length (p_events ?P) + 1"
  have big: "length (p_events ?P) + 500 \<le> 500 * big" "fuel \<le> big" by (simp_all add: big_def)
  have rb: "Replay big sha256 e f = Some (res, err, e')" by (rule mem.Replay_more [OF I(1,2) r big(2)])
  have d: "decodable sha256 (drop (nat (f - 1)) (p_events ?P))" by (rule log_ok_decodable [OF I(4)])
  have err: "err = None" using mem.Replay_total [OF I(1,2,3) big(1) d] rb by simp
  have spec: "eng_inv mem_repo mem_proj mem_ok e'" "\<not> eng_replaying e'" "eng_clock e' = eng_clock e"
    "dom (p_legs (mem_proj (eng_store e'))) = replayed_ids sha256 evs"
    "quiet_ext (p_events ?P) (p_events (mem_proj (eng_store e')))" "EventsRead res = length evs" "LegsReplayed res = ingested_events evs"
    using mem.Replay_spec [OF I(1,2) big(1), of sha256 f] rb err by (auto simp: Let_def evs_def)
  have "log_ok sha256 evs" using I(4) append_take_drop_id [of "nat (f - 1)" "st_events (eng_store e)"]
    by (metis evs_def log_ok_append mem_proj_simps(4))
  then have dom: "dom (p_legs (mem_proj (eng_store e'))) = logged_ids evs" using spec(4) replayed_logged by simp
  have "logged_ids evs \<subseteq> logged_ids (p_events ?P)" using set_drop_subset by (force simp: evs_def logged_ids_def)
  then have "sys_inv sha256 e'"
    using spec dom log_ok_quiet [OF spec(5) I(4)] quiet_ext_log [OF spec(5)] I(3) by (simp add: sys_inv_def clock_ok_def)
  then show ?thesis using err dom spec(5-7) by simp
qed

lemma reachable_inv: "reachable sha256 e \<Longrightarrow> sys_inv sha256 e"
proof (induction rule: reachable.induct)
  case (reach_start e)
  then show ?case using boots_inv [OF reach_start] by (simp add: sys_inv_def) (simp add: NewStore_def)
next
  case (reach_step e e')
  then show ?case using step_inv by blast
next
  case (reach_replay e fuel f res err e')
  then show ?case using Replay_sys by blast
qed


text \<open>Every step but a replay moves the projections along the life cycle, whatever the legs look like.\<close>

lemma step_evolves:
  assumes "sys_step sha256 e e'" "eng_inv mem_repo mem_proj mem_ok e"
  shows "eng_inv mem_repo mem_proj mem_ok e' \<and> evolves\<^sup>*\<^sup>* (mem_proj (eng_store e)) (mem_proj (eng_store e'))"
  using assms
proof (induction rule: sys_step.induct)
  case (step_ingest ctx e legs res err e')
  then show ?case using mem.Ingest_run [OF step_ingest(3,1)] by (simp add: eng_run_def)
next
  case (step_sweep ctx e cnt err e')
  then show ?case using mem.expire_spec [OF step_sweep(2), of sha256 ctx "- 1" False cnt err e'] by (simp add: Sweep_def eng_run_def)
next
  case (step_close ctx e d cnt err e')
  then show ?case
    using mem.expire_spec [OF step_close(2), of sha256 ctx "if d < 0 then 0 else d" True cnt err e'] by (simp add: CloseWindow_def eng_run_def)
next
  case (step_resolve e i reason actor b err e')
  then show ?case using mem.ResolveBreak_spec [OF step_resolve(2,1)] by (simp add: eng_run_def)
next
  case (step_restart e e')
  then show ?case using boots_inv [of "eng_store e" e'] by (simp add: eng_inv_def)
qed

lemma steps_evolve:
  assumes "(sys_step sha256)\<^sup>*\<^sup>* e e'" "eng_inv mem_repo mem_proj mem_ok e"
  shows "eng_inv mem_repo mem_proj mem_ok e' \<and> evolves\<^sup>*\<^sup>* (mem_proj (eng_store e)) (mem_proj (eng_store e'))"
  using assms
proof (induction rule: rtranclp_induct)
  case (step e1 e2)
  then show ?case using step_evolves [OF step(2)] rtranclp_trans [of evolves] by blast
qed simp

end
