(* ===== verification/Recon_Guarantees.thy ===== *)
theory Recon_Guarantees
  imports Recon_System
begin

text \<open>
  What the system promises: the properties of the engine over the memory store, in every reachable state,
  and for any store that keeps the contract where the promise does not depend on the store. Each with a
  concrete instance.
\<close>

subsection \<open>A concrete engine\<close>

definition demo_clf :: "ClassifyInput \<Rightarrow> Classification" where
  "demo_clf _ = \<lparr>c_Category = ''unclassified'', c_Confidence = 0, c_ClassifierID = ''none'', c_Evidence = ''''\<rparr>"

definition demo_hooks :: Hooks where
  "demo_hooks = \<lparr>hasOnLeg = True, hasOnMatch = False, hasOnBreak = True, hasOnOpen = False\<rparr>"

definition demo_sha :: "string \<Rightarrow> string" where
  "demo_sha s = replicate 64 CHR ''0''"

definition demo_engine_at :: "Store \<Rightarrow> Store Engine" where
  "demo_engine_at s =
     \<lparr>eng_rules = DefaultRules, eng_ix = NewIndex hour_ns, eng_repo = mem_repo, eng_clf = demo_clf,
      eng_clock = (\<lambda>_. 2 * hour_ns), eng_hooks = demo_hooks, eng_replaying = False, eng_store = s, eng_ticks = 0, eng_calls = []\<rparr>"

definition sample_leg :: Leg where
  "sample_leg = plain_leg ''rail'' ''R1'' 100 ''VISA'' []"

lemma DefaultRules_ok: "Rules_Validate DefaultRules = None"
  by code_simp

lemma demo_time: "time_json_ok (2 * hour_ns)"
  by code_simp

lemma demo_boots: "boots NewStore (demo_engine_at NewStore)"
proof -
  have "NewEngine (Some mem_repo) (Some demo_clf) DefaultRules hour_ns demo_hooks (\<lambda>_. 2 * hour_ns) NewStore =
      Inr (demo_engine_at NewStore)"
    by (simp add: NewEngine_def DefaultRules_ok demo_engine_at_def hour_ns_def)
  moreover have "Rebuild (demo_engine_at NewStore) = (None, demo_engine_at NewStore)"
    by (simp add: Rebuild_def demo_engine_at_def mem_repo_def mem_OpenLegs_def NewStore_def notifyOpen_def call_hook_def demo_hooks_def)
  ultimately show ?thesis unfolding boots_def using demo_time by blast
qed

lemmas demo_reachable = reach_start [OF demo_boots, of demo_sha]

lemma sample_leg_ok: "valid_leg sample_leg" "normalise sample_leg = sample_leg" "from_json sample_leg" "leg_time_ok sample_leg"
  by code_simp+

text \<open>A store that holds one given leg or break, and the engine over it.\<close>

definition demo_with :: "Leg list \<Rightarrow> Break list \<Rightarrow> Store Engine" where
  "demo_with ls bs = demo_engine_at (snd (mem_Apply NewStore (empty_cs\<lparr>csLegs := ls, csBreaks := bs\<rparr>)))"

lemma demo_with_inv:
  assumes "distinct (map ID ls)" "\<forall>l \<in> set ls. Status l \<noteq> LegOpen"
  shows "eng_inv mem_repo mem_proj mem_ok (demo_with ls bs)"
    "mem_proj (eng_store (demo_with ls bs)) = apply_spec (empty_cs\<lparr>csLegs := ls, csBreaks := bs\<rparr>) (mem_proj NewStore)"
    "clock_ok (demo_with ls bs)" "\<not> eng_replaying (demo_with ls bs)"
    "gm_get (st_legs (eng_store (demo_with ls bs))) = upsert ID ls Map.empty"
    "gm_get (st_breaks (eng_store (demo_with ls bs))) = upsert BID bs Map.empty"
proof -
  let ?cs = "empty_cs\<lparr>csLegs := ls, csBreaks := bs\<rparr>"
  have k: "keeps_refs ?cs (mem_proj NewStore)" using assms(1) by (simp add: keeps_refs_def NewStore_def)
  have r: "mem_ok (snd (mem_Apply NewStore ?cs))" "mem_proj (snd (mem_Apply NewStore ?cs)) = apply_spec ?cs (mem_proj NewStore)"
    using mem_Apply_refines [OF mem_ok_New k] by (metis prod.collapse)+
  have "open_legs (apply_spec ?cs (mem_proj NewStore)) = Map.empty"
    using assms open_legs_closing [of ?cs "mem_proj NewStore"] by (auto simp: fun_eq_iff open_legs_def NewStore_def)
  then show "eng_inv mem_repo mem_proj mem_ok (demo_with ls bs)"
    using r by (simp add: demo_with_def demo_engine_at_def eng_inv_def)
  show p: "mem_proj (eng_store (demo_with ls bs)) = apply_spec ?cs (mem_proj NewStore)"
    using r(2) by (simp add: demo_with_def demo_engine_at_def)
  show "gm_get (st_legs (eng_store (demo_with ls bs))) = upsert ID ls Map.empty"
    "gm_get (st_breaks (eng_store (demo_with ls bs))) = upsert BID bs Map.empty"
    using arg_cong [OF p, of p_legs] arg_cong [OF p, of p_breaks] by (simp_all add: NewStore_def)
  show "clock_ok (demo_with ls bs)" "\<not> eng_replaying (demo_with ls bs)"
    using demo_time by (simp_all add: demo_with_def demo_engine_at_def clock_ok_def)
qed


subsection \<open>Reachable states\<close>

text \<open>
  C1: in every state that the system reaches, by ingestion, expiry, resolution, replay and restart in any order
  and with any outcome, the in-memory window holds exactly the legs that the store has as open, its secondary
  maps agree with it, \<open>OpenLegs\<close> is their number, and the engine is not left in replay mode.
\<close>

theorem window_mirrors_store:
  assumes "reachable sha256 e"
  shows "Get (eng_ix e) = open_legs (mem_proj (eng_store e)) \<and> ix_ok (eng_ix e) \<and>
    eng_OpenLegs e = card (dom (open_legs (mem_proj (eng_store e)))) \<and> \<not> eng_replaying e"
  using reachable_inv [OF assms] Len_lookup [of "eng_ix e"] by (auto simp: sys_inv_def eng_inv_def eng_OpenLegs_def)

theorem window_mirrors_store_witness:
  "\<exists>res err e. Ingest demo_sha (\<lambda>_. None) (demo_engine_at NewStore) [sample_leg] = (res, err, e) \<and>
     Get (eng_ix e) = open_legs (mem_proj (eng_store e))"
proof -
  obtain res err e where r: "Ingest demo_sha (\<lambda>_. None) (demo_engine_at NewStore) [sample_leg] = (res, err, e)"
    by (cases "Ingest demo_sha (\<lambda>_. None) (demo_engine_at NewStore) [sample_leg]")
  have "reachable demo_sha e" by (rule reach_step [OF demo_reachable step_ingest [OF r]]) (simp add: sample_leg_ok(3))
  from window_mirrors_store [OF this] show ?thesis using r by blast
qed



text \<open>
  C2: a matched leg is final. Whatever is ingested, expired, resolved or restarted afterwards, it keeps its
  record, its match included: no leg is ever matched twice, and a match is never undone by a break.
\<close>

theorem matched_is_final:
  assumes "eng_inv mem_repo mem_proj mem_ok e" "(sys_step sha256)\<^sup>*\<^sup>* e e'"
    and "gm_get (st_legs (eng_store e)) i = Some l" "Status l = LegMatched"
  shows "gm_get (st_legs (eng_store e')) i = Some l"
  using evolves_star_matched [of "mem_proj (eng_store e)" "mem_proj (eng_store e')" i l] steps_evolve [OF assms(2,1)] assms(3,4)
  by simp

theorem matched_is_final_witness:
  "let m = (AssignID demo_sha sample_leg)\<lparr>Status := LegMatched, MatchID := ''mat_1''\<rparr>; e = demo_with [m] [] in
   \<forall>ctx cnt err e'. Sweep demo_sha ctx e = (cnt, err, e') \<longrightarrow> gm_get (st_legs (eng_store e')) (ID m) = Some m"
proof -
  define m where "m = (AssignID demo_sha sample_leg)\<lparr>Status := LegMatched, MatchID := ''mat_1''\<rparr>"
  note e = demo_with_inv [of "[m]" "[]"]
  have inv: "eng_inv mem_repo mem_proj mem_ok (demo_with [m] [])" by (rule e(1)) (simp_all add: m_def)
  have get: "gm_get (st_legs (eng_store (demo_with [m] []))) (ID m) = Some m"
    by (subst e(5)) (simp_all add: m_def)
  have "gm_get (st_legs (eng_store e')) (ID m) = Some m" if "Sweep demo_sha ctx (demo_with [m] []) = (cnt, err, e')" for ctx cnt err e'
  proof -
    have "(sys_step demo_sha)\<^sup>*\<^sup>* (demo_with [m] []) e'" by (rule r_into_rtranclp) (rule step_sweep [OF that])
    then show ?thesis by (rule matched_is_final [OF inv _ get]) (simp add: m_def)
  qed
  then show ?thesis unfolding Let_def m_def [symmetric] by blast
qed


text \<open>
  C7: the life cycle. No step loses a leg or changes its business data, its identifier or its time of ingestion;
  an open leg may become matched or broken, a broken one may become matched by a late arrival, and nothing else.
\<close>

theorem leg_lifecycle:
  assumes "eng_inv mem_repo mem_proj mem_ok e" "(sys_step sha256)\<^sup>*\<^sup>* e e'" "gm_get (st_legs (eng_store e)) i = Some l"
  shows "\<exists>l'. gm_get (st_legs (eng_store e')) i = Some l' \<and> ID l' = ID l \<and> same_business l l' \<and> IngestedAt l' = IngestedAt l \<and>
    (Status l' = Status l \<or> Status l = LegOpen \<and> Status l' \<in> {LegMatched, LegBroken} \<or>
     Status l = LegBroken \<and> Status l' = LegMatched)"
  using evolves_star_leg [of "mem_proj (eng_store e)" "mem_proj (eng_store e')" i l] steps_evolve [OF assms(2,1)] assms(3)
    advances_star_keeps by force

theorem leg_lifecycle_witness:
  "let b = (AssignID demo_sha sample_leg)\<lparr>Status := LegBroken, BreakID := ''brk_1''\<rparr>; e = demo_with [b] [] in
   \<forall>ctx cnt err e'. Sweep demo_sha ctx e = (cnt, err, e') \<longrightarrow>
     (\<exists>l'. gm_get (st_legs (eng_store e')) (ID b) = Some l' \<and> Status l' \<in> {LegBroken, LegMatched})"
proof -
  define b where "b = (AssignID demo_sha sample_leg)\<lparr>Status := LegBroken, BreakID := ''brk_1''\<rparr>"
  note e = demo_with_inv [of "[b]" "[]"]
  have inv: "eng_inv mem_repo mem_proj mem_ok (demo_with [b] [])" by (rule e(1)) (simp_all add: b_def)
  have get: "gm_get (st_legs (eng_store (demo_with [b] []))) (ID b) = Some b"
    by (subst e(5)) (simp_all add: b_def)
  have "\<exists>l'. gm_get (st_legs (eng_store e')) (ID b) = Some l' \<and> Status l' \<in> {LegBroken, LegMatched}"
    if "Sweep demo_sha ctx (demo_with [b] []) = (cnt, err, e')" for ctx cnt err e'
  proof -
    have "(sys_step demo_sha)\<^sup>*\<^sup>* (demo_with [b] []) e'" by (rule r_into_rtranclp) (rule step_sweep [OF that])
    from leg_lifecycle [OF inv this get] show ?thesis by (auto simp: b_def)
  qed
  then show ?thesis unfolding Let_def b_def [symmetric] by blast
qed

text \<open>
  C4: the outcome that \<open>ingestOne\<close> reports for a new leg is what it recorded: for a match, the match is stored,
  names the leg, and every leg it names is stored as matched by it; for a healed break the break is resolved as
  well; for a break, the break is stored as open and every leg it names is stored as broken by it; otherwise the
  leg is stored as open and waits in the window.
\<close>

theorem outcome_recorded:
  assumes "eng_inv mem_repo mem_proj mem_ok e" "ingestOne sha256 e l = (Inr r, e')" "gm_get (st_legs (eng_store e)) (ID l) = None"
  shows "recorded (ID l) r (mem_proj (eng_store e')) \<and> (r_Outcome r = OutcomeOpen \<longrightarrow> Get (eng_ix e') (ID l) \<noteq> None)"
proof -
  have rec: "recorded (ID l) r (mem_proj (eng_store e'))"
    by (rule ingested_recorded [OF mem.ingestOne_spec(3) [OF assms(1,2) refl]]) (simp add: assms(3))
  moreover have "Get (eng_ix e') = open_legs (mem_proj (eng_store e'))"
    using mem.ingestOne_spec(1) [OF assms(1,2)] by (simp add: eng_ok_def eng_inv_def)
  ultimately show ?thesis by (auto simp: recorded_def)
qed

theorem outcome_recorded_witness:
  "\<exists>r e'. ingestOne demo_sha (demo_engine_at NewStore) (AssignID demo_sha sample_leg) = (Inr r, e') \<and>
     recorded (ID (AssignID demo_sha sample_leg)) r (mem_proj (eng_store e'))"
proof -
  let ?e = "demo_engine_at NewStore" and ?l = "AssignID demo_sha sample_leg"
  have inv: "eng_inv mem_repo mem_proj mem_ok ?e" "clock_ok ?e"
    using reachable_inv [OF demo_reachable] by (simp_all add: sys_inv_def)
  have "leg_time_ok ?l" using sample_leg_ok(4) by (simp add: leg_time_ok_def AssignID_def)
  then obtain r e' where r: "ingestOne demo_sha ?e ?l = (Inr r, e')" using mem.ingestOne_total [OF inv] by blast
  have "gm_get (st_legs (eng_store ?e)) (ID ?l) = None" by (simp add: demo_engine_at_def NewStore_def)
  from outcome_recorded [OF inv(1) r this] show ?thesis using r by blast
qed


subsection \<open>Batches\<close>

lemma batch_steps_dup:
  assumes "batch_steps repo proj good e legs rs e'" "\<not> eng_replaying e" "ID ` set legs \<subseteq> dom (p_legs (proj (eng_store e)))"
  shows "(\<forall>r \<in> set rs. r_Outcome r = OutcomeDuplicate) \<and>
    p_legs (proj (eng_store e')) = p_legs (proj (eng_store e)) \<and>
    p_matches (proj (eng_store e')) = p_matches (proj (eng_store e)) \<and>
    p_breaks (proj (eng_store e')) = p_breaks (proj (eng_store e)) \<and>
    (\<exists>more. p_events (proj (eng_store e')) = p_events (proj (eng_store e)) @ more \<and>
       map Type more = replicate (length legs) EvLegDuplicate \<and> map AggregateID more = map ID legs)"
  using assms
proof (induction legs arbitrary: e rs)
  case Nil
  then show ?case by (cases rs) auto
next
  case (Cons l legs)
  let ?p = "\<lambda>e. proj (eng_store e)"
  obtain r rs' e1 where rs: "rs = r # rs'" "batch_step repo proj good e l r e1" "batch_steps repo proj good e1 legs rs' e'"
    using Cons.prems(1) by (cases rs) auto
  have e1: "eng_ok repo proj good e e1" "ingested e l r (?p e) (?p e1)" using rs(2) by (simp_all add: batch_step_def)
  have "p_legs (?p e) (ID l) \<noteq> None" using Cons.prems(3) by auto
  then have one: "r_Outcome r = OutcomeDuplicate" "?p e1 = apply_spec (first_cs e EvLegDuplicate l) (?p e)"
    using e1(2) by (auto simp: ingested_def ingest_result_def)
  have p1: "p_legs (?p e1) = p_legs (?p e)" "p_matches (?p e1) = p_matches (?p e)" "p_breaks (?p e1) = p_breaks (?p e)"
    "\<exists>ev. p_events (?p e1) = p_events (?p e) @ [ev] \<and> Type ev = EvLegDuplicate \<and> AggregateID ev = ID l"
    using Cons.prems(2) by (auto simp: one(2) first_cs_def number_events_Cons ingested_event_def)
  have "\<not> eng_replaying e1" "ID ` set legs \<subseteq> dom (p_legs (?p e1))"
    using e1(1) Cons.prems(2,3) by (simp_all add: eng_ok_def p1(1))
  from Cons.IH [OF rs(3) this] obtain more where IH: "\<forall>r \<in> set rs'. r_Outcome r = OutcomeDuplicate"
    "p_legs (?p e') = p_legs (?p e1)" "p_matches (?p e') = p_matches (?p e1)" "p_breaks (?p e') = p_breaks (?p e1)"
    "p_events (?p e') = p_events (?p e1) @ more" "map Type more = replicate (length legs) EvLegDuplicate"
    "map AggregateID more = map ID legs" by blast
  obtain ev where ev: "p_events (?p e1) = p_events (?p e) @ [ev]" "Type ev = EvLegDuplicate" "AggregateID ev = ID l"
    using p1(4) by blast
  have "\<exists>more. p_events (?p e') = p_events (?p e) @ more \<and> map Type more = replicate (length (l # legs)) EvLegDuplicate \<and>
      map AggregateID more = map ID (l # legs)"
    using IH(5-7) ev by (intro exI [of _ "ev # more"]) simp
  then show ?case using IH(1-4) one(1) p1(1-3) by (simp add: rs(1))
qed

text \<open>
  C14: the counters of a batch. Whether or not \<open>Ingest\<close> fails midway, \<open>accepted\<close> is the number of results and the
  sum of \<open>duplicates\<close>, \<open>matched\<close>, \<open>breaks\<close> and \<open>open\<close>, each of which counts its outcomes; the results belong to the
  first legs of the batch in order, and without an error to all of them.
\<close>

theorem batch_accounting:
  assumes "eng_inv mem_repo mem_proj mem_ok e" "Ingest sha256 ctx e legs = (res, err, e')"
  shows "counters_ok res \<and>
    (\<exists>k \<le> length legs. map r_LegID (Results res) = map (\<lambda>l. ID (AssignID sha256 (normalise l))) (take k legs) \<and>
       (err = None \<longrightarrow> k = length legs))"
  using mem.Ingest_spec [OF assms]
proof (elim disjE exE conjE)
  fix legs' k e1
  assume v: "validate_batch sha256 0 legs = Inr legs'" and k: "k \<le> length legs'" "err = None \<longrightarrow> k = length legs'"
    and b: "batch_steps mem_repo mem_proj mem_ok e (take k legs') (Results res) e1" and c: "counters_ok res"
  have legs': "legs' = map (\<lambda>l. AssignID sha256 (normalise l)) legs" using validate_batch_legs [OF v] by simp
  have "map r_LegID (Results res) = map ID (take k legs')" using batch_steps_results [OF b] by simp
  then have "map r_LegID (Results res) = map (\<lambda>l. ID (AssignID sha256 (normalise l))) (take k legs)"
    by (simp add: legs' take_map o_def)
  then show ?thesis using c k by (auto simp: legs')
qed (auto simp: counters_zero zero_batch_def counters_ok_def intro!: exI [of _ 0])

theorem batch_accounting_witness:
  "\<exists>res err e'. Ingest demo_sha (\<lambda>n. if n = 0 then None else Some ErrCanceled) (demo_engine_at NewStore) [sample_leg, sample_leg] = (res, err, e') \<and>
     counters_ok res"
proof -
  obtain res err e' where r: "Ingest demo_sha (\<lambda>n. if n = 0 then None else Some ErrCanceled) (demo_engine_at NewStore) [sample_leg, sample_leg] = (res, err, e')"
    by (cases "Ingest demo_sha (\<lambda>n. if n = 0 then None else Some ErrCanceled) (demo_engine_at NewStore) [sample_leg, sample_leg]")
  have "eng_inv mem_repo mem_proj mem_ok (demo_engine_at NewStore)" using reachable_inv [OF demo_reachable] by (simp add: sys_inv_def)
  from batch_accounting [OF this r] show ?thesis using r by blast
qed

text \<open>
  C14: validation is all or nothing. A batch with an invalid leg is refused with an error that wraps
  \<open>ErrInvalidLeg\<close>, with empty counters and without any effect on the engine; a batch of valid legs is never
  refused for its content.
\<close>

theorem batch_all_or_nothing:
  "if \<exists>l \<in> set legs. \<not> valid_leg (normalise l)
   then \<exists>err. Ingest sha256 ctx e legs = (zero_batch, Some err, e) \<and> err_is err ErrInvalidLeg
   else \<exists>legs'. validate_batch sha256 0 legs = Inr legs' \<and> legs' = map (\<lambda>l. AssignID sha256 (normalise l)) legs"
proof (cases "\<exists>l \<in> set legs. \<not> valid_leg (normalise l)")
  case True
  then have "\<exists>err. validate_batch sha256 i legs = Inl err \<and> err_is err ErrInvalidLeg" for i
  proof (induction legs arbitrary: i)
    case (Cons l legs)
    show ?case
    proof (cases "valid_leg (normalise l)")
      case True
      then have "\<exists>x \<in> set legs. \<not> valid_leg (normalise x)" using Cons.prems by auto
      from Cons.IH [OF this, of "i + 1"] show ?thesis using True by (auto simp: Validate_def leg_problems_Nil)
    next
      case False
      then show ?thesis by (auto simp: Validate_def leg_problems_Nil)
    qed
  qed simp
  then obtain err where "validate_batch sha256 0 legs = Inl err" "err_is err ErrInvalidLeg" by blast
  then show ?thesis using True by (simp add: Ingest_def)
next
  case False
  then show ?thesis using validate_batch_valid [of legs sha256 0] by simp
qed


theorem batch_all_or_nothing_witness:
  "\<exists>err. Ingest demo_sha (\<lambda>_. None) (demo_engine_at NewStore) [sample_leg, sample_leg\<lparr>AmountMinor := 0\<rparr>] =
     (zero_batch, Some err, demo_engine_at NewStore)"
proof -
  have "\<not> valid_leg (normalise (sample_leg\<lparr>AmountMinor := 0\<rparr>))" by (simp add: valid_leg_def normalise_def)
  then show ?thesis
    using batch_all_or_nothing [of "[sample_leg, sample_leg\<lparr>AmountMinor := 0\<rparr>]" demo_sha "\<lambda>_. None" "demo_engine_at NewStore"] by auto
qed

lemma ingest_goes_through:
  assumes "reachable sha256 e" "\<forall>l \<in> set legs. valid_leg (normalise l) \<and> from_json l" "\<forall>n. ctx n = None"
  shows "\<exists>res e'. Ingest sha256 ctx e legs = (res, None, e') \<and> reachable sha256 e' \<and> Accepted res = length legs \<and>
    (\<forall>l \<in> set legs. gm_get (st_legs (eng_store e')) (ID (AssignID sha256 (normalise l))) \<noteq> None)"
proof -
  note I = sys_invD [OF reachable_inv [OF assms(1)]]
  let ?ls = "map normalise legs"
  have v: "validate_batch sha256 0 legs = Inr (map (AssignID sha256) ?ls)"
    using validate_batch_valid [of legs sha256 0] assms(2) by (simp add: o_def)
  have t: "\<forall>l \<in> set (map (AssignID sha256) ?ls). leg_time_ok l"
    using assms(2) by (auto simp: from_json_def leg_time_ok_def AssignID_def normalise_def)
  obtain res e' where r: "Ingest sha256 ctx e legs = (res, None, e')"
    using mem.Ingest_total [OF I(1,3) t assms(3) v] by blast
  obtain e1 where b: "batch_steps mem_repo mem_proj mem_ok e (map (AssignID sha256) ?ls) (Results res) e1" "counters_ok res"
    "mem_proj (eng_store e') = mem_proj (eng_store e1)"
    using mem.Ingest_spec [OF I(1) r] v by auto
  have ok: "\<forall>l \<in> set ?ls. valid_leg l \<and> from_json l" using assms(2) by simp
  have acc: "Accepted res = length legs" using batch_steps_length [OF b(1)] b(2) by (simp add: counters_ok_def Let_def)
  have "dom (p_legs (mem_proj (eng_store e'))) = dom (p_legs (mem_proj (eng_store e))) \<union> ID ` set (map (AssignID sha256) ?ls)"
    unfolding b(3) using batch_steps_log [OF b(1) I(3,2) ok I(4)] by (elim conjE)
  then have "ID (AssignID sha256 (normalise l)) \<in> dom (p_legs (mem_proj (eng_store e')))" if "l \<in> set legs" for l
    using that by auto
  then have "\<forall>l \<in> set legs. gm_get (st_legs (eng_store e')) (ID (AssignID sha256 (normalise l))) \<noteq> None" by (auto simp: dom_def)
  moreover have "reachable sha256 e'" using reach_step [OF assms(1) step_ingest [OF r]] assms(2) by blast
  ultimately show ?thesis using r acc by blast
qed

text \<open>
  progress. In a reachable state a batch of valid legs, under a context that is not cancelled, goes through:
  no error, one result per leg, and every leg is stored afterwards.
\<close>

theorem ingest_progress:
  assumes "reachable sha256 e" "\<forall>l \<in> set legs. valid_leg (normalise l) \<and> from_json l" "\<forall>n. ctx n = None"
  shows "\<exists>res e'. Ingest sha256 ctx e legs = (res, None, e') \<and> reachable sha256 e' \<and> Accepted res = length legs \<and>
    (\<forall>l \<in> set legs. gm_get (st_legs (eng_store e')) (ID (AssignID sha256 (normalise l))) \<noteq> None)"
  by (rule ingest_goes_through [OF assms])

theorem ingest_progress_witness:
  "\<exists>res e'. Ingest demo_sha (\<lambda>_. None) (demo_engine_at NewStore) [sample_leg] = (res, None, e') \<and> Accepted res = 1"
  using ingest_progress [OF demo_reachable, of "[sample_leg]" "\<lambda>_. None"] sample_leg_ok by auto

text \<open>
  C3: redelivery is harmless. When a batch that was ingested without error is delivered again, every leg counts as
  a duplicate; legs, matches, breaks and the window stay as they are, and the log grows by exactly one
  \<open>leg.duplicate\<close> event per leg.
\<close>

theorem redelivery_idempotent:
  assumes "reachable sha256 e" "\<forall>l \<in> set legs. from_json l"
    and "Ingest sha256 ctx e legs = (res, None, e1)" "Ingest sha256 ctx' e1 legs = (res', None, e2)"
  shows "Duplicates res' = length legs \<and> Matched res' = 0 \<and> Breaks res' = 0 \<and> Open res' = 0 \<and>
    gm_get (st_legs (eng_store e2)) = gm_get (st_legs (eng_store e1)) \<and>
    gm_get (st_matches (eng_store e2)) = gm_get (st_matches (eng_store e1)) \<and>
    gm_get (st_breaks (eng_store e2)) = gm_get (st_breaks (eng_store e1)) \<and> Get (eng_ix e2) = Get (eng_ix e1) \<and>
    (\<exists>more. st_events (eng_store e2) = st_events (eng_store e1) @ more \<and>
       map Type more = replicate (length legs) EvLegDuplicate \<and>
       map AggregateID more = map (\<lambda>l. ID (AssignID sha256 (normalise l))) legs)"
proof -
  let ?ls = "map (AssignID sha256) (map normalise legs)"
  have e1: "reachable sha256 e1" by (rule reach_step [OF assms(1) step_ingest [OF assms(3,2)]])
  note I = sys_invD [OF reachable_inv [OF assms(1)]] and I1 = sys_invD [OF reachable_inv [OF e1]]
  obtain legs' f1 where b1: "validate_batch sha256 0 legs = Inr legs'" "batch_steps mem_repo mem_proj mem_ok e legs' (Results res) f1"
    "mem_proj (eng_store e1) = mem_proj (eng_store f1)"
    using mem.Ingest_spec [OF I(1) assms(3)] by auto
  have legs': "legs' = ?ls" "\<forall>l \<in> set (map normalise legs). valid_leg l \<and> from_json l"
    using validate_batch_legs [OF b1(1)] assms(2) by simp_all
  have dom1: "dom (p_legs (mem_proj (eng_store e1))) = dom (p_legs (mem_proj (eng_store e))) \<union> ID ` set ?ls"
    unfolding b1(3) using batch_steps_log [OF b1(2) [unfolded legs'(1)] I(3,2) legs'(2) I(4)] by (elim conjE)
  obtain f2 where b2: "batch_steps mem_repo mem_proj mem_ok e1 ?ls (Results res') f2" "counters_ok res'"
    "mem_proj (eng_store e2) = mem_proj (eng_store f2)"
    using mem.Ingest_spec [OF I1(1) assms(4)] b1(1) legs'(1) by auto
  have sub: "ID ` set ?ls \<subseteq> dom (p_legs (mem_proj (eng_store e1)))" unfolding dom1 by (rule Un_upper2)
  note dup = batch_steps_dup [OF b2(1) I1(2) sub, folded b2(3)]
  have len: "length (Results res') = length legs" using batch_steps_length [OF b2(1)] by simp
  have all: "\<forall>r \<in> set (Results res'). r_Outcome r = OutcomeDuplicate" using dup by (elim conjE)
  have "filter (\<lambda>r. r_Outcome r = OutcomeDuplicate) (Results res') = Results res'"
    "filter (\<lambda>r. r_Outcome r = OutcomeMatched \<or> r_Outcome r = OutcomeResolvedBreak) (Results res') = []"
    "filter (\<lambda>r. r_Outcome r = OutcomeBreak) (Results res') = []" "filter (\<lambda>r. r_Outcome r = OutcomeOpen) (Results res') = []"
    using all by (simp_all add: filter_empty_conv)
  then have counts: "Duplicates res' = length legs \<and> Matched res' = 0 \<and> Breaks res' = 0 \<and> Open res' = 0"
    using b2(2) len by (simp add: counters_ok_def Let_def)
  have "Get (eng_ix e2) = Get (eng_ix e1)"
  proof -
    have "reachable sha256 e2" by (rule reach_step [OF e1 step_ingest [OF assms(4,2)]])
    from sys_invD(1) [OF reachable_inv [OF this]] I1(1) dup show ?thesis by (simp add: eng_inv_def open_legs_def fun_eq_iff)
  qed
  then show ?thesis using counts dup by (simp add: o_def)
qed

theorem redelivery_idempotent_witness:
  "\<exists>res e1 res' e2. Ingest demo_sha (\<lambda>_. None) (demo_engine_at NewStore) [sample_leg] = (res, None, e1) \<and>
     Ingest demo_sha (\<lambda>_. None) e1 [sample_leg] = (res', None, e2) \<and> Duplicates res' = 1"
proof -
  have ok: "\<forall>l \<in> set [sample_leg]. valid_leg (normalise l) \<and> from_json l" "\<forall>l \<in> set [sample_leg]. from_json l" "\<forall>n. (\<lambda>_::nat. None :: goerr option) n = None"
    using sample_leg_ok by simp_all
  obtain res e1 where 1: "Ingest demo_sha (\<lambda>_. None) (demo_engine_at NewStore) [sample_leg] = (res, None, e1)" "reachable demo_sha e1"
    using ingest_goes_through [OF demo_reachable ok(1,3)] by blast
  obtain res' e2 where 2: "Ingest demo_sha (\<lambda>_. None) e1 [sample_leg] = (res', None, e2)"
    using ingest_goes_through [OF 1(2) ok(1,3)] by blast
  show ?thesis using redelivery_idempotent [OF demo_reachable ok(2) 1(1) 2] 1(1) 2 by auto
qed


subsection \<open>Expiry, resolution, restart\<close>

text \<open>
  C10: a sweep that returns without error leaves no expired leg in the window: every leg whose time of ingestion lies
  the window TTL or more before the clock is stored as broken, by an open break of its own, and the count it
  returns is the number of these legs; all other legs and all matches stay as they are. When it stops at an error,
  the count is the number of legs broken out so far, and the rest still waits in the window.
\<close>

theorem sweep_complete:
  assumes "eng_inv mem_repo mem_proj mem_ok e" "Sweep sha256 ctx e = (cnt, err, e')"
  shows "let now = eng_clock e (eng_ticks e); legs = Expired (eng_ix e) now (- 1); done = take cnt legs in
    cnt \<le> length legs \<and> broken_out sha256 done (mem_proj (eng_store e)) (mem_proj (eng_store e')) \<and>
    Get (eng_ix e') = (\<lambda>i. if i \<in> ID ` set done then None else Get (eng_ix e) i) \<and>
    (err = None \<longrightarrow> cnt = length legs \<and> Expired (eng_ix e') now (- 1) = [])"
proof -
  have ex: "expire sha256 ctx e (- 1) False = (cnt, err, e')" using assms(2) by (simp add: Sweep_def)
  show ?thesis
    using mem.expire_spec [OF assms(1) ex] mem.expire_leaves_none [OF assms(1), of sha256 ctx "- 1" False cnt e'] ex
    by (auto simp: Let_def)
qed

theorem sweep_complete_witness:
  "\<exists>cnt e'. Sweep demo_sha (\<lambda>_. None) (demo_engine_at NewStore) = (cnt, None, e') \<and>
     Expired (eng_ix e') (2 * hour_ns) (- 1) = []"
proof -
  let ?e = "demo_engine_at NewStore"
  note I = sys_invD [OF reachable_inv [OF demo_reachable]]
  obtain cnt e' where r: "Sweep demo_sha (\<lambda>_. None) ?e = (cnt, None, e')"
    using mem.expire_total [OF I(1,3), of "\<lambda>_. None" demo_sha "- 1" False] by (auto simp: Sweep_def)
  have "eng_clock ?e (eng_ticks ?e) = 2 * hour_ns" by (simp add: demo_engine_at_def)
  then show ?thesis using sweep_complete [OF I(1) r] r by (auto simp: Let_def)
qed

text \<open>
  C13: \<open>ResolveBreak\<close> wants a reason and an actor, refuses an unknown break with the error of the lookup and a
  resolved one with \<open>ErrBreakResolved\<close>, each time without any effect; otherwise it stores the break as resolved at
  the time of the clock with that reason and actor, appends one \<open>break.resolved\<close> event, and changes nothing else; a
  second resolution is then refused.
\<close>

theorem resolve_break:
  assumes "eng_inv mem_repo mem_proj mem_ok e" "ResolveBreak e i reason actor = (b, err, e')"
  shows "if err \<noteq> None
    then mem_proj (eng_store e') = mem_proj (eng_store e) \<and> eng_ix e' = eng_ix e \<and>
      (reason \<noteq> '''' \<and> actor \<noteq> '''' \<and> gm_get (st_breaks (eng_store e)) i = None \<longrightarrow> err = Some ErrNotFound)
    else (\<exists>b0. gm_get (st_breaks (eng_store e)) i = Some b0 \<and> BStatus b0 \<noteq> BreakResolved \<and>
          b = b0\<lparr>BStatus := BreakResolved, ResolvedAt := Some (eng_clock e (eng_ticks e)), BReason := reason, BActor := actor\<rparr>) \<and>
      reason \<noteq> '''' \<and> actor \<noteq> '''' \<and>
      gm_get (st_breaks (eng_store e')) = (gm_get (st_breaks (eng_store e)))(i \<mapsto> b) \<and>
      gm_get (st_legs (eng_store e')) = gm_get (st_legs (eng_store e)) \<and>
      gm_get (st_matches (eng_store e')) = gm_get (st_matches (eng_store e)) \<and> eng_ix e' = eng_ix e \<and>
      (\<exists>ev. st_events (eng_store e') = st_events (eng_store e) @ [ev] \<and> Type ev = EvBreakResolved \<and> AggregateID ev = i) \<and>
      ResolveBreak e' i reason actor = (b, Some ErrBreakResolved, e')"
proof (cases "err = None")
  case False
  have "eng_repo e = mem_repo" using assms(1) by (simp add: eng_inv_def)
  then show ?thesis
    using False assms(2) mem.ResolveBreak_spec [OF assms]
    by (auto simp: ResolveBreak_def mem_repo_def mem_GetBreak_def lookup_def)
next
  case True
  have spec: "eng_run mem_repo mem_proj mem_ok e e'" "eng_ix e' = eng_ix e" "reason \<noteq> ''''" "actor \<noteq> ''''"
    "\<exists>b0. gm_get (st_breaks (eng_store e)) i = Some b0 \<and> BStatus b0 \<noteq> BreakResolved \<and>
       b = b0\<lparr>BStatus := BreakResolved, ResolvedAt := Some (eng_clock e (eng_ticks e)), BReason := reason, BActor := actor\<rparr>"
    "gm_get (st_breaks (eng_store e')) = (gm_get (st_breaks (eng_store e)))(i \<mapsto> b)"
    "gm_get (st_legs (eng_store e')) = gm_get (st_legs (eng_store e))"
    "gm_get (st_matches (eng_store e')) = gm_get (st_matches (eng_store e))"
    "\<exists>ev. st_events (eng_store e') = st_events (eng_store e) @ [ev] \<and> Type ev = EvBreakResolved \<and> AggregateID ev = i"
    using mem.ResolveBreak_spec [OF assms] True by (simp_all add: fun_upd_def)
  have "eng_repo e' = mem_repo" using spec(1) by (simp add: eng_run_def eng_inv_def)
  moreover have "gm_get (st_breaks (eng_store e')) i = Some b" "BStatus b = BreakResolved" using spec(5,6) by auto
  ultimately have "ResolveBreak e' i reason actor = (b, Some ErrBreakResolved, e')"
    using spec(3,4) by (simp add: ResolveBreak_def mem_repo_def mem_GetBreak_def lookup_def)
  then show ?thesis using spec True by simp
qed

theorem resolve_break_witness:
  "\<exists>b e'. ResolveBreak (demo_with [] [zero_break\<lparr>BID := ''brk_1'', BStatus := BreakOpen\<rparr>]) ''brk_1'' ''fee'' ''ops'' = (b, None, e') \<and>
     ResolveBreak e' ''brk_1'' ''fee'' ''ops'' = (b, Some ErrBreakResolved, e')"
proof -
  let ?b = "zero_break\<lparr>BID := ''brk_1'', BStatus := BreakOpen\<rparr>"
  let ?e = "demo_with [] [?b]"
  note e = demo_with_inv [of "[]" "[?b]", simplified]
  have "p_breaks (mem_proj (eng_store ?e)) ''brk_1'' = Some ?b" using e(6) by simp
  from mem.ResolveBreak_total [OF e(1,3) _ _ this, of "''fee''" "''ops''"]
  obtain b e' where r: "ResolveBreak ?e ''brk_1'' ''fee'' ''ops'' = (b, None, e')" by auto
  from resolve_break [OF e(1) r] show ?thesis using r by auto
qed


text \<open>
  a restart loses nothing. A new engine over the store of a reachable one, whatever its rules, TTL and hooks,
  has the same open legs in its window once it has rebuilt its index, and the store is untouched.
\<close>

theorem restart_rebuilds:
  assumes "reachable sha256 e" "boots (eng_store e) e'"
  shows "Get (eng_ix e') = Get (eng_ix e) \<and> eng_store e' = eng_store e \<and> reachable sha256 e'"
proof -
  have inv: "eng_inv mem_repo mem_proj mem_ok e" using reachable_inv [OF assms(1)] by (simp add: sys_inv_def)
  then have "mem_ok (eng_store e)" by (simp add: eng_inv_def)
  from boots_inv [OF assms(2) this] show ?thesis
    using inv reach_step [OF assms(1) step_restart [OF assms(2)]] by (simp add: eng_inv_def)
qed

theorem restart_rebuilds_witness:
  "\<exists>e'. boots (eng_store (demo_engine_at NewStore)) e' \<and> Get (eng_ix e') = Get (eng_ix (demo_engine_at NewStore))"
proof -
  have "boots (eng_store (demo_engine_at NewStore)) (demo_engine_at NewStore)" using demo_boots by (simp add: demo_engine_at_def)
  with restart_rebuilds [OF demo_reachable this] show ?thesis by blast
qed

text \<open>
  C9: an ingestion that fails has no effect, over any store that keeps the contract of \<open>ports.Store\<close>: whatever call or
  encoding failed, legs, matches, breaks and log are as before, and so is the window.
\<close>

theorem failed_ingest_harmless:
  assumes "repository repo proj good" "eng_inv repo proj good e" "ingestOne sha256 e l = (Inl err, e')"
  shows "proj (eng_store e') = proj (eng_store e) \<and> Get (eng_ix e') = Get (eng_ix e) \<and> eng_inv repo proj good e'"
  using repository.ingestOne_spec(1,2) [OF assms] assms(2) by (simp add: eng_ok_def eng_inv_def)

text \<open>A clock beyond the year 9999, whose instants cannot be encoded, makes it fail.\<close>

theorem failed_ingest_harmless_witness:
  "let e = (demo_engine_at NewStore)\<lparr>eng_clock := (\<lambda>_. 10 ^ 30)\<rparr> in
   \<exists>err e'. ingestOne demo_sha e (AssignID demo_sha sample_leg) = (Inl err, e') \<and> mem_proj (eng_store e') = mem_proj NewStore"
proof -
  define e where "e = (demo_engine_at NewStore)\<lparr>eng_clock := (\<lambda>_. 10 ^ 30)\<rparr>"
  have inv: "eng_inv mem_repo mem_proj mem_ok e"
    using sys_invD(1) [OF reachable_inv [OF demo_reachable]] by (simp add: e_def eng_inv_def)
  have late: "\<not> time_json_ok (10 ^ 30)" by code_simp
  have zero: "IsZero (IngestedAt (AssignID demo_sha sample_leg))" by (simp add: AssignID_def sample_leg_def plain_leg_def)
  have "\<exists>err e'. ingestOne demo_sha e (AssignID demo_sha sample_leg) = (Inl err, e')"
    using zero late
    by (simp add: ingestOne_def read_clock_def e_def demo_engine_at_def mem_repo_def mem_HasLeg_def NewStore_def
        mem_LegsByTxnRef_def gm_inner_def addEvent_def NewEvent_def AssignID_def)
  then obtain err e' where r: "ingestOne demo_sha e (AssignID demo_sha sample_leg) = (Inl err, e')" by blast
  have "eng_store e = NewStore" by (simp add: e_def demo_engine_at_def)
  with failed_ingest_harmless [OF mem.repository_axioms inv r] show ?thesis
    using r unfolding Let_def e_def [symmetric] by auto
qed

subsection \<open>Replay\<close>

text \<open>
  C8: replay ends. For any starting point, \<open>Replay\<close> over the memory store returns once it has one round per page of
  500 events and one more, although it appends to the log it reads; the log only grows, by events that are not
  ingestions, and the engine leaves replay mode with its window in step with the store.
\<close>

theorem replay_terminates:
  assumes "eng_inv mem_repo mem_proj mem_ok e" "\<not> eng_replaying e" "length (st_events (eng_store e)) div 500 + 2 \<le> fuel"
  shows "\<exists>res err e'. Replay fuel sha256 e f = Some (res, err, e') \<and> eng_inv mem_repo mem_proj mem_ok e' \<and>
    \<not> eng_replaying e' \<and> (\<exists>more. st_events (eng_store e') = st_events (eng_store e) @ more) \<and>
    (err = None \<longrightarrow> quiet_ext (st_events (eng_store e)) (st_events (eng_store e')))"
proof -
  let ?n = "length (st_events (eng_store e))"
  have "?n div 500 * 500 + ?n mod 500 = ?n" "?n mod 500 < 500" by simp_all
  then have "?n + 500 \<le> 500 * fuel" using assms(3) by linarith
  then have fuel: "length (p_events (mem_proj (eng_store e))) + 500 \<le> 500 * fuel" by simp
  from mem.Replay_spec [OF assms(1,2) this, of sha256 f] show ?thesis by (auto simp: Let_def)
qed

theorem replay_terminates_witness:
  "\<exists>res err e'. Replay 2 demo_sha (demo_engine_at NewStore) 1 = Some (res, err, e') \<and> \<not> eng_replaying e'"
proof -
  have "length (st_events (eng_store (demo_engine_at NewStore))) div 500 + 2 \<le> 2" by (simp add: demo_engine_at_def NewStore_def)
  from replay_terminates [OF sys_invD(1,2) [OF reachable_inv [OF demo_reachable]] this, of demo_sha 1] show ?thesis by blast
qed

text \<open>
  C9: paging is invisible. The loop of \<open>Replay\<close>, which reads the log in pages of 500 events while ingestion appends
  to it, has the same result as feeding the events from the starting point to the recorded end one after the other.
\<close>

theorem replay_paging:
  assumes "eng_inv mem_repo mem_proj mem_ok e" "1 \<le> cursor" "through \<le> int (length (st_events (eng_store e)))"
    "nat (through + 1 - cursor) + 500 \<le> 500 * fuel"
  shows "replay_loop fuel sha256 e res cursor through =
    Some (replay_all sha256 e res (take (nat (through + 1 - cursor)) (drop (nat (cursor - 1)) (st_events (eng_store e)))))"
proof -
  have "through \<le> int (length (p_events (mem_proj (eng_store e))))" using assms(3) by simp
  moreover have "repo_EventsFrom mem_repo s c n \<noteq> Inl x" for s c n x using mem.events_from_total [of s c n] by auto
  ultimately show ?thesis using mem.replay_loop_spec [OF assms(1,2) _ assms(4), of sha256 res] by auto
qed

theorem replay_paging_witness:
  "\<exists>e. eng_inv mem_repo mem_proj mem_ok e \<and>
     replay_loop 1 demo_sha e zero_replay 1 0 = Some (replay_all demo_sha e zero_replay [])"
proof -
  have inv: "eng_inv mem_repo mem_proj mem_ok (demo_engine_at NewStore)" by (rule sys_invD(1) [OF reachable_inv [OF demo_reachable]])
  from replay_paging [OF this, of 1 0 1 demo_sha zero_replay] show ?thesis using inv by auto
qed



end
