(* ===== verification/Go_Parse.thy ===== *)
theory Go_Parse
  imports Go_Float Go_Strings
begin

text \<open>
  Parsing of numbers, booleans and durations as \<open>strconv\<close> and \<open>time\<close> do it, for the configuration and the query
  parameters of the API: \<open>ParseInt\<close> and \<open>Atoi\<close> in base 10 and 64 bits, \<open>ParseBool\<close>, \<open>ParseDuration\<close>.
\<close>

subsection \<open>Integers and booleans\<close>

definition split_sign :: "string \<Rightarrow> bool \<times> string" where
  "split_sign s =
     (case s of
        [] \<Rightarrow> (False, [])
      | c # cs \<Rightarrow> if c = CHR ''-'' then (True, cs) else if c = CHR ''+'' then (False, cs) else (False, c # cs))"

definition ParseInt :: "string \<Rightarrow> int result" where
  "ParseInt s =
     (case split_sign s of
        (neg, ds) \<Rightarrow>
          if ds = [] \<or> \<not> list_all is_digit ds then Inl (ErrLib ''strconv.ErrSyntax'')
          else
            let n = (if neg then - int (str_nat ds) else int (str_nat ds))
            in if in_i64 n then Inr n else Inl (ErrLib ''strconv.ErrRange''))"

abbreviation (input) Atoi :: "string \<Rightarrow> int result" where "Atoi \<equiv> ParseInt"

definition ParseBool :: "string \<Rightarrow> bool result" where
  "ParseBool s =
     (if s \<in> {''1'', ''t'', ''T'', ''TRUE'', ''true'', ''True''} then Inr True
      else if s \<in> {''0'', ''f'', ''F'', ''FALSE'', ''false'', ''False''} then Inr False
      else Inl (ErrLib ''strconv.ErrSyntax''))"

subsection \<open>Durations\<close>

text \<open>A leading integer; \<open>None\<close> when it exceeds \<open>2 ^ 63\<close>.\<close>

fun leadingInt :: "int \<Rightarrow> string \<Rightarrow> (int \<times> string) option" where
  "leadingInt x [] = Some (x, [])"
| "leadingInt x (c # s) =
     (if \<not> is_digit c then Some (x, c # s)
      else if x > 2 ^ 63 div 10 then None
      else let x = x * 10 + int (digit_val c) in if x > 2 ^ 63 then None else leadingInt x s)"

text \<open>A leading fraction with its scale; further digits are dropped once it would overflow.\<close>

fun leadingFraction :: "bool \<Rightarrow> int \<Rightarrow> rat \<Rightarrow> string \<Rightarrow> int \<times> rat \<times> string" where
  "leadingFraction overflow x scale [] = (x, scale, [])"
| "leadingFraction overflow x scale (c # s) =
     (if \<not> is_digit c then (x, scale, c # s)
      else if overflow then leadingFraction overflow x scale s
      else if x > (2 ^ 63 - 1) div 10 then leadingFraction True x scale s
      else let y = x * 10 + int (digit_val c) in
           if y > 2 ^ 63 then leadingFraction True x scale s
           else leadingFraction overflow y (f64 (scale * 10)) s)"

definition duration_unit :: "string \<Rightarrow> int option" where
  "duration_unit u =
     map_of [(''ns'', 1), (''us'', 10 ^ 3), ([CHR 0xC2, CHR 0xB5, CHR ''s''], 10 ^ 3),
             ([CHR 0xCE, CHR 0xBC, CHR ''s''], 10 ^ 3), (''ms'', 10 ^ 6), (''s'', 10 ^ 9),
             (''m'', 60 * 10 ^ 9), (''h'', 3600 * 10 ^ 9)] u"

abbreviation (input) unit_char :: "char \<Rightarrow> bool" where
  "unit_char c \<equiv> c \<noteq> CHR ''.'' \<and> \<not> is_digit c"

text \<open>The optional fraction after the integer part, and whether it has a digit.\<close>

definition fraction_part :: "string \<Rightarrow> int \<times> rat \<times> string \<times> bool" where
  "fraction_part s =
     (if s \<noteq> [] \<and> hd s = CHR ''.''
      then (case leadingFraction False 0 1 (tl s) of
              (f, scale, r) \<Rightarrow> (f, scale, r, length r \<noteq> length (tl s)))
      else (0, 1, s, False))"

text \<open>Integer part, fraction and unit in nanoseconds; \<open>None\<close> on overflow.\<close>

definition duration_value :: "int \<Rightarrow> int \<Rightarrow> rat \<Rightarrow> int \<Rightarrow> int option" where
  "duration_value v f scale unit =
     (if v > 2 ^ 63 div unit then None
      else
        let v = v * unit;
            v = (if f > 0 then v + \<lfloor>f64 (f64 (of_int f) * f64 (of_int unit / scale))\<rfloor> else v)
        in if v > 2 ^ 63 then None else Some v)"

text \<open>One number with its unit: the nanoseconds it stands for and the rest of the text.\<close>

definition duration_part :: "string \<Rightarrow> (int \<times> string) option" where
  "duration_part s =
     (if s = [] \<or> unit_char (hd s) then None
      else
        (case leadingInt 0 s of
           None \<Rightarrow> None
         | Some (v, s1) \<Rightarrow>
             (case fraction_part s1 of
                (f, scale, s2, post) \<Rightarrow>
                  if length s1 = length s \<and> \<not> post then None
                  else
                    (case duration_unit (takeWhile unit_char s2) of
                       None \<Rightarrow> None
                     | Some unit \<Rightarrow>
                         map_option (\<lambda>v. (v, dropWhile unit_char s2)) (duration_value v f scale unit)))))"

lemma leadingInt_length: "leadingInt x s = Some (y, r) \<Longrightarrow> length r \<le> length s"
  by (induction x s rule: leadingInt.induct) (auto simp: Let_def split: if_splits)

lemma leadingFraction_length: "leadingFraction b x sc s = (f, sc', r) \<Longrightarrow> length r \<le> length s"
proof (induction b x sc s rule: leadingFraction.induct)
  case (2 overflow x scale c s)
  then show ?case by (auto simp: Let_def split: if_splits)
qed auto

lemma duration_unit_pos: "duration_unit u = Some n \<Longrightarrow> 0 < n"
  by (auto simp: duration_unit_def split: if_splits)

text \<open>Every part takes at least its unit off the text.\<close>

lemma fraction_part_length: "fraction_part s = (f, sc, r, post) \<Longrightarrow> length r \<le> length s"
  using leadingFraction_length [of False 0 1 "tl s"]
  by (auto simp: fraction_part_def split: if_splits prod.splits)

lemma duration_part_shrinks:
  assumes "duration_part s = Some (v, r)"
  shows "length r < length s"
proof -
  obtain v1 s1 f sc s2 post n where parts: "leadingInt 0 s = Some (v1, s1)" "fraction_part s1 = (f, sc, s2, post)"
    "duration_unit (takeWhile unit_char s2) = Some n" "r = dropWhile unit_char s2"
    using assms by (auto simp: duration_part_def split: if_splits option.splits prod.splits)
  have "takeWhile unit_char s2 \<noteq> []"
    using parts(3) by (auto simp: duration_unit_def split: if_splits)
  then have "length (dropWhile unit_char s2) < length s2"
    by (cases s2) (auto simp: le_imp_less_Suc length_dropWhile_le split: if_splits)
  with parts(4) leadingInt_length [OF parts(1)] fraction_part_length [OF parts(2)]
  show ?thesis by simp
qed

text \<open>The sum of the parts; \<open>None\<close> when one does not parse or the sum exceeds \<open>2 ^ 63\<close>.\<close>

function duration_loop :: "int \<Rightarrow> string \<Rightarrow> int option" where
  "duration_loop d s =
     (if s = [] then Some d
      else
        (case duration_part s of
           None \<Rightarrow> None
         | Some (v, r) \<Rightarrow> if d + v > 2 ^ 63 then None else duration_loop (d + v) r))"
  by pat_completeness auto
termination
  by (relation "measure (\<lambda>(d, s). length s)") (auto dest: duration_part_shrinks)

declare duration_loop.simps [simp del]

definition ParseDuration :: "string \<Rightarrow> Duration result" where
  "ParseDuration s =
     (case split_sign s of
        (neg, r) \<Rightarrow>
          if r = ''0'' then Inr 0
          else if r = [] then Inl (ErrText (''time: invalid duration '' @ quote s))
          else
            (case duration_loop 0 r of
               None \<Rightarrow> Inl (ErrText (''time: invalid duration '' @ quote s))
             | Some d \<Rightarrow>
                 if neg then Inr (- d)
                 else if d > 2 ^ 63 - 1 then Inl (ErrText (''time: invalid duration '' @ quote s))
                 else Inr d))"

subsection \<open>Lists\<close>

fun split_char :: "char \<Rightarrow> string \<Rightarrow> string list" where
  "split_char sep [] = [[]]"
| "split_char sep (c # s) =
     (if c = sep then [] # split_char sep s
      else (case split_char sep s of [] \<Rightarrow> [[c]] | p # ps \<Rightarrow> (c # p) # ps))"

subsection \<open>Facts\<close>

lemma split_char_nonempty: "split_char sep s \<noteq> []"
  by (induction s) (auto split: list.splits)

lemma split_char_join: "concat (map (\<lambda>p. sep # p) (split_char sep s)) = sep # s"
  by (induction s) (auto simp: split_char_nonempty split: list.splits)

lemma split_char_no_sep: "p \<in> set (split_char sep s) \<Longrightarrow> sep \<notin> set p"
  by (induction s arbitrary: p) (auto split: list.splits if_splits)

lemma ParseInt_in_i64: "ParseInt s = Inr n \<Longrightarrow> in_i64 n"
  by (auto simp: ParseInt_def Let_def split: prod.splits if_splits)

lemma nat_str_no_sign: "split_sign (nat_str n) = (False, nat_str n)"
proof (cases "nat_str n")
  case (Cons c cs)
  then have "is_digit c" using nat_str_digits [of c n] by simp
  then show ?thesis by (auto simp: Cons split_sign_def is_digit_def)
qed (simp add: nat_str_nonempty)

lemma ParseInt_FormatInt: "in_i64 n \<Longrightarrow> ParseInt (FormatInt n) = Inr n"
  using nat_str_no_sign [of "nat n"] nat_str_digits
  by (auto simp: ParseInt_def FormatInt_def split_sign_def nat_str_nonempty list_all_iff)

lemma leadingInt_nonneg: "leadingInt x s = Some (y, r) \<Longrightarrow> 0 \<le> x \<Longrightarrow> 0 \<le> y"
  by (induction x s rule: leadingInt.induct) (auto simp: Let_def split: if_splits)

lemma leadingFraction_nonneg:
  "leadingFraction b x sc s = (f, sc', r) \<Longrightarrow> 0 \<le> x \<Longrightarrow> 0 \<le> sc \<Longrightarrow> 0 \<le> f \<and> 0 \<le> sc'"
proof (induction s arbitrary: b x sc)
  case (Cons c s)
  have "0 \<le> f64 (sc * 10)" using Cons.prems by (intro f64_nonneg) simp
  moreover have "0 \<le> x * 10 + int (digit_val c)" using Cons.prems by simp
  ultimately show ?case
    using Cons.prems Cons.IH
    by (simp only: leadingFraction.simps Let_def prod.inject split: if_split_asm)
qed simp

lemma fraction_part_nonneg: "fraction_part s = (f, sc, r, post) \<Longrightarrow> 0 \<le> f \<and> 0 \<le> sc"
  using leadingFraction_nonneg [of False 0 1 "tl s"] by (auto simp: fraction_part_def split: if_splits prod.splits)

lemma duration_value_nonneg:
  assumes "duration_value v f sc unit = Some w" "0 \<le> v" "0 \<le> f" "0 \<le> sc" "0 < unit"
  shows "0 \<le> w"
proof -
  have "0 \<le> f64 (of_int unit / sc)" using assms by (intro f64_nonneg) simp
  moreover have "0 \<le> f64 (of_int f)" using assms by (intro f64_nonneg) simp
  ultimately have "0 \<le> \<lfloor>f64 (f64 (of_int f) * f64 (of_int unit / sc))\<rfloor>"
    by (simp add: f64_nonneg)
  moreover have "0 \<le> v * unit" using assms by simp
  ultimately show ?thesis using assms(1) by (auto simp: duration_value_def Let_def split: if_splits)
qed

lemma duration_part_nonneg: "duration_part s = Some (v, r) \<Longrightarrow> 0 \<le> v"
  by (auto simp: duration_part_def split: if_splits option.splits prod.splits
      dest!: leadingInt_nonneg fraction_part_nonneg duration_unit_pos intro: duration_value_nonneg)

lemma duration_loop_bound:
  "duration_loop d s = Some e \<Longrightarrow> 0 \<le> d \<Longrightarrow> d \<le> 2 ^ 63 \<Longrightarrow> 0 \<le> e \<and> e \<le> 2 ^ 63"
proof (induction d s rule: duration_loop.induct)
  case (1 d s)
  show ?case
  proof (cases "s = []")
    case False
    with "1.prems"(1) obtain v r where part: "duration_part s = Some (v, r)" "\<not> d + v > 2 ^ 63"
      "duration_loop (d + v) r = Some e"
      by (simp add: duration_loop.simps [of d s] split: option.splits prod.splits if_splits)
    from "1.IH" [OF False part(1) refl part(2,3)] part(2) duration_part_nonneg [OF part(1)] "1.prems"(2)
    show ?thesis by simp
  qed (use "1.prems" in \<open>simp add: duration_loop.simps [of d]\<close>)
qed

lemma ParseDuration_in_i64: "ParseDuration s = Inr d \<Longrightarrow> in_i64 d"
  by (auto simp: ParseDuration_def in_i64_def dest!: duration_loop_bound
      split: prod.splits if_splits option.splits)

end
