(* ===== verification/Recon_Http.thy ===== *)
theory Recon_Http
  imports Recon_System Go_Parse
begin

text \<open>
  The HTTP API (\<open>internal/api/http/server.go\<close>): the handlers, from the request to the response and the
  engine they leave, and the routing table. A request gives its body, its query parameters, the path value
  \<open>id\<close>, the answers of its context and the instants that the clocks of the server and of the store return while it
  is served. A response gives the status and the value that is encoded as its body. The decoding of bodies by
  \<open>encoding/json\<close> is an argument of the handlers. Logs and metrics are left out.
\<close>

subsection \<open>Requests, responses, the server\<close>

record Request =
  rq_Body :: "string result option"
  rq_Query :: "string \<Rightarrow> string"
  rq_PathID :: string
  rq_ctx :: Context
  rq_now :: Time
  rq_store_now :: Time

text \<open>A message: a text, or a prefix in front of the text of an error.\<close>

datatype Message = Msg string | MsgErr string goerr

datatype Body =
    JError Message int
  | JHealth string
  | JReady bool "(string \<times> goerr option) list"
  | JBatch BatchResult
  | JBreaks "Break list" nat int int
  | JBreak Break "Leg list"
  | JResolved Break
  | JMatch Match "Leg list"
  | JLeg Leg
  | JStats Stats nat Rules string
  | JEvents "Event list" nat
  | JReplay ReplayResult
  | JClosed nat Duration

record Response =
  rs_Status :: int
  rs_Body :: Body

text \<open>The queries of \<open>ports.Store\<close> that the engine does not use.\<close>

record 's Queries =
  q_GetLeg :: "'s \<Rightarrow> string \<Rightarrow> Leg result"
  q_GetMatch :: "'s \<Rightarrow> string \<Rightarrow> Match result"
  q_ListBreaks :: "'s \<Rightarrow> Time \<Rightarrow> BreakFilter \<Rightarrow> Break list result"
  q_Stats :: "'s \<Rightarrow> Stats result"
  q_Ping :: "'s \<Rightarrow> goerr option"

definition mem_queries :: "Store Queries" where
  "mem_queries =
     \<lparr>q_GetLeg = mem_GetLeg, q_GetMatch = mem_GetMatch, q_ListBreaks = mem_ListBreaks, q_Stats = mem_Stats,
      q_Ping = (\<lambda>_. None)\<rparr>"

text \<open>The decoders of the two forms of a batch and of a resolution (reason and actor).\<close>

record Json =
  json_legs :: "string \<Rightarrow> Leg list result"
  json_request :: "string \<Rightarrow> Leg list result"
  json_resolve :: "string \<Rightarrow> (string \<times> string) result"

record 's Server =
  srv_Engine :: "'s Engine"
  srv_Queries :: "'s Queries"
  srv_Ready :: "goerr option option"
  srv_Version :: string

abbreviation (input) srv_store :: "'s Server \<Rightarrow> 's" where "srv_store srv \<equiv> eng_store (srv_Engine srv)"

definition writeJSON :: "int \<Rightarrow> Body \<Rightarrow> Response" where
  "writeJSON status v = \<lparr>rs_Status = status, rs_Body = v\<rparr>"

definition writeError :: "int \<Rightarrow> Message \<Rightarrow> Response" where
  "writeError status msg = writeJSON status (JError msg status)"

subsection \<open>Helpers\<close>

definition MaxBodyBytes :: nat where
  "MaxBodyBytes = 16 * 2 ^ 20"

definition readBody :: "Request \<Rightarrow> string result" where
  "readBody r =
     (case rq_Body r of
        None \<Rightarrow> Inl (ErrText ''empty body'')
      | Some (Inl err) \<Rightarrow> Inl (Errorf ''read body: '' err '''')
      | Some (Inr body) \<Rightarrow>
          if length body > MaxBodyBytes then Inl (Errorf ''read body: '' (ErrLib ''http.MaxBytesReader'') '''')
          else if body = [] then Inl (ErrText ''empty body'')
          else Inr body)"

definition lookupFailed :: "goerr \<Rightarrow> string \<Rightarrow> Response" where
  "lookupFailed err what =
     (if err_is err ErrNotFound then writeError 404 (Msg (what @ '' not found''))
      else writeError 500 (Msg ''lookup failed''))"

fun loadLegs :: "'s Server \<Rightarrow> string list \<Rightarrow> Leg list" where
  "loadLegs srv [] = []"
| "loadLegs srv (i # is) =
     (case q_GetLeg (srv_Queries srv) (srv_store srv) i of
        Inl _ \<Rightarrow> loadLegs srv is
      | Inr l \<Rightarrow> l # loadLegs srv is)"

text \<open>\<open>Duration.Seconds\<close>, and the age in whole seconds.\<close>

definition duration_seconds :: "Duration \<Rightarrow> rat" where
  "duration_seconds d =
     (let s = sgn d * (\<bar>d\<bar> div 10 ^ 9); ns = sgn d * (\<bar>d\<bar> mod 10 ^ 9)
      in f64 (f64_of_int64 s + f64 (f64_of_int64 ns / 10 ^ 9)))"

definition with_age :: "Time \<Rightarrow> Break \<Rightarrow> Break" where
  "with_age now b = b\<lparr>AgeSeconds := int64_of_f64 (duration_seconds (Age b now))\<rparr>"

subsection \<open>Handlers\<close>

definition healthz :: "'s Server \<Rightarrow> Response" where
  "healthz srv = writeJSON 200 (JHealth (srv_Version srv))"

definition readyz :: "'s Server \<Rightarrow> Response" where
  "readyz srv =
     (let store = q_Ping (srv_Queries srv) (srv_store srv);
          status = (if store \<noteq> None then 503 else 200 :: int);
          checks = [(''store'', store)];
          (status, checks) =
            (case srv_Ready srv of
               None \<Rightarrow> (status, checks)
             | Some err \<Rightarrow> (if err \<noteq> None then 503 else status, checks @ [(''source'', err)]))
      in writeJSON status (JReady (status = 200) checks))"

definition ingest_response :: "BatchResult \<Rightarrow> goerr option \<Rightarrow> Response" where
  "ingest_response res err =
     (case err of
        Some err \<Rightarrow>
          if err_is err ErrInvalidLeg then writeError 400 (MsgErr '''' err) else writeError 500 (Msg ''ingest failed'')
      | None \<Rightarrow> writeJSON 200 (JBatch res))"

definition postLegs :: "Json \<Rightarrow> (string \<Rightarrow> string) \<Rightarrow> 's Server \<Rightarrow> Request \<Rightarrow> Response \<times> 's Server" where
  "postLegs json sha256 srv r =
     (case readBody r of
        Inl err \<Rightarrow> (writeError 400 (MsgErr '''' err), srv)
      | Inr body \<Rightarrow>
          (case (if prefix ''['' (TrimSpace body) then json_legs json body else json_request json body) of
             Inl err \<Rightarrow> (writeError 400 (MsgErr ''malformed JSON: '' err), srv)
           | Inr legs \<Rightarrow>
               if length legs = 0 then (writeError 400 (Msg ''no legs supplied''), srv)
               else if length legs > 5000 then (writeError 413 (Msg ''batch limited to 5000 legs''), srv)
               else
                 (case Ingest sha256 (rq_ctx r) (srv_Engine srv) legs of
                    (res, err, e) \<Rightarrow> (ingest_response res err, srv\<lparr>srv_Engine := e\<rparr>))))"

text \<open>A bounded integer parameter with its default.\<close>

definition int_param :: "string \<Rightarrow> int \<Rightarrow> (int \<Rightarrow> bool) \<Rightarrow> int option" where
  "int_param v dflt ok =
     (if v = '''' then Some dflt
      else (case ParseInt v of Inl _ \<Rightarrow> None | Inr n \<Rightarrow> if ok n then Some n else None))"

definition limit_param :: "string \<Rightarrow> int option" where
  "limit_param v = int_param v 100 (\<lambda>n. \<not> (n < 1 \<or> n > 1000))"

definition offset_param :: "string \<Rightarrow> int option" where
  "offset_param v = int_param v 0 (\<lambda>n. \<not> n < 0)"

definition from_param :: "string \<Rightarrow> int option" where
  "from_param v = int_param v 1 (\<lambda>n. \<not> n < 1)"

definition dur_param :: "string \<Rightarrow> Duration option" where
  "dur_param v =
     (if v = '''' then Some 0
      else (case ParseDuration v of Inl _ \<Rightarrow> None | Inr d \<Rightarrow> if d < 0 then None else Some d))"

definition listBreaks :: "'s Server \<Rightarrow> Request \<Rightarrow> Response" where
  "listBreaks srv r =
     (let q = rq_Query r in
      case limit_param (q ''limit'') of
        None \<Rightarrow> writeError 400 (Msg ''limit must be 1..1000'')
      | Some limit \<Rightarrow>
          (case offset_param (q ''offset'') of
             None \<Rightarrow> writeError 400 (Msg ''offset must be >= 0'')
           | Some offset \<Rightarrow>
               (case dur_param (q ''min_age'') of
                  None \<Rightarrow> writeError 400 (Msg ''min_age must be a duration like 30m or 2h'')
                | Some minAge \<Rightarrow>
                    let f = \<lparr>f_Status = q ''status'', f_Category = q ''category'', f_Currency = ToUpper (q ''currency''),
                             f_Counterparty = q ''counterparty'', f_MinAge = minAge, f_Limit = limit,
                             f_Offset = offset\<rparr> in
                    if f_Status f \<noteq> '''' \<and> f_Status f \<noteq> BreakOpen \<and> f_Status f \<noteq> BreakResolved
                    then writeError 400 (Msg ''status must be open or resolved'')
                    else
                      (case q_ListBreaks (srv_Queries srv) (srv_store srv) (rq_store_now r) f of
                         Inl err \<Rightarrow> writeError 500 (Msg ''list breaks failed'')
                       | Inr breaks \<Rightarrow>
                           writeJSON 200 (JBreaks (map (with_age (rq_now r)) breaks) (length breaks) limit offset)))))"

definition getBreak :: "'s Server \<Rightarrow> Request \<Rightarrow> Response" where
  "getBreak srv r =
     (case repo_GetBreak (eng_repo (srv_Engine srv)) (srv_store srv) (rq_PathID r) of
        Inl err \<Rightarrow> lookupFailed err ''break''
      | Inr b \<Rightarrow> writeJSON 200 (JBreak (with_age (rq_now r) b) (loadLegs srv (BLegIDs b))))"

definition resolve_response :: "Time \<Rightarrow> Break \<Rightarrow> goerr option \<Rightarrow> Response" where
  "resolve_response now b err =
     (case err of
        Some err \<Rightarrow>
          if err_is err ErrNotFound then writeError 404 (Msg ''break not found'')
          else if err_is err ErrBreakResolved then writeError 409 (Msg ''break already resolved'')
          else writeError 500 (Msg ''resolve failed'')
      | None \<Rightarrow> writeJSON 200 (JResolved (with_age now b)))"

definition resolveBreak :: "Json \<Rightarrow> 's Server \<Rightarrow> Request \<Rightarrow> Response \<times> 's Server" where
  "resolveBreak json srv r =
     (case readBody r of
        Inl err \<Rightarrow> (writeError 400 (MsgErr '''' err), srv)
      | Inr body \<Rightarrow>
          (case json_resolve json body of
             Inl err \<Rightarrow> (writeError 400 (MsgErr ''malformed JSON: '' err), srv)
           | Inr (reason, actor) \<Rightarrow>
               let reason = TrimSpace reason; actor = TrimSpace actor in
               if reason = '''' \<or> actor = '''' then (writeError 400 (Msg ''reason and actor are required''), srv)
               else
                 (case ResolveBreak (srv_Engine srv) (rq_PathID r) reason actor of
                    (b, err, e) \<Rightarrow> (resolve_response (rq_now r) b err, srv\<lparr>srv_Engine := e\<rparr>))))"

definition getMatch :: "'s Server \<Rightarrow> Request \<Rightarrow> Response" where
  "getMatch srv r =
     (case q_GetMatch (srv_Queries srv) (srv_store srv) (rq_PathID r) of
        Inl err \<Rightarrow> lookupFailed err ''match''
      | Inr m \<Rightarrow> writeJSON 200 (JMatch m (loadLegs srv (MLegIDs m))))"

definition getLeg :: "'s Server \<Rightarrow> Request \<Rightarrow> Response" where
  "getLeg srv r =
     (case q_GetLeg (srv_Queries srv) (srv_store srv) (rq_PathID r) of
        Inl err \<Rightarrow> lookupFailed err ''leg''
      | Inr l \<Rightarrow> writeJSON 200 (JLeg l))"

definition stats :: "'s Server \<Rightarrow> Response" where
  "stats srv =
     (case q_Stats (srv_Queries srv) (srv_store srv) of
        Inl err \<Rightarrow> writeError 500 (Msg ''stats failed'')
      | Inr st \<Rightarrow>
          writeJSON 200 (JStats st (eng_OpenLegs (srv_Engine srv)) (eng_rules (srv_Engine srv)) (srv_Version srv)))"

definition events :: "'s Server \<Rightarrow> Request \<Rightarrow> Response" where
  "events srv r =
     (case from_param (rq_Query r ''from'') of
        None \<Rightarrow> writeError 400 (Msg ''from must be a positive sequence number'')
      | Some f \<Rightarrow>
          (case limit_param (rq_Query r ''limit'') of
             None \<Rightarrow> writeError 400 (Msg ''limit must be 1..1000'')
           | Some limit \<Rightarrow>
               (case repo_EventsFrom (eng_repo (srv_Engine srv)) (srv_store srv) f limit of
                  Inl err \<Rightarrow> writeError 500 (Msg ''events failed'')
                | Inr evs \<Rightarrow> writeJSON 200 (JEvents evs (length evs)))))"

text \<open>The fuel is that of \<open>Replay\<close>.\<close>

definition replay :: "nat \<Rightarrow> (string \<Rightarrow> string) \<Rightarrow> 's Server \<Rightarrow> Request \<Rightarrow> (Response \<times> 's Server) option" where
  "replay fuel sha256 srv r =
     (case from_param (rq_Query r ''from'') of
        None \<Rightarrow> Some (writeError 400 (Msg ''from must be a positive event sequence number''), srv)
      | Some f \<Rightarrow>
          (case Replay fuel sha256 (srv_Engine srv) f of
             None \<Rightarrow> None
           | Some (res, Some err, e) \<Rightarrow>
               Some (writeError 500 (MsgErr ''replay failed: '' err), srv\<lparr>srv_Engine := e\<rparr>)
           | Some (res, None, e) \<Rightarrow> Some (writeJSON 200 (JReplay res), srv\<lparr>srv_Engine := e\<rparr>)))"

definition closeWindow :: "(string \<Rightarrow> string) \<Rightarrow> 's Server \<Rightarrow> Request \<Rightarrow> Response \<times> 's Server" where
  "closeWindow sha256 srv r =
     (case dur_param (rq_Query r ''older_than'') of
        None \<Rightarrow> (writeError 400 (Msg ''older_than must be a duration like 1h''), srv)
      | Some olderThan \<Rightarrow>
          (case CloseWindow sha256 (rq_ctx r) (srv_Engine srv) olderThan of
             (n, Some err, e) \<Rightarrow> (writeError 500 (Msg ''close window failed''), srv\<lparr>srv_Engine := e\<rparr>)
           | (n, None, e) \<Rightarrow> (writeJSON 200 (JClosed n olderThan), srv\<lparr>srv_Engine := e\<rparr>)))"

subsection \<open>Routing\<close>

text \<open>The patterns registered with the mux, with the effect of their handlers.\<close>

datatype Route =
    Healthz | Readyz | PostLegs | ListBreaks | GetBreak | PostResolve | GetMatch | GetLeg | GetStats | GetEvents
  | PostReplay | PostClose

definition routes :: "(string \<times> Route) list" where
  "routes =
     [(''GET /healthz'', Healthz), (''GET /readyz'', Readyz), (''POST /v1/legs'', PostLegs),
      (''GET /v1/breaks'', ListBreaks), (''GET /v1/breaks/{id}'', GetBreak),
      (''POST /v1/breaks/{id}/resolve'', PostResolve), (''GET /v1/matches/{id}'', GetMatch),
      (''GET /v1/legs/{id}'', GetLeg), (''GET /v1/stats'', GetStats), (''GET /v1/events'', GetEvents),
      (''POST /v1/replay'', PostReplay), (''POST /v1/windows/close'', PostClose)]"

definition serve ::
    "nat \<Rightarrow> Json \<Rightarrow> (string \<Rightarrow> string) \<Rightarrow> 's Server \<Rightarrow> Route \<Rightarrow> Request \<Rightarrow> (Response \<times> 's Server) option" where
  "serve fuel json sha256 srv rt r =
     (case rt of
        Healthz \<Rightarrow> Some (healthz srv, srv)
      | Readyz \<Rightarrow> Some (readyz srv, srv)
      | PostLegs \<Rightarrow> Some (postLegs json sha256 srv r)
      | ListBreaks \<Rightarrow> Some (listBreaks srv r, srv)
      | GetBreak \<Rightarrow> Some (getBreak srv r, srv)
      | PostResolve \<Rightarrow> Some (resolveBreak json srv r)
      | GetMatch \<Rightarrow> Some (getMatch srv r, srv)
      | GetLeg \<Rightarrow> Some (getLeg srv r, srv)
      | GetStats \<Rightarrow> Some (stats srv, srv)
      | GetEvents \<Rightarrow> Some (events srv r, srv)
      | PostReplay \<Rightarrow> replay fuel sha256 srv r
      | PostClose \<Rightarrow> Some (closeWindow sha256 srv r))"

subsection \<open>Facts\<close>

lemma status_writeJSON [simp]: "rs_Status (writeJSON st v) = st" "rs_Body (writeJSON st v) = v"
  by (simp_all add: writeJSON_def)

lemma status_writeError [simp]: "rs_Status (writeError st m) = st" "rs_Body (writeError st m) = JError m st"
  by (simp_all add: writeError_def)

text \<open>What the decoding of a batch guarantees: value dates were parsed, times are times that JSON expresses.\<close>

definition json_ok :: "Json \<Rightarrow> bool" where
  "json_ok json \<longleftrightarrow>
     (\<forall>b legs. json_legs json b = Inr legs \<or> json_request json b = Inr legs \<longrightarrow> (\<forall>l \<in> set legs. from_json l))"

text \<open>The errors of a context.\<close>

definition ctx_ok :: "Context \<Rightarrow> bool" where
  "ctx_ok ctx \<longleftrightarrow> (\<forall>n err. ctx n = Some err \<longrightarrow> err = ErrCanceled \<or> err = ErrLib ''context.DeadlineExceeded'')"

definition live :: "Context \<Rightarrow> bool" where
  "live ctx \<longleftrightarrow> (\<forall>n. ctx n = None)"

text \<open>The legs of a batch as the handler decodes them.\<close>

definition decoded_legs :: "Json \<Rightarrow> Request \<Rightarrow> Leg list result" where
  "decoded_legs json r =
     (case readBody r of
        Inl err \<Rightarrow> Inl err
      | Inr body \<Rightarrow> if prefix ''['' (TrimSpace body) then json_legs json body else json_request json body)"

lemma decoded_from_json: "json_ok json \<Longrightarrow> decoded_legs json r = Inr legs \<Longrightarrow> \<forall>l \<in> set legs. from_json l"
  by (auto simp: decoded_legs_def json_ok_def split: sum.splits if_splits)

lemma postLegs_cases:
  obtains (bad) m where "postLegs json sha256 srv r = (writeError 400 m, srv)"
      "\<forall>legs. decoded_legs json r = Inr legs \<longrightarrow> legs = []"
  | (large) legs m where "decoded_legs json r = Inr legs" "length legs > 5000"
      "postLegs json sha256 srv r = (writeError 413 m, srv)"
  | (run) legs res err e where "decoded_legs json r = Inr legs" "0 < length legs" "length legs \<le> 5000"
      "Ingest sha256 (rq_ctx r) (srv_Engine srv) legs = (res, err, e)"
      "postLegs json sha256 srv r = (ingest_response res err, srv\<lparr>srv_Engine := e\<rparr>)"
proof (cases "readBody r")
  case (Inl err)
  then show ?thesis by (intro bad) (simp_all add: postLegs_def decoded_legs_def)
next
  case (Inr body)
  note body = this
  define d where "d = (if prefix ''['' (TrimSpace body) then json_legs json body else json_request json body)"
  have dec: "decoded_legs json r = d" using body by (simp add: decoded_legs_def d_def)
  note post = postLegs_def [of json sha256 srv r, unfolded body sum.case d_def [symmetric]]
  show ?thesis
  proof (cases d)
    case (Inl err)
    then show ?thesis by (intro bad) (simp_all add: post dec)
  next
    case (Inr legs)
    obtain res err e where i: "Ingest sha256 (rq_ctx r) (srv_Engine srv) legs = (res, err, e)"
      by (cases "Ingest sha256 (rq_ctx r) (srv_Engine srv) legs")
    consider "legs = []" | "length legs > 5000" | "0 < length legs" "length legs \<le> 5000" by force
    then show ?thesis
    proof cases
      case 1
      then show ?thesis by (intro bad) (simp_all add: post dec Inr)
    next
      case 2
      then show ?thesis by (intro large [of legs]) (auto simp: post dec Inr)
    next
      case 3
      then show ?thesis by (intro run [OF _ _ _ i]) (simp_all add: post dec Inr i)
    qed
  qed
qed

text \<open>A batch of decoded legs: refused as a whole, cut short by its context, or taken.\<close>

lemma ingest_loop_stopped:
  assumes "eng_inv mem_repo mem_proj mem_ok e" "clock_ok e" "\<forall>l \<in> set legs. leg_time_ok l"
    "ingest_loop sha256 ctx i e res legs = (res', Some err, e')"
  shows "\<exists>n. ctx n = Some err"
  using assms
proof (induction legs arbitrary: i e res)
  case (Cons l legs)
  obtain out e1 where one: "ingestOne sha256 e l = (Inr out, e1)" using mem.ingestOne_total Cons.prems by force
  note ok = mem.ingestOne_spec(1) [OF Cons.prems(1) one]
  have "eng_inv mem_repo mem_proj mem_ok e1" "clock_ok e1" using ok clock_ok_ok [OF ok] Cons.prems(2) by (simp_all add: eng_ok_def)
  then show ?case using Cons.IH [of e1] Cons.prems(3,4) one by (auto split: option.splits)
qed simp

lemma Ingest_outcome:
  assumes inv: "sys_inv sha256 e" and j: "\<forall>l \<in> set legs. from_json l" and r: "Ingest sha256 ctx e legs = (res, err, e')"
  shows "(\<exists>x. validate_batch sha256 0 legs = Inl x \<and> err = Some x \<and> e' = e) \<or>
     (\<exists>legs' n x. validate_batch sha256 0 legs = Inr legs' \<and> err = Some x \<and> ctx n = Some x) \<or>
     (\<exists>legs'. validate_batch sha256 0 legs = Inr legs' \<and> err = None)"
proof (cases "validate_batch sha256 0 legs")
  case (Inl x)
  then show ?thesis using r by (simp add: Ingest_def)
next
  case (Inr legs')
  have t: "\<forall>l \<in> set legs'. leg_time_ok l"
    using validate_batch_legs [OF Inr] j by (auto simp: from_json_def leg_time_ok_def AssignID_def normalise_def)
  obtain res1 er e1 where loop: "ingest_loop sha256 ctx 0 e zero_batch legs' = (res1, er, e1)"
    by (cases "ingest_loop sha256 ctx 0 e zero_batch legs'")
  have "err = er" using r Inr loop by (auto simp: Ingest_def split: option.splits)
  then show ?thesis
    using ingest_loop_stopped [OF sys_invD(1,3) [OF inv] t] loop Inr by (cases er) auto
qed

lemma validate_batch_err: "validate_batch sha256 i legs = Inl x \<Longrightarrow> err_is x ErrInvalidLeg"
  by (induction legs arbitrary: i) (auto simp: Validate_def split: if_splits sum.splits)

lemma resolveBreak_cases:
  obtains (bad) m where "resolveBreak json srv r = (writeError 400 m, srv)"
  | (run) body reason actor b err e where "readBody r = Inr body" "json_resolve json body = Inr (reason, actor)"
      "TrimSpace reason \<noteq> ''''" "TrimSpace actor \<noteq> ''''"
      "ResolveBreak (srv_Engine srv) (rq_PathID r) (TrimSpace reason) (TrimSpace actor) = (b, err, e)"
      "resolveBreak json srv r = (resolve_response (rq_now r) b err, srv\<lparr>srv_Engine := e\<rparr>)"
proof (cases "readBody r")
  case (Inl err)
  then show ?thesis by (intro bad) (simp add: resolveBreak_def)
next
  case (Inr body)
  note body = this
  show ?thesis
  proof (cases "json_resolve json body")
    case (Inl err)
    with body show ?thesis by (intro bad) (simp add: resolveBreak_def)
  next
    case (Inr ra)
    obtain reason actor where ra: "ra = (reason, actor)" by (cases ra)
    obtain b err e where i: "ResolveBreak (srv_Engine srv) (rq_PathID r) (TrimSpace reason) (TrimSpace actor) = (b, err, e)"
      by (cases "ResolveBreak (srv_Engine srv) (rq_PathID r) (TrimSpace reason) (TrimSpace actor)")
    show ?thesis
    proof (cases "TrimSpace reason = '''' \<or> TrimSpace actor = ''''")
      case True
      with body Inr ra show ?thesis by (intro bad) (auto simp: resolveBreak_def)
    next
      case False
      with body Inr ra show ?thesis by (intro run [OF _ _ _ _ i]) (simp_all add: resolveBreak_def i)
    qed
  qed
qed

text \<open>A failed resolution over the memory store: no such break, or one that is resolved; nothing changes.\<close>

lemma ResolveBreak_refused:
  assumes inv: "sys_inv sha256 e" and r: "ResolveBreak e i reason actor = (b, Some err, e')"
    and args: "reason \<noteq> ''''" "actor \<noteq> ''''"
  shows "e' = e \<and> (err = ErrNotFound \<or> err = ErrBreakResolved)"
proof -
  note I = sys_invD [OF inv]
  have repo: "eng_repo e = mem_repo" using mem.inv_simps(1) [OF I(1)] .
  show ?thesis
  proof (cases "gm_get (st_breaks (eng_store e)) i")
    case None
    then show ?thesis using r args by (simp add: ResolveBreak_def repo mem_repo_def mem_GetBreak_def lookup_def)
  next
    case (Some b0)
    show ?thesis
    proof (cases "BStatus b0 = BreakResolved")
      case True
      then show ?thesis using Some r args by (simp add: ResolveBreak_def repo mem_repo_def mem_GetBreak_def lookup_def)
    next
      case False
      then have "\<exists>b e'. ResolveBreak e i reason actor = (b, None, e')"
        using mem.ResolveBreak_total [OF I(1,3) args] Some by simp
      then show ?thesis using r by simp
    qed
  qed
qed

text \<open>The parameters.\<close>

lemma int_param_Some: "int_param v d ok = Some n \<Longrightarrow> ok d \<Longrightarrow> ok n"
  by (auto simp: int_param_def split: if_splits sum.splits)

lemma limit_param_Some: "limit_param v = Some n \<Longrightarrow> 1 \<le> n \<and> n \<le> 1000"
  unfolding limit_param_def by (drule int_param_Some) simp_all

lemma offset_param_Some: "offset_param v = Some n \<Longrightarrow> 0 \<le> n"
  unfolding offset_param_def by (drule int_param_Some) simp_all

lemma dur_param_Some: "dur_param v = Some d \<Longrightarrow> 0 \<le> d"
  by (auto simp: dur_param_def split: if_splits sum.splits)

subsection \<open>The API keeps the engine safe\<close>

lemma srv_engine_reachable:
  assumes reach: "reachable sha256 (srv_Engine srv)" and json: "json_ok json"
    and r: "serve fuel json sha256 srv rt rq = Some (resp, srv')"
  shows "reachable sha256 (srv_Engine srv')"
proof (cases rt)
  case PostLegs
  show ?thesis
  proof (cases rule: postLegs_cases [of json sha256 srv rq])
    case (run legs res err e)
    have "sys_step sha256 (srv_Engine srv) e" by (rule step_ingest [OF run(4) decoded_from_json [OF json run(1)]])
    from reach_step [OF reach this] show ?thesis using run(5) r by (auto simp: serve_def PostLegs)
  qed (use r reach in \<open>simp_all add: serve_def PostLegs\<close>)
next
  case PostResolve
  show ?thesis
  proof (cases rule: resolveBreak_cases [of json srv rq])
    case (run body reason actor b err e)
    from reach_step [OF reach step_resolve [OF run(5)]] show ?thesis using run(6) r by (auto simp: serve_def PostResolve)
  qed (use r reach in \<open>simp_all add: serve_def PostResolve\<close>)
next
  case PostReplay
  show ?thesis
    using r reach reach_replay [OF reach]
    by (auto simp: serve_def PostReplay replay_def split: option.splits prod.splits)
next
  case PostClose
  show ?thesis
    using r reach reach_step [OF reach step_close]
    by (auto simp: serve_def PostClose closeWindow_def split: option.splits prod.splits)
qed (use r reach in \<open>simp_all add: serve_def\<close>)

end
