(* ===== verification/Recon_Api.thy ===== *)
theory Recon_Api
  imports Recon_Http Recon_Guarantees
begin

text \<open>
  What the API promises to its clients, for a server over the memory store whose engine is in a reachable state:
  requests keep it reachable, refused requests change nothing, every request is answered without an internal error, and
  the statuses and bodies of the answers.
\<close>

subsection \<open>A concrete server\<close>

definition demo_server_at :: "Store Engine \<Rightarrow> Store Server" where
  "demo_server_at e = \<lparr>srv_Engine = e, srv_Queries = mem_queries, srv_Ready = None, srv_Version = ''test''\<rparr>"

definition demo_server :: "Store Server" where
  "demo_server = demo_server_at (demo_engine_at NewStore)"

text \<open>A decoder that knows two bodies: a batch of one leg and a resolution.\<close>

definition demo_json :: Json where
  "demo_json =
     \<lparr>json_legs = (\<lambda>b. if b = ''[L]'' then Inr [sample_leg] else Inl (ErrLib ''json.Unmarshal'')),
      json_request = (\<lambda>b. Inl (ErrLib ''json.Unmarshal'')),
      json_resolve = (\<lambda>b. if b = ''R'' then Inr (''fee'', '' ops '') else Inl (ErrLib ''json.Unmarshal''))\<rparr>"

definition demo_request :: "string \<Rightarrow> Request" where
  "demo_request b =
     \<lparr>rq_Body = Some (Inr b), rq_Query = (\<lambda>_. ''''), rq_PathID = ''brk_1'', rq_ctx = (\<lambda>_. None),
      rq_now = 3 * hour_ns, rq_store_now = 3 * hour_ns\<rparr>"

lemma demo_json_ok: "json_ok demo_json"
  by (simp add: json_ok_def demo_json_def sample_leg_ok(3))

lemma demo_server_reachable: "reachable demo_sha (srv_Engine demo_server)"
  using demo_reachable by (simp add: demo_server_def demo_server_at_def)

lemma demo_batch: "decoded_legs demo_json (demo_request ''[L]'') = Inr [sample_leg]"
  by (simp add: decoded_legs_def readBody_def demo_request_def MaxBodyBytes_def demo_json_def) code_simp

lemma ctx_ok_err: "ctx_ok ctx \<Longrightarrow> ctx n = Some x \<Longrightarrow> \<not> err_is x ErrInvalidLeg"
  by (cases x) (auto simp: ctx_ok_def)

text \<open>A replay of a reachable state, from any event, ends without error.\<close>

lemma replay_goes_through:
  assumes "reachable sha256 e" "length (st_events (eng_store e)) div 500 + 2 \<le> fuel"
  shows "\<exists>res e'. Replay fuel sha256 e f = Some (res, None, e')"
proof -
  let ?n = "length (st_events (eng_store e))"
  note inv = reachable_inv [OF assms(1)]
  have "?n div 500 * 500 + ?n mod 500 = ?n" "?n mod 500 < 500" by simp_all
  then have "length (p_events (mem_proj (eng_store e))) + 500 \<le> 500 * fuel" using assms(2) by simp
  then obtain res err e' where r: "Replay fuel sha256 e f = Some (res, err, e')"
    using mem.Replay_spec [OF sys_invD(1,2) [OF inv], of fuel sha256 f] by blast
  then show ?thesis using Replay_sys [OF inv r] by blast
qed

subsection \<open>Effects\<close>



text \<open>
  C21: a refused request has no effect: when the status of the answer is one of the 400s (malformed or oversized body,
  invalid leg, unknown identifier, break that is already resolved, parameter out of range), the server, its engine and
  its store are as before the request.
\<close>
theorem api_refusal_harmless:
  assumes reach: "reachable sha256 (srv_Engine srv)" and json: "json_ok json" and ctx: "ctx_ok (rq_ctx rq)"
    and r: "serve fuel json sha256 srv rt rq = Some (resp, srv')" and st: "400 \<le> rs_Status resp" "rs_Status resp < 500"
  shows "srv' = srv"
proof (cases rt)
  case PostLegs
  show ?thesis
  proof (cases rule: postLegs_cases [of json sha256 srv rq])
    case (run legs res err e)
    then have eq: "resp = ingest_response res err" "srv' = srv\<lparr>srv_Engine := e\<rparr>"
      using r by (auto simp: serve_def PostLegs)
    then obtain x where x: "err = Some x" "err_is x ErrInvalidLeg"
      using st by (cases err) (auto simp: ingest_response_def split: if_splits)
    from Ingest_outcome [OF reachable_inv [OF reach] decoded_from_json [OF json run(1)] run(4)] have "e = srv_Engine srv"
      using x ctx_ok_err [OF ctx] by auto
    then show ?thesis by (simp add: eq)
  qed (use r in \<open>simp_all add: serve_def PostLegs\<close>)
next
  case PostResolve
  show ?thesis
  proof (cases rule: resolveBreak_cases [of json srv rq])
    case (run body reason actor b err e)
    then have eq: "resp = resolve_response (rq_now rq) b err" "srv' = srv\<lparr>srv_Engine := e\<rparr>"
      using r by (auto simp: serve_def PostResolve)
    then obtain x where "err = Some x" using st by (cases err) (auto simp: resolve_response_def)
    then have "e = srv_Engine srv" using ResolveBreak_refused [OF reachable_inv [OF reach]] run(3-5) by blast
    then show ?thesis by (simp add: eq)
  qed (use r in \<open>simp_all add: serve_def PostResolve\<close>)
next
  case PostReplay
  then show ?thesis using r st by (auto simp: serve_def replay_def split: option.splits)
next
  case PostClose
  then show ?thesis using r st by (auto simp: serve_def closeWindow_def split: option.splits prod.splits)
qed (use r in \<open>simp_all add: serve_def\<close>)

theorem api_refusal_harmless_witness:
  "\<exists>resp. serve 0 demo_json demo_sha demo_server PostLegs (demo_request ''{'') = Some (resp, demo_server) \<and> rs_Status resp = 400"
proof -
  have body: "readBody (demo_request ''{'') = Inr ''{''" by (simp add: readBody_def demo_request_def MaxBodyBytes_def)
  have "\<not> prefix ''['' (TrimSpace ''{'')" by code_simp
  then obtain srv' where r: "serve 0 demo_json demo_sha demo_server PostLegs (demo_request ''{'') =
      Some (writeError 400 (MsgErr ''malformed JSON: '' (ErrLib ''json.Unmarshal'')), srv')"
    using body by (simp add: serve_def postLegs_def demo_json_def)
  have "srv' = demo_server"
    by (rule api_refusal_harmless [OF demo_server_reachable demo_json_ok _ r]) (simp_all add: demo_request_def ctx_ok_def)
  then show ?thesis using r by simp
qed

subsection \<open>Answers\<close>

text \<open>A proper answer: success or a documented refusal, and an error body that carries its own status.\<close>

definition proper :: "Response \<Rightarrow> bool" where
  "proper resp \<longleftrightarrow> rs_Status resp \<in> {200, 400, 404, 409, 413} \<and>
     (rs_Status resp \<noteq> 200 \<longrightarrow> (\<exists>m. rs_Body resp = JError m (rs_Status resp)))"

lemma proper_write:
  "proper (writeJSON 200 v)" "proper (writeError 400 m)" "proper (writeError 404 m)" "proper (writeError 409 m)"
  "proper (writeError 413 m)" "proper (lookupFailed ErrNotFound what)"
  by (simp_all add: proper_def lookupFailed_def)

lemma proper_cases:
  "(a \<Longrightarrow> proper x) \<Longrightarrow> (\<not> a \<Longrightarrow> proper y) \<Longrightarrow> proper (if a then x else y)"
  "proper x \<Longrightarrow> (\<And>v. proper (f v)) \<Longrightarrow> proper (case ov of None \<Rightarrow> x | Some v \<Rightarrow> f v)"
  "(\<And>e. r = Inl e \<Longrightarrow> proper (g e)) \<Longrightarrow> (\<And>v. proper (h v)) \<Longrightarrow> proper (case r of Inl e \<Rightarrow> g e | Inr v \<Rightarrow> h v)"
  by (simp_all split: option.split sum.split)

lemma mem_lookup_err: "lookup m i = Inl err \<Longrightarrow> err = ErrNotFound"
  by (auto simp: lookup_def split: option.splits)

lemma mem_queries_total: "mem_ListBreaks s now f \<noteq> Inl err" "mem_Stats s \<noteq> Inl err" "mem_EventsFrom s n m \<noteq> Inl err"
  by (simp_all add: mem_ListBreaks_def mem_Stats_def mem_EventsFrom_def Let_def)

lemma read_routes_proper:
  assumes repo: "eng_repo (srv_Engine srv) = mem_repo" and q: "srv_Queries srv = mem_queries"
  shows "proper (listBreaks srv rq)" "proper (getBreak srv rq)" "proper (getMatch srv rq)" "proper (getLeg srv rq)"
    "proper (stats srv)" "proper (events srv rq)" "proper (healthz srv)"
  unfolding listBreaks_def getBreak_def getMatch_def getLeg_def stats_def events_def healthz_def Let_def repo q
  by (intro proper_cases proper_write;
      auto simp: mem_repo_def mem_queries_def mem_GetBreak_def mem_GetMatch_def mem_GetLeg_def mem_queries_total proper_write
        dest!: mem_lookup_err)+

lemma write_routes_proper:
  assumes reach: "reachable sha256 (srv_Engine srv)" and json: "json_ok json" and ctx: "live (rq_ctx rq)"
  shows "proper (fst (postLegs json sha256 srv rq))" "proper (fst (resolveBreak json srv rq))"
    "proper (fst (closeWindow sha256 srv rq))"
proof -
  note inv = reachable_inv [OF reach]
  have live: "rq_ctx rq n = None" for n using ctx by (simp add: live_def)
  show "proper (fst (postLegs json sha256 srv rq))"
  proof (cases rule: postLegs_cases [of json sha256 srv rq])
    case (run legs res er e)
    from Ingest_outcome [OF inv decoded_from_json [OF json run(1)] run(4)]
    have "er = None \<or> (\<exists>x. er = Some x \<and> err_is x ErrInvalidLeg)" using live validate_batch_err by auto
    then show ?thesis using run(5) by (auto simp: ingest_response_def proper_write)
  qed (simp_all add: proper_write)
  show "proper (fst (resolveBreak json srv rq))"
  proof (cases rule: resolveBreak_cases [of json srv rq])
    case (run body reason actor b er e)
    have "er = None \<or> er = Some ErrNotFound \<or> er = Some ErrBreakResolved"
      using ResolveBreak_refused [OF inv _ run(3,4)] run(5) by (cases er) auto
    then show ?thesis using run(6) by (auto simp: resolve_response_def proper_write)
  qed (simp_all add: proper_write)
  have "\<exists>n e. CloseWindow sha256 (rq_ctx rq) (srv_Engine srv) d = (n, None, e)" for d
    using mem.expire_total [OF sys_invD(1,3) [OF inv]] live by (auto simp: CloseWindow_def)
  then show "proper (fst (closeWindow sha256 srv rq))"
    by (auto simp: closeWindow_def proper_write split: option.split prod.split) (metis Pair_inject option.distinct(1))
qed

lemma replay_proper:
  assumes "reachable sha256 (srv_Engine srv)" "length (st_events (srv_store srv)) div 500 + 2 \<le> fuel"
  shows "\<exists>resp srv'. replay fuel sha256 srv rq = Some (resp, srv') \<and> proper resp"
proof (cases "from_param (rq_Query rq ''from'')")
  case (Some f)
  then show ?thesis using replay_goes_through [OF assms, of f] by (auto simp: replay_def proper_write)
qed (simp add: replay_def proper_write)

text \<open>
  C22: no internal errors: in a reachable state, every request whose context is not cancelled is answered, with status 200 or
  one of the documented refusals (400, 404, 409, 413), never with a 500; for a replay, whose loop is bounded by fuel, one
  round per page of 500 events and one more is enough; and an error is reported in a body that carries its own status.
  (The readiness probe, which reports the state of the store and of the source, is the one route left out.)
\<close>
theorem api_answers:
  assumes "reachable sha256 (srv_Engine srv)" "json_ok json" "srv_Queries srv = mem_queries" "live (rq_ctx rq)"
    and "length (st_events (srv_store srv)) div 500 + 2 \<le> fuel" "rt \<noteq> Readyz"
  shows "\<exists>resp srv'. serve fuel json sha256 srv rt rq = Some (resp, srv') \<and> proper resp"
proof -
  have repo: "eng_repo (srv_Engine srv) = mem_repo" by (rule mem.inv_simps(1) [OF sys_invD(1) [OF reachable_inv [OF assms(1)]]])
  note P = read_routes_proper [OF repo assms(3)] write_routes_proper [OF assms(1,2,4)] replay_proper [OF assms(1,5)]
  have "\<exists>resp srv'. x = (resp, srv') \<and> proper resp" if "proper (fst x)" for x :: "Response \<times> Store Server"
    using that by (cases x) auto
  then show ?thesis using P assms(6) by (cases rt) (simp_all add: serve_def)
qed

theorem api_answers_witness:
  "\<exists>resp srv'. serve 2 demo_json demo_sha demo_server PostLegs (demo_request ''[L]'') = Some (resp, srv') \<and>
     rs_Status resp \<in> {200, 400, 404, 409, 413}"
proof -
  have "srv_Queries demo_server = mem_queries" "live (rq_ctx (demo_request ''[L]''))"
    "length (st_events (srv_store demo_server)) div 500 + 2 \<le> 2"
    by (simp_all add: demo_server_def demo_server_at_def demo_engine_at_def NewStore_def demo_request_def live_def)
  from api_answers [OF demo_server_reachable demo_json_ok this, of PostLegs] show ?thesis
    by (auto simp: proper_def)
qed

text \<open>
  C23: \<open>POST /v1/legs\<close> under a context that is not cancelled. A batch of one to 5000 decoded legs is taken (200) exactly when
  every leg is valid; then the answer counts one result per leg and every leg of the batch can be read back under its
  identifier with \<open>GET /v1/legs/{id}\<close>. Otherwise the batch as a whole is refused: 400 for a body that does not decode to
  at least one leg and for an invalid leg, 413 for more than 5000 legs.
\<close>
theorem api_post_legs:
  assumes reach: "reachable sha256 (srv_Engine srv)" and json: "json_ok json" and q: "srv_Queries srv = mem_queries"
    and ctx: "live (rq_ctx rq)" and r: "serve fuel json sha256 srv PostLegs rq = Some (resp, srv')"
  shows "case decoded_legs json rq of
      Inl _ \<Rightarrow> rs_Status resp = 400
    | Inr legs \<Rightarrow>
        if legs = [] then rs_Status resp = 400
        else if length legs > 5000 then rs_Status resp = 413
        else if \<exists>l \<in> set legs. \<not> valid_leg (normalise l) then rs_Status resp = 400
        else rs_Status resp = 200 \<and> (\<exists>res. rs_Body resp = JBatch res \<and> Accepted res = length legs) \<and>
          (\<forall>l \<in> set legs. \<forall>rq'. rq_PathID rq' = ID (AssignID sha256 (normalise l)) \<longrightarrow> rs_Status (getLeg srv' rq') = 200)"
proof (cases rule: postLegs_cases [of json sha256 srv rq])
  case (run legs res err e)
  have eq: "resp = ingest_response res err" "srv' = srv\<lparr>srv_Engine := e\<rparr>" using r run(5) by (auto simp: serve_def)
  note j = decoded_from_json [OF json run(1)]
  note out = Ingest_outcome [OF reachable_inv [OF reach] j run(4)]
  have live: "\<forall>n. rq_ctx rq n = None" using ctx by (simp add: live_def)
  show ?thesis
  proof (cases "\<exists>l \<in> set legs. \<not> valid_leg (normalise l)")
    case True
    then obtain x where "err = Some x" "err_is x ErrInvalidLeg"
      using out live validate_batch_err validate_batch_legs [of sha256 0 legs] by auto
    then show ?thesis using run(1-3) True by (simp add: eq ingest_response_def)
  next
    case False
    then have "\<forall>l \<in> set legs. valid_leg (normalise l) \<and> from_json l" using j by blast
    from ingest_goes_through [OF reach this live] run(4)
    have e: "err = None" "Accepted res = length legs"
      "\<forall>l \<in> set legs. gm_get (st_legs (eng_store e)) (ID (AssignID sha256 (normalise l))) \<noteq> None" by auto
    have "rs_Status (getLeg srv' rq') = 200" if "l \<in> set legs" "rq_PathID rq' = ID (AssignID sha256 (normalise l))" for l rq'
      using bspec [OF e(3) that(1)] that(2) by (auto simp: getLeg_def eq q mem_queries_def mem_GetLeg_def lookup_def)
    then show ?thesis using run(1-3) False e(1,2) by (simp add: eq ingest_response_def)
  qed
qed (use r in \<open>auto simp: serve_def split: sum.split\<close>)

theorem api_post_legs_witness:
  "\<exists>resp srv'. serve 0 demo_json demo_sha demo_server PostLegs (demo_request ''[L]'') = Some (resp, srv') \<and>
     rs_Status resp = 200"
proof -
  obtain resp srv' where r: "serve 0 demo_json demo_sha demo_server PostLegs (demo_request ''[L]'') = Some (resp, srv')"
    by (cases "postLegs demo_json demo_sha demo_server (demo_request ''[L]'')") (simp add: serve_def)
  have "srv_Queries demo_server = mem_queries" "live (rq_ctx (demo_request ''[L]''))"
    by (simp_all add: demo_server_def demo_server_at_def demo_request_def live_def)
  from api_post_legs [OF demo_server_reachable demo_json_ok this r] show ?thesis
    using r sample_leg_ok(1,2) by (simp add: demo_batch)
qed


lemma resolve_run:
  assumes inv: "eng_inv mem_repo mem_proj mem_ok (srv_Engine srv)" "clock_ok (srv_Engine srv)"
    and b: "gm_get (st_breaks (srv_store srv)) (rq_PathID rq) = Some b0" "BStatus b0 \<noteq> BreakResolved"
    and body: "readBody rq = Inr body" "json_resolve json body = Inr (reason, actor)" "TrimSpace reason \<noteq> ''''" "TrimSpace actor \<noteq> ''''"
  shows "\<exists>resp srv'. serve fuel json sha256 srv PostResolve rq = Some (resp, srv') \<and> rs_Status resp = 200"
proof -
  have "\<exists>b e'. ResolveBreak (srv_Engine srv) (rq_PathID rq) (TrimSpace reason) (TrimSpace actor) = (b, None, e')"
    using mem.ResolveBreak_total [OF inv body(3,4)] b by simp
  then show ?thesis using body by (auto simp: serve_def resolveBreak_def resolve_response_def)
qed


text \<open>The breaks that the parameters of a listing ask for.\<close>

definition asked :: "(string \<Rightarrow> string) \<Rightarrow> Duration \<Rightarrow> Time \<Rightarrow> Break \<Rightarrow> bool" where
  "asked p age now b \<longleftrightarrow>
     (p ''status'' = '''' \<or> BStatus b = p ''status'') \<and> (p ''category'' = '''' \<or> BCategory b = p ''category'') \<and>
     (p ''currency'' = '''' \<or> BCurrency b = ToUpper (p ''currency'')) \<and>
     (p ''counterparty'' = '''' \<or> BCounterparty b = p ''counterparty'') \<and> (age = 0 \<or> age \<le> Age b now)"

text \<open>A page: the stored breaks that pass, each once, oldest first; complete when it starts at 0 and is not full.\<close>

definition listed :: "Store \<Rightarrow> (Break \<Rightarrow> bool) \<Rightarrow> int \<Rightarrow> int \<Rightarrow> Break list \<Rightarrow> bool" where
  "listed s pass limit offset bs \<longleftrightarrow>
     int (length bs) \<le> limit \<and> limit \<le> 1000 \<and> distinct bs \<and> sorted (map (\<lambda>b. (OpenedAt b, BID b)) bs) \<and>
     (\<forall>b \<in> set bs. gm_get (st_breaks s) (BID b) = Some b \<and> pass b) \<and>
     (offset = 0 \<and> int (length bs) < limit \<longrightarrow> (\<forall>b. gm_get (st_breaks s) (BID b) = Some b \<and> pass b \<longrightarrow> b \<in> set bs))"

lemma ListBreaks_listed:
  assumes "mem_ok s" "1 \<le> limit" "limit \<le> 1000" "0 \<le> offset" "f_Limit f = limit" "f_Offset f = offset"
  shows "\<exists>bs. mem_ListBreaks s now f = Inr bs \<and> listed s (break_passes f now) limit offset bs"
proof -
  obtain full where full: "mem_ListBreaks s now (f\<lparr>f_Limit := 0, f_Offset := 0\<rparr>) = Inr full"
    using mem_queries_total(1) by (cases "mem_ListBreaks s now (f\<lparr>f_Limit := 0, f_Offset := 0\<rparr>)") auto
  have lim: "0 < limit" using assms(2) by simp
  note pages = list_breaks_pages [OF assms(1) lim assms(4) full]
  let ?bs = "take (nat limit) (drop (nat offset) full)"
  have sub: "set ?bs \<subseteq> set full" by (meson set_drop_subset set_take_subset subset_trans)
  have f: "f\<lparr>f_Limit := limit, f_Offset := offset\<rparr> = f" using assms(5,6) by (cases f) simp
  have "listed s (break_passes f now) limit offset ?bs"
    unfolding listed_def using pages assms(2,3) sub
    by (auto simp: take_map [symmetric] drop_map [symmetric] intro: sorted_wrt_take sorted_wrt_drop)
  then show ?thesis using pages unfolding f by blast
qed

lemma ToUpper_Nil: "ToUpper s = [] \<longleftrightarrow> s = []"
  by (cases s rule: ToUpper.cases) auto



end
