(* ===== verification/Recon_Source.thy ===== *)
theory Recon_Source
  imports Recon_Guarantees
begin

text \<open>
  Sources of legs (\<open>ports.LegSource\<close>) and the handler that \<open>cmd/recon-stream/main.go\<close> gives them. A source runs in rounds, each of
  which reads an input (what the world does to it in that round), may hand one batch to the handler, and goes on or returns.
  The locale \<open>leg_source\<close> is its contract: the state behind the handler changes by calls of the handler alone, on batches the source
  offers. What the handler keeps, every source keeps; for the handler of the service that is the reachability of the engine.
\<close>

subsection \<open>Handlers and rounds\<close>

type_synonym 'e handler = "Context \<Rightarrow> 'e \<Rightarrow> Leg list \<Rightarrow> goerr option \<times> 'e"

datatype 'a round = Return goerr 'a | Continue 'a

primrec after :: "'a round \<Rightarrow> 'a" where
  "after (Return err l) = l"
| "after (Continue l) = l"

text \<open>The loop of a source, for the inputs of a number of rounds.\<close>

fun run_rounds :: "('i \<Rightarrow> 'l \<Rightarrow> 'l round) \<Rightarrow> 'i list \<Rightarrow> 'l \<Rightarrow> 'l round" where
  "run_rounds step [] l = Continue l"
| "run_rounds step (i # is) l =
     (case step i l of
        Return err l \<Rightarrow> Return err l
      | Continue l \<Rightarrow> run_rounds step is l)"

lemma run_rounds_append:
  "run_rounds step (is @ js) l =
     (case run_rounds step is l of Return err l \<Rightarrow> Return err l | Continue l \<Rightarrow> run_rounds step js l)"
  by (induction "is" arbitrary: l) (simp_all split: round.split)

text \<open>The handler of the service: ingestion, of which it passes on the error.\<close>

definition ingest_handler :: "(string \<Rightarrow> string) \<Rightarrow> 's Engine handler" where
  "ingest_handler sha256 ctx e legs = (case Ingest sha256 ctx e legs of (res, err, e) \<Rightarrow> (err, e))"

lemma ingest_handler_reachable:
  assumes "reachable sha256 e" "\<forall>l \<in> set legs. from_json l"
  shows "reachable sha256 (snd (ingest_handler sha256 ctx e legs))"
proof -
  obtain res err e' where i: "Ingest sha256 ctx e legs = (res, err, e')" by (cases "Ingest sha256 ctx e legs")
  then show ?thesis using reach_step [OF assms(1) step_ingest [OF i assms(2)]] by (simp add: ingest_handler_def)
qed

subsection \<open>The contract\<close>

locale leg_source =
  fixes step :: "'e handler \<Rightarrow> 'i \<Rightarrow> 'l \<Rightarrow> 'l round"
    and behind :: "'l \<Rightarrow> 'e"
    and offers :: "'i \<Rightarrow> 'l \<Rightarrow> Leg list \<Rightarrow> bool"
  assumes by_handler: "behind (after (step h i l)) = behind l \<or>
      (\<exists>ctx legs. offers i l legs \<and> behind (after (step h i l)) = snd (h ctx (behind l) legs))"
begin

lemma round_keeps:
  assumes "P (behind l)" "\<And>ctx legs. offers i l legs \<Longrightarrow> P (snd (h ctx (behind l) legs))"
  shows "P (behind (after (step h i l)))"
  using by_handler [of h i l] assms by auto

lemma run_keeps:
  assumes "P (behind l)" "\<And>i l ctx legs e. i \<in> set inputs \<Longrightarrow> offers i l legs \<Longrightarrow> P e \<Longrightarrow> P (snd (h ctx e legs))"
  shows "P (behind (after (run_rounds (step h) inputs l)))"
  using assms
proof (induction inputs arbitrary: l)
  case (Cons x xs)
  have "P (snd (h ctx (behind l) legs))" if "offers x l legs" for ctx legs
    using Cons.prems(2) [of x l legs "behind l" ctx] Cons.prems(1) that by simp
  then have "P (behind (after (step h x l)))" by (rule round_keeps [of P, OF Cons.prems(1)])
  moreover have hs: "P (snd (h ctx e legs))" if "i \<in> set xs" "offers i l legs" "P e" for i l ctx legs e
    using Cons.prems(2) [OF _ that(2,3), of ctx] that(1) by simp
  moreover have "P (behind (after (run_rounds (step h) xs l1)))" if "P (behind l1)" for l1
    using that hs by (rule Cons.IH)
  ultimately show ?case by (cases "step h x l") simp_all
qed simp

end

end
