(* ===== verification/Recon_Kafka.thy ===== *)
theory Recon_Kafka
  imports Recon_Source
begin

text \<open>
  The Kafka source (\<open>internal/adapters/kafka/source.go\<close>) and the handler that \<open>cmd/recon-stream/main.go\<close> gives it. The
  client library is a parameter: a record of the calls the code makes, over a state of its own, with the documented
  behaviour of a consumer group as the named hypothesis \<open>group_consumer\<close>. The decoding of a record value by
  \<open>encoding/json\<close> is a parameter too. The loop runs for a number of rounds; a context gives, for every round, the
  answers of \<open>ctx.Err()\<close>: the first two to the checks of the round, the third to the check after a failure, the
  rest to the handler.
\<close>

subsection \<open>Records and the client\<close>

record Record =
  k_Topic :: string
  k_Partition :: int
  k_Offset :: int
  k_Key :: string
  k_Value :: string
  k_Timestamp :: Time

record Fetches =
  clientClosed :: bool
  fetchErrors :: "(string \<times> int \<times> goerr) list"
  fetchRecords :: "Record list"

record 'c Client =
  PollRecords :: "nat \<Rightarrow> 'c \<Rightarrow> Fetches \<times> 'c"
  CommitUncommittedOffsets :: "'c \<Rightarrow> goerr option \<times> 'c"
  AllowRebalance :: "'c \<Rightarrow> 'c"

record KafkaConfig =
  kc_Brokers :: "string list"
  kc_Group :: string
  kc_Topics :: "string list"
  kc_MaxPollRecords :: int

record 'c Source =
  src_cl :: "'c Client"
  src_sourceOf :: "(string, string) gomap"

subsection \<open>Construction and decoding\<close>

definition topicSource :: "string \<Rightarrow> string" where
  "topicSource topic = takeWhile (\<lambda>c. c \<noteq> CHR ''.'') topic"

definition NewSource :: "(KafkaConfig \<Rightarrow> 'c Client result) \<Rightarrow> KafkaConfig \<Rightarrow> 'c Source result" where
  "NewSource newClient cfg =
     (if kc_Brokers cfg = [] \<or> kc_Topics cfg = [] \<or> kc_Group cfg = ''''
      then Inl (ErrText ''kafka: brokers, topics and group are required'')
      else
        let cfg = (if kc_MaxPollRecords cfg \<le> 0 then cfg\<lparr>kc_MaxPollRecords := 1000\<rparr> else cfg) in
        case newClient cfg of
          Inl err \<Rightarrow> Inl (Errorf ''kafka client: '' err '''')
        | Inr cl \<Rightarrow> Inr \<lparr>src_cl = cl, src_sourceOf = fold (\<lambda>t m. gm_put t (topicSource t) m) (kc_Topics cfg) []\<rparr>)"

text \<open>The topic supplies a default source, the record a default reference and time.\<close>

definition with_defaults :: "Record \<Rightarrow> string \<Rightarrow> Leg \<Rightarrow> Leg" where
  "with_defaults r defaultSource l =
     (let l = (if Source l = '''' then l\<lparr>Source := defaultSource\<rparr> else l);
          l = (if TxnRef l = '''' \<and> length (k_Key r) > 0 then l\<lparr>TxnRef := k_Key r\<rparr> else l)
      in if IsZero (IngestedAt l) \<and> \<not> IsZero (k_Timestamp r) then l\<lparr>IngestedAt := k_Timestamp r\<rparr> else l)"

definition decode :: "(string \<Rightarrow> Leg result) \<Rightarrow> Record \<Rightarrow> string \<Rightarrow> Leg result" where
  "decode json r defaultSource =
     (case json (k_Value r) of
        Inl err \<Rightarrow> Inl (Errorf ''decode leg: '' err '''')
      | Inr l \<Rightarrow>
          (case Validate (with_defaults r defaultSource l) of
             (l, Some err) \<Rightarrow> Inl err
           | (l, None) \<Rightarrow> Inr l))"

text \<open>The default source of a record: that of its topic, empty for a topic that is not configured.\<close>

definition record_source :: "'c Source \<Rightarrow> Record \<Rightarrow> string" where
  "record_source s r = (case gm_get (src_sourceOf s) (k_Topic r) of None \<Rightarrow> '''' | Some src \<Rightarrow> src)"

fun decode_records :: "(string \<Rightarrow> Leg result) \<Rightarrow> 'c Source \<Rightarrow> Record list \<Rightarrow> Leg list \<times> nat" where
  "decode_records json s [] = ([], 0)"
| "decode_records json s (r # rs) =
     (case decode_records json s rs of
        (legs, bad) \<Rightarrow>
          (case decode json r (record_source s r) of
             Inl _ \<Rightarrow> (legs, bad + 1)
           | Inr l \<Rightarrow> (l # legs, bad)))"

subsection \<open>The loop\<close>

text \<open>The state of the loop: the client, the state behind the handler, and the calls of \<open>onCommit\<close>.\<close>

record ('c, 'e) Loop =
  lp_client :: 'c
  lp_handler :: 'e
  lp_commits :: "bool list"

definition allow_rebalance :: "'c Source \<Rightarrow> ('c, 'e) Loop \<Rightarrow> ('c, 'e) Loop" where
  "allow_rebalance s lp = lp\<lparr>lp_client := AllowRebalance (src_cl s) (lp_client lp)\<rparr>"

definition commit_offsets :: "'c Source \<Rightarrow> ('c, 'e) Loop \<Rightarrow> ('c, 'e) Loop" where
  "commit_offsets s lp =
     (case CommitUncommittedOffsets (src_cl s) (lp_client lp) of
        (err, c) \<Rightarrow> lp\<lparr>lp_client := c, lp_commits := lp_commits lp @ [err = None]\<rparr>)"

definition Run_round ::
    "(string \<Rightarrow> Leg result) \<Rightarrow> 'c Source \<Rightarrow> 'e handler \<Rightarrow> Context \<Rightarrow> ('c, 'e) Loop \<Rightarrow> ('c, 'e) Loop round" where
  "Run_round json s h ctx lp =
     (case ctx 0 of
        Some err \<Rightarrow> Return err lp
      | None \<Rightarrow>
          (case PollRecords (src_cl s) 1000 (lp_client lp) of
             (fetches, c) \<Rightarrow>
               let lp = lp\<lparr>lp_client := c\<rparr> in
               if clientClosed fetches then Return (ErrText ''kafka client closed'') lp
               else
                 (case ctx 1 of
                    Some err \<Rightarrow> Return err lp
                  | None \<Rightarrow>
                      (case decode_records json s (fetchRecords fetches) of
                         (legs, bad) \<Rightarrow>
                           if length legs = 0 \<and> bad = 0 then Continue (allow_rebalance s lp)
                           else
                             (case (if length legs > 0 then h (\<lambda>n. ctx (n + 3)) (lp_handler lp) legs
                                    else (None, lp_handler lp)) of
                                (Some err, e) \<Rightarrow>
                                  let lp = allow_rebalance s (lp\<lparr>lp_handler := e\<rparr>) in
                                  (case ctx 2 of
                                     Some err \<Rightarrow> Return err lp
                                   | None \<Rightarrow> Continue lp)
                              | (None, e) \<Rightarrow>
                                  Continue (allow_rebalance s (commit_offsets s (lp\<lparr>lp_handler := e\<rparr>))))))))"

definition Run ::
    "(string \<Rightarrow> Leg result) \<Rightarrow> 'c Source \<Rightarrow> 'e handler \<Rightarrow> Context list \<Rightarrow> ('c, 'e) Loop \<Rightarrow> ('c, 'e) Loop round" where
  "Run json s h = run_rounds (Run_round json s h)"

lemma Run_simps [simp]:
  "Run json s h [] lp = Continue lp"
  "Run json s h (ctx # ctxs) lp =
     (case Run_round json s h ctx lp of Return err lp \<Rightarrow> Return err lp | Continue lp \<Rightarrow> Run json s h ctxs lp)"
  unfolding Run_def by simp_all

text \<open>The batch of a round: what the records of its poll decode to.\<close>

definition polled_batch :: "(string \<Rightarrow> Leg result) \<Rightarrow> 'c Source \<Rightarrow> Context \<Rightarrow> ('c, 'e) Loop \<Rightarrow> Leg list \<Rightarrow> bool" where
  "polled_batch json s ctx lp legs \<longleftrightarrow>
     legs = fst (decode_records json s (fetchRecords (fst (PollRecords (src_cl s) 1000 (lp_client lp)))))"

lemma Run_round_by_handler:
  "lp_handler (after (Run_round json s h ctx lp)) = lp_handler lp \<or>
     (\<exists>ctx' legs. polled_batch json s ctx lp legs \<and>
        lp_handler (after (Run_round json s h ctx lp)) = snd (h ctx' (lp_handler lp) legs))"
proof -
  obtain f c where poll: "PollRecords (src_cl s) 1000 (lp_client lp) = (f, c)" by force
  obtain legs bad where dec: "decode_records json s (fetchRecords f) = (legs, bad)" by force
  obtain er e where h: "h (\<lambda>n. ctx (n + 3)) (lp_handler lp) legs = (er, e)" by force
  have "lp_handler (after (Run_round json s h ctx lp)) \<in> {lp_handler lp, e}"
    unfolding Run_round_def poll prod.case Let_def dec
    by (auto simp: h allow_rebalance_def commit_offsets_def split: option.splits prod.splits)
  moreover have "polled_batch json s ctx lp legs" by (simp add: polled_batch_def poll dec)
  ultimately show ?thesis using h by (metis insertE singletonD snd_conv)
qed

interpretation kafka: leg_source "Run_round json s" lp_handler "polled_batch json s" for json s
  by unfold_locales (rule Run_round_by_handler)

subsection \<open>What the client library documents\<close>

text \<open>
  The records polled so far, in the order of delivery, and how many of them the committed offsets cover, for as long as
  the assignment of partitions stands: a poll appends what it returns; a commit covers everything polled so far, or, when it
  fails, changes nothing. What the committed offsets cover is not delivered again after a restart.
\<close>

definition group_consumer :: "'c Client \<Rightarrow> ('c \<Rightarrow> Record list) \<Rightarrow> ('c \<Rightarrow> nat) \<Rightarrow> bool" where
  "group_consumer cl polled committed \<longleftrightarrow>
     (\<forall>n c f c'. PollRecords cl n c = (f, c') \<longrightarrow> polled c' = polled c @ fetchRecords f \<and> committed c' = committed c) \<and>
     (\<forall>c err c'. CommitUncommittedOffsets cl c = (err, c') \<longrightarrow>
        polled c' = polled c \<and> committed c' = (if err = None then length (polled c) else committed c)) \<and>
     (\<forall>c. polled (AllowRebalance cl c) = polled c \<and> committed (AllowRebalance cl c) = committed c)"

lemma group_consumerD:
  assumes "group_consumer cl polled committed"
  shows "PollRecords cl n c = (f, c') \<Longrightarrow> polled c' = polled c @ fetchRecords f \<and> committed c' = committed c"
    and "CommitUncommittedOffsets cl c = (err, c') \<Longrightarrow>
      polled c' = polled c \<and> committed c' = (if err = None then length (polled c) else committed c)"
    and "polled (AllowRebalance cl c) = polled c" "committed (AllowRebalance cl c) = committed c"
  using assms unfolding group_consumer_def by blast+

text \<open>What the decoder and the broker guarantee: dates were parsed, times are times that JSON expresses.\<close>

definition feed_ok :: "(string \<Rightarrow> Leg result) \<Rightarrow> 'c Client \<Rightarrow> bool" where
  "feed_ok json cl \<longleftrightarrow>
     (\<forall>v l. json v = Inr l \<longrightarrow> from_json l) \<and>
     (\<forall>n c. \<forall>r \<in> set (fetchRecords (fst (PollRecords cl n c))). time_json_ok (k_Timestamp r))"

subsection \<open>Decoded batches\<close>

text \<open>A decoded leg is valid and normal: the engine never refuses a batch from Kafka.\<close>

lemma decode_valid:
  assumes "decode json r src = Inr l"
  shows "valid_leg l" "normalise l = l"
proof -
  show v: "valid_leg l"
    using assms by (auto simp: decode_def Validate_None split: sum.splits prod.splits option.splits)
  show "normalise l = l" by (rule normalise_valid [OF v])
qed

lemma with_defaults_json:
  assumes "from_json l" "time_json_ok (k_Timestamp r)" shows "from_json (with_defaults r src l)"
proof -
  have "IngestedAt (with_defaults r src l) \<in> {IngestedAt l, k_Timestamp r}" "ValueDate (with_defaults r src l) = ValueDate l"
    by (simp_all add: with_defaults_def Let_def)
  then show ?thesis using assms by (auto simp: from_json_def leg_time_ok_def)
qed

lemma decode_from_json:
  "decode json r src = Inr l \<Longrightarrow> \<forall>v l. json v = Inr l \<longrightarrow> from_json l \<Longrightarrow> time_json_ok (k_Timestamp r) \<Longrightarrow> from_json l"
  by (auto simp: decode_def Validate_None with_defaults_json split: sum.splits prod.splits option.splits)

lemma decode_records_set:
  "l \<in> set (fst (decode_records json s rs)) \<longleftrightarrow> (\<exists>r \<in> set rs. decode json r (record_source s r) = Inr l)"
  by (induction rs) (auto split: prod.splits sum.splits)

lemma decode_records_count: "length (fst (decode_records json s rs)) + snd (decode_records json s rs) = length rs"
  by (induction rs) (auto split: prod.splits sum.splits)

subsection \<open>The loop\<close>

text \<open>A leg is taken once the store has it.\<close>

definition taken :: "(string \<Rightarrow> string) \<Rightarrow> Store Engine \<Rightarrow> Leg \<Rightarrow> bool" where
  "taken sha256 e l \<longleftrightarrow> gm_get (st_legs (eng_store e)) (ID (AssignID sha256 l)) \<noteq> None"

text \<open>Every decodable record of a list is taken.\<close>

definition all_taken ::
    "(string \<Rightarrow> Leg result) \<Rightarrow> 'c Source \<Rightarrow> (string \<Rightarrow> string) \<Rightarrow> Store Engine \<Rightarrow> Record list \<Rightarrow> bool" where
  "all_taken json s sha256 e rs \<longleftrightarrow>
     (\<forall>r \<in> set rs. \<forall>l. decode json r (record_source s r) = Inr l \<longrightarrow> taken sha256 e l)"

lemma taken_step:
  assumes "reachable sha256 e" "sys_step sha256 e e'" "taken sha256 e l"
  shows "taken sha256 e' l"
proof -
  have "evolves\<^sup>*\<^sup>* (mem_proj (eng_store e)) (mem_proj (eng_store e'))"
    using step_evolves [OF assms(2) sys_invD(1) [OF reachable_inv [OF assms(1)]]] by blast
  then show ?thesis using evolves_star_leg assms(3) by (fastforce simp: taken_def)
qed

text \<open>One batch, handed to the engine over the memory store under a context that is not cancelled.\<close>

lemma handle_batch:
  assumes reach: "reachable sha256 e" and feed: "\<forall>v l. json v = Inr l \<longrightarrow> from_json l" "\<forall>r \<in> set rs. time_json_ok (k_Timestamp r)"
    and live: "\<forall>n. ctx n = None" and old: "all_taken json s sha256 e old" and legs: "legs = fst (decode_records json s rs)"
  shows "\<exists>e'. ingest_handler sha256 ctx e legs = (None, e') \<and> reachable sha256 e' \<and> all_taken json s sha256 e' (old @ rs)"
proof -
  have ok: "\<forall>l \<in> set legs. valid_leg (normalise l) \<and> from_json l"
    using decode_valid decode_from_json feed unfolding legs by (metis decode_records_set)
  obtain res e' where r: "Ingest sha256 ctx e legs = (res, None, e')" "reachable sha256 e'"
    "\<forall>l \<in> set legs. gm_get (st_legs (eng_store e')) (ID (AssignID sha256 (normalise l))) \<noteq> None"
    using ingest_goes_through [OF reach ok live] by blast
  have "sys_step sha256 e e'" by (rule step_ingest [OF r(1)]) (use ok in blast)
  then have "all_taken json s sha256 e' old" using old taken_step [OF reach] by (simp add: all_taken_def)
  moreover have "all_taken json s sha256 e' rs"
    using r(3) unfolding all_taken_def taken_def legs by (metis decode_records_set decode_valid(2))
  ultimately show ?thesis using r(1,2) by (auto simp: ingest_handler_def all_taken_def)
qed

text \<open>
  After a round that goes on, everything polled is taken; whenever the loop stops, everything committed is taken.
\<close>

lemma Run_round_inv:
  fixes s :: "'c Source"
  assumes gc: "group_consumer (src_cl s) polled committed" and feed: "feed_ok json (src_cl s)"
    and reach: "reachable sha256 (lp_handler lp)" and live: "\<forall>n. ctx (n + 3) = None"
    and old: "all_taken json s sha256 (lp_handler lp) (polled (lp_client lp))" "committed (lp_client lp) \<le> length (polled (lp_client lp))"
  shows "case Run_round json s (ingest_handler sha256) ctx lp of
      Continue lp' \<Rightarrow> reachable sha256 (lp_handler lp') \<and> all_taken json s sha256 (lp_handler lp') (polled (lp_client lp')) \<and>
        committed (lp_client lp') \<le> length (polled (lp_client lp'))
    | Return err lp' \<Rightarrow> lp_handler lp' = lp_handler lp \<and> committed (lp_client lp') = committed (lp_client lp) \<and>
        (\<exists>more. polled (lp_client lp') = polled (lp_client lp) @ more)"
proof -
  note law = group_consumerD [OF gc]
  obtain f c where poll: "PollRecords (src_cl s) 1000 (lp_client lp) = (f, c)" by force
  note p = law(1) [OF poll]
  obtain legs bad where dec: "decode_records json s (fetchRecords f) = (legs, bad)" by force
  have ts: "\<forall>r \<in> set (fetchRecords f). time_json_ok (k_Timestamp r)" "\<forall>v l. json v = Inr l \<longrightarrow> from_json l"
    using feed poll unfolding feed_ok_def by (metis fst_conv)+
  from handle_batch [OF reach ts(2,1) live old(1), of legs] dec
  obtain e where e: "ingest_handler sha256 (\<lambda>n. ctx (n + 3)) (lp_handler lp) legs = (None, e)" "reachable sha256 e"
    "all_taken json s sha256 e (polled (lp_client lp) @ fetchRecords f)" by auto
  have none: "all_taken json s sha256 (lp_handler lp) (polled (lp_client lp) @ fetchRecords f)" if "legs = []"
    using old(1) that decode_records_set [of _ json s "fetchRecords f"] by (auto simp: all_taken_def dec)
  obtain er c' where com: "CommitUncommittedOffsets (src_cl s) c = (er, c')" by force
  show ?thesis
    unfolding Run_round_def poll prod.case Let_def dec
    using p law(2) [OF com] law(3,4) old e none reach com
    by (auto simp: allow_rebalance_def commit_offsets_def split: option.splits)
qed

lemma Run_inv:
  fixes s :: "'c Source"
  assumes gc: "group_consumer (src_cl s) polled committed" and feed: "feed_ok json (src_cl s)"
    and "reachable sha256 (lp_handler lp)" "\<forall>ctx \<in> set ctxs. \<forall>n. ctx (n + 3) = None"
    and "all_taken json s sha256 (lp_handler lp) (polled (lp_client lp))" "committed (lp_client lp) \<le> length (polled (lp_client lp))"
    and "Run json s (ingest_handler sha256) ctxs lp = Continue lp' \<or> Run json s (ingest_handler sha256) ctxs lp = Return err lp'"
  shows "reachable sha256 (lp_handler lp') \<and>
    all_taken json s sha256 (lp_handler lp') (take (committed (lp_client lp')) (polled (lp_client lp')))"
  using assms(3-7)
proof (induction ctxs arbitrary: lp)
  case Nil
  then show ?case by (auto simp: all_taken_def dest: in_set_takeD)
next
  case (Cons ctx ctxs)
  have live: "\<forall>n. ctx (n + 3) = None" using Cons.prems(2) by simp
  note round = Run_round_inv [OF gc feed Cons.prems(1) live Cons.prems(3,4)]
  show ?case
  proof (cases "Run_round json s (ingest_handler sha256) ctx lp")
    case (Return err1 lp1)
    then have lp': "lp' = lp1" using Cons.prems(5) by auto
    obtain more where lp1: "lp_handler lp1 = lp_handler lp" "committed (lp_client lp1) = committed (lp_client lp)"
      "polled (lp_client lp1) = polled (lp_client lp) @ more" using round Return by auto
    have "take (committed (lp_client lp1)) (polled (lp_client lp1)) = take (committed (lp_client lp)) (polled (lp_client lp))"
      using Cons.prems(4) by (simp add: lp1)
    then show ?thesis using Cons.prems(1,3) by (auto simp: lp' lp1(1) all_taken_def dest: in_set_takeD)
  next
    case (Continue lp1)
    then show ?thesis using Cons.IH [of lp1] round Cons.prems(2,5) by simp
  qed
qed

subsection \<open>Properties\<close>

text \<open>
  A client of one partition: the records still to come, those polled, the number committed. It fetches one record per poll, of
  a broker that accepts no record without a proper time.
\<close>

type_synonym demo_client = "Record list \<times> Record list \<times> nat"

definition demo_poll :: "nat \<Rightarrow> demo_client \<Rightarrow> Fetches \<times> demo_client" where
  "demo_poll n c =
     (case c of (todo, polled, k) \<Rightarrow>
        let rs = filter (\<lambda>r. time_json_ok (k_Timestamp r)) (take 1 todo) in
        (\<lparr>clientClosed = False, fetchErrors = [], fetchRecords = rs\<rparr>, (drop 1 todo, polled @ rs, k)))"

definition demo_cl :: "demo_client Client" where
  "demo_cl =
     \<lparr>PollRecords = demo_poll,
      CommitUncommittedOffsets = (\<lambda>(todo, polled, k). (None, (todo, polled, length polled))),
      AllowRebalance = (\<lambda>c. c)\<rparr>"

definition demo_source :: "demo_client Source" where
  "demo_source = \<lparr>src_cl = demo_cl, src_sourceOf = [(''rail.legs'', ''rail'')]\<rparr>"

definition demo_record :: "int \<Rightarrow> Record" where
  "demo_record k =
     \<lparr>k_Topic = ''rail.legs'', k_Partition = 0, k_Offset = k, k_Key = ''R1'', k_Value = ''L'', k_Timestamp = 0\<rparr>"

definition demo_value :: "string \<Rightarrow> Leg result" where
  "demo_value v = (if v = ''L'' then Inr (sample_leg\<lparr>Source := '''', TxnRef := ''''\<rparr>) else Inl (ErrLib ''json.Unmarshal''))"

definition demo_kleg :: Leg where
  "demo_kleg = sample_leg\<lparr>IngestedAt := 0\<rparr>"

lemma demo_decode:
  "decode demo_value (demo_record 0) ''rail'' = Inr demo_kleg" "time_json_ok 0" "from_json demo_kleg" "valid_leg demo_kleg"
  by code_simp+

lemma demo_batch_decodes: "decode_records demo_value demo_source [demo_record k] = ([demo_kleg], 0)"
  and demo_record_source: "record_source demo_source (demo_record k) = ''rail''"
proof -
  show src: "record_source demo_source (demo_record k) = ''rail''"
    by (simp add: record_source_def demo_source_def demo_record_def)
  have "with_defaults (demo_record k) = with_defaults (demo_record 0)" "k_Value (demo_record k) = k_Value (demo_record 0)"
    by (simp_all add: with_defaults_def demo_record_def fun_eq_iff Let_def)
  then have "decode demo_value (demo_record k) ''rail'' = Inr demo_kleg" using demo_decode(1) by (simp only: decode_def)
  then show "decode_records demo_value demo_source [demo_record k] = ([demo_kleg], 0)" by (simp add: src)
qed

lemma demo_client_simps:
  "PollRecords (src_cl demo_source) n (demo_record k # todo, polled, m) =
     (\<lparr>clientClosed = False, fetchErrors = [], fetchRecords = [demo_record k]\<rparr>, (todo, polled @ [demo_record k], m))"
  "CommitUncommittedOffsets (src_cl demo_source) (todo, polled, m) = (None, (todo, polled, length polled))"
  "AllowRebalance (src_cl demo_source) c = c"
  using demo_decode(2) by (simp_all add: demo_source_def demo_cl_def demo_poll_def demo_record_def Let_def)

lemma demo_group: "group_consumer demo_cl (\<lambda>(todo, polled, k). polled) (\<lambda>(todo, polled, k). k)"
  by (auto simp: group_consumer_def demo_cl_def demo_poll_def Let_def)

lemma demo_feed: "feed_ok demo_value demo_cl"
  using sample_leg_ok(3)
  by (auto simp: feed_ok_def demo_value_def demo_cl_def demo_poll_def Let_def from_json_def leg_time_ok_def split: if_splits)



text \<open>
  C29: a failed batch can be lost. When the handler fails on one batch and the next round succeeds, the commit of the second round
  also covers the records of the first, although the handler refused them: the loop neither rewinds the client nor
  remembers the failure, so that nothing is left to redeliver them after a restart.
\<close>
theorem kafka_failed_batch_committed:
  assumes gc: "group_consumer (src_cl s) polled committed"
    and one: "PollRecords (src_cl s) 1000 (lp_client lp) = (f1, c1)" "\<not> clientClosed f1" "\<forall>n < 3. ctx1 n = None"
      "decode_records json s (fetchRecords f1) = (legs1, bad1)" "legs1 \<noteq> []"
      "h (\<lambda>n. ctx1 (n + 3)) (lp_handler lp) legs1 = (Some err, e1)"
    and two: "PollRecords (src_cl s) 1000 (AllowRebalance (src_cl s) c1) = (f2, c2)" "\<not> clientClosed f2" "\<forall>n < 3. ctx2 n = None"
      "decode_records json s (fetchRecords f2) = (legs2, bad2)" "legs2 \<noteq> []"
      "h (\<lambda>n. ctx2 (n + 3)) e1 legs2 = (None, e2)" "CommitUncommittedOffsets (src_cl s) c2 = (None, c3)"
  shows "\<exists>lp'. Run json s h [ctx1, ctx2] lp = Continue lp' \<and> lp_handler lp' = e2 \<and>
    set (fetchRecords f1) \<subseteq> set (take (committed (lp_client lp')) (polled (lp_client lp')))"
proof -
  note law = group_consumerD [OF gc]
  let ?lp1 = "allow_rebalance s (lp\<lparr>lp_client := c1, lp_handler := e1\<rparr>)"
  have r1: "Run_round json s h ctx1 lp = Continue ?lp1"
    using one by (simp add: Run_round_def Let_def)
  have lp1: "lp_client ?lp1 = AllowRebalance (src_cl s) c1" "lp_handler ?lp1 = e1" by (simp_all add: allow_rebalance_def)
  have r2: "Run_round json s h ctx2 ?lp1 = Continue (allow_rebalance s (commit_offsets s (?lp1\<lparr>lp_client := c2, lp_handler := e2\<rparr>)))"
    using two lp1 by (simp add: Run_round_def Let_def)
  show ?thesis
    using law(1) [OF one(1)] law(1) [OF two(1)] law(2) [OF two(7)] law(3,4) two(7)
    by (simp add: r1 r2) (auto simp: allow_rebalance_def commit_offsets_def)
qed

text \<open>A handler that fails once and then counts the legs it takes.\<close>

definition flaky :: "(bool \<times> nat) handler" where
  "flaky ctx e legs =
     (if fst e then (None, (True, snd e + length legs)) else (Some (ErrText ''store down''), (True, snd e)))"

theorem kafka_failed_batch_committed_witness:
  "\<exists>lp'. Run demo_value demo_source flaky [\<lambda>_. None, \<lambda>_. None]
       \<lparr>lp_client = ([demo_record 0, demo_record 1], [], 0), lp_handler = (False, 0), lp_commits = []\<rparr> =
       Continue lp' \<and> lp_handler lp' = (True, 1) \<and>
     demo_record 0 \<in> set (take (snd (snd (lp_client lp'))) (fst (snd (lp_client lp'))))"
proof -
  let ?lp = "\<lparr>lp_client = ([demo_record 0, demo_record 1], [], 0), lp_handler = (False, 0 :: nat), lp_commits = []\<rparr>"
  have gc: "group_consumer (src_cl demo_source) (\<lambda>(todo, polled, k). polled) (\<lambda>(todo, polled, k). k)"
    using demo_group by (simp add: demo_source_def)
  let ?f = "\<lambda>k. \<lparr>clientClosed = False, fetchErrors = [], fetchRecords = [demo_record k]\<rparr>"
  have p1: "PollRecords (src_cl demo_source) 1000 (lp_client ?lp) = (?f 0, ([demo_record 1], [demo_record 0], 0))"
    by (simp add: demo_client_simps)
  have p2: "PollRecords (src_cl demo_source) 1000 (AllowRebalance (src_cl demo_source) ([demo_record 1], [demo_record 0], 0)) =
      (?f 1, ([], [demo_record 0, demo_record 1], 0))" by (simp add: demo_client_simps)
  have dec: "decode_records demo_value demo_source (fetchRecords (?f k)) = ([demo_kleg], 0)" for k
    by (simp only: demo_batch_decodes Fetches.simps)
  have h: "flaky (\<lambda>n. None) (lp_handler ?lp) [demo_kleg] = (Some (ErrText ''store down''), (True, 0))"
    "flaky (\<lambda>n. None) (True, 0) [demo_kleg] = (None, (True, 1))" by (simp_all add: flaky_def)
  have "\<exists>lp'. Run demo_value demo_source flaky [\<lambda>_. None, \<lambda>_. None] ?lp = Continue lp' \<and> lp_handler lp' = (True, 1) \<and>
      set (fetchRecords (?f 0)) \<subseteq> set (take (case lp_client lp' of (todo, polled, k) \<Rightarrow> k) (case lp_client lp' of (todo, polled, k) \<Rightarrow> polled))"
    by (rule kafka_failed_batch_committed [where h = flaky and lp = ?lp and ?ctx1.0 = "\<lambda>_. None" and ?ctx2.0 = "\<lambda>_. None", OF gc p1 _ _ dec _ h(1) p2 _ _ dec _ h(2) demo_client_simps(2)]) simp_all
  then show ?thesis by (auto simp: case_prod_beta)
qed

end
