(* ===== verification/Recon_Config.thy ===== *)
theory Recon_Config
  imports Go_Parse Recon_Engine "HOL-Library.State_Monad"
begin

text \<open>
  The configuration (\<open>internal/config/config.go\<close>): the reading of the environment, which collects the
  errors of all variables, and the validation of the result. The environment is the lookup function
  the loader takes; the reader that appends to a shared list of errors is a state monad over that list.
\<close>

subsection \<open>The resolved configuration\<close>

abbreviation (input) StoreMemory :: string where "StoreMemory \<equiv> ''memory''"
abbreviation (input) StorePostgres :: string where "StorePostgres \<equiv> ''postgres''"

record Config =
  HTTPAddr :: string
  ShutdownTimeout :: Duration
  LogLevel :: string
  ServiceName :: string
  cfg_Store :: string
  PostgresDSN :: string
  KafkaEnabled :: bool
  KafkaBrokers :: "string list"
  KafkaGroup :: string
  KafkaTopics :: "string list"
  WindowTTL :: Duration
  SweepInterval :: Duration
  cfg_Rules :: Rules
  OTelEndpoint :: string
  OTelInsecure :: bool

subsection \<open>Reading one variable\<close>

type_synonym env = "string \<Rightarrow> string option"
type_synonym 'a reader = "(goerr list, 'a) state"

definition env_str :: "env \<Rightarrow> string \<Rightarrow> string \<Rightarrow> string" where
  "env_str lookup key dflt =
     (case lookup key of
        Some v \<Rightarrow> if TrimSpace v \<noteq> [] then TrimSpace v else dflt
      | None \<Rightarrow> dflt)"

definition env_list :: "env \<Rightarrow> string \<Rightarrow> string \<Rightarrow> string list" where
  "env_list lookup key dflt =
     filter (\<lambda>p. p \<noteq> []) (map TrimSpace (split_char (CHR '','') (env_str lookup key dflt)))"

text \<open>The typed readers differ in the parser alone: a failure is recorded and the default is used.\<close>

definition env_parsed :: "(string \<Rightarrow> 'a result) \<Rightarrow> env \<Rightarrow> string \<Rightarrow> 'a \<Rightarrow> 'a reader" where
  "env_parsed parse lookup key dflt =
     (case lookup key of
        None \<Rightarrow> State_Monad.return dflt
      | Some v \<Rightarrow>
          if TrimSpace v = [] then State_Monad.return dflt
          else
            (case parse (TrimSpace v) of
               Inl err \<Rightarrow> do {
                 State_Monad.update (\<lambda>errs. errs @ [Errorf (key @ '': '') err '''']);
                 State_Monad.return dflt
               }
             | Inr x \<Rightarrow> State_Monad.return x))"

definition env_dur :: "env \<Rightarrow> string \<Rightarrow> Duration \<Rightarrow> Duration reader" where
  "env_dur = env_parsed ParseDuration"

definition env_i64 :: "env \<Rightarrow> string \<Rightarrow> int \<Rightarrow> int reader" where
  "env_i64 = env_parsed ParseInt"

definition env_boolean :: "env \<Rightarrow> string \<Rightarrow> bool \<Rightarrow> bool reader" where
  "env_boolean = env_parsed ParseBool"

subsection \<open>Loading\<close>

abbreviation (input) Second :: Duration where "Second \<equiv> 10 ^ 9"
abbreviation (input) Hour :: Duration where "Hour \<equiv> 3600 * 10 ^ 9"

definition read_rules :: "env \<Rightarrow> Rules reader" where
  "read_rules lookup = do {
     bps \<leftarrow> env_i64 lookup ''RECON_TOLERANCE_BPS'' 10;
     minor \<leftarrow> env_i64 lookup ''RECON_TOLERANCE_ABS_MINOR'' 2;
     days \<leftarrow> env_i64 lookup ''RECON_VALUE_DATE_WINDOW_DAYS'' 2;
     cands \<leftarrow> env_i64 lookup ''RECON_T3_MAX_CANDIDATES'' 24;
     subset \<leftarrow> env_i64 lookup ''RECON_T3_MAX_SUBSET'' 6;
     hint \<leftarrow> env_boolean lookup ''RECON_T3_REQUIRE_BATCH_HINT'' True;
     State_Monad.return
       \<lparr>ToleranceBps = bps, ToleranceAbsMinor = minor, ValueDateWindowDays = days, T3MaxCandidates = cands,
        T3MaxSubset = subset, T3RequireBatchHint = hint\<rparr>
   }"

definition read_config :: "env \<Rightarrow> Config reader" where
  "read_config lookup = do {
     shutdown \<leftarrow> env_dur lookup ''RECON_SHUTDOWN_TIMEOUT'' (20 * Second);
     kafka \<leftarrow> env_boolean lookup ''RECON_KAFKA_ENABLED'' False;
     wttl \<leftarrow> env_dur lookup ''RECON_WINDOW_TTL'' (48 * Hour);
     sweep \<leftarrow> env_dur lookup ''RECON_SWEEP_INTERVAL'' (30 * Second);
     rules \<leftarrow> read_rules lookup;
     insecure \<leftarrow> env_boolean lookup ''RECON_OTEL_INSECURE'' True;
     State_Monad.return
       \<lparr>HTTPAddr = env_str lookup ''RECON_HTTP_ADDR'' '':8080'',
        ShutdownTimeout = shutdown,
        LogLevel = ToLower (env_str lookup ''RECON_LOG_LEVEL'' ''info''),
        ServiceName = env_str lookup ''RECON_SERVICE_NAME'' ''recon-stream'',
        cfg_Store = ToLower (env_str lookup ''RECON_STORE'' StoreMemory),
        PostgresDSN = env_str lookup ''RECON_POSTGRES_DSN'' '''',
        KafkaEnabled = kafka,
        KafkaBrokers = env_list lookup ''RECON_KAFKA_BROKERS'' ''localhost:9092'',
        KafkaGroup = env_str lookup ''RECON_KAFKA_GROUP'' ''recon-stream'',
        KafkaTopics = env_list lookup ''RECON_KAFKA_TOPICS'' ''ledger.legs,rail.legs'',
        WindowTTL = wttl,
        SweepInterval = sweep,
        cfg_Rules = rules,
        OTelEndpoint = env_str lookup ''RECON_OTEL_ENDPOINT'' '''',
        OTelInsecure = insecure\<rparr>
   }"

definition config_errs :: "Config \<Rightarrow> goerr list" where
  "config_errs cfg =
     (if cfg_Store cfg = StoreMemory then []
      else if cfg_Store cfg = StorePostgres
      then if PostgresDSN cfg = []
           then [ErrText ''RECON_POSTGRES_DSN is required when RECON_STORE=postgres''] else []
      else [ErrText (''RECON_STORE must be memory or postgres, got '' @ quote (cfg_Store cfg))]) @
     (if LogLevel cfg \<in> {''debug'', ''info'', ''warn'', ''error''} then []
      else [ErrText (''RECON_LOG_LEVEL must be debug|info|warn|error, got '' @ quote (LogLevel cfg))]) @
     (if KafkaEnabled cfg
      then (if KafkaBrokers cfg = [] then [ErrText ''RECON_KAFKA_BROKERS is required when Kafka is enabled''] else []) @
           (if KafkaTopics cfg = [] then [ErrText ''RECON_KAFKA_TOPICS is required when Kafka is enabled''] else [])
      else []) @
     (if WindowTTL cfg \<le> 0 then [ErrText ''RECON_WINDOW_TTL must be > 0''] else []) @
     (if SweepInterval cfg \<le> 0 then [ErrText ''RECON_SWEEP_INTERVAL must be > 0''] else []) @
     (if ShutdownTimeout cfg \<le> 0 then [ErrText ''RECON_SHUTDOWN_TIMEOUT must be > 0''] else []) @
     (case Rules_Validate (cfg_Rules cfg) of None \<Rightarrow> [] | Some err \<Rightarrow> [err])"

definition Load :: "env \<Rightarrow> Config result" where
  "Load lookup =
     (case run_state (read_config lookup) [] of
        (cfg, errs) \<Rightarrow>
          if errs @ config_errs cfg = [] then Inr cfg
          else Inl (Errorf ''config: '' (Joined (errs @ config_errs cfg)) ''''))"

subsection \<open>Facts\<close>

text \<open>A reading as a value that depends on the variable alone, and the variables that do not parse.\<close>

definition blank :: "env \<Rightarrow> string \<Rightarrow> bool" where
  "blank lookup key \<longleftrightarrow> (case lookup key of None \<Rightarrow> True | Some v \<Rightarrow> TrimSpace v = [])"

definition parses :: "(string \<Rightarrow> 'a result) \<Rightarrow> env \<Rightarrow> string \<Rightarrow> bool" where
  "parses parse lookup key \<longleftrightarrow> blank lookup key \<or> (\<exists>x. parse (TrimSpace (the (lookup key))) = Inr x)"

definition value_of :: "(string \<Rightarrow> 'a result) \<Rightarrow> env \<Rightarrow> string \<Rightarrow> 'a \<Rightarrow> 'a" where
  "value_of parse lookup key dflt =
     (if blank lookup key then dflt
      else (case parse (TrimSpace (the (lookup key))) of Inl _ \<Rightarrow> dflt | Inr x \<Rightarrow> x))"

definition parse_err :: "(string \<Rightarrow> 'a result) \<Rightarrow> env \<Rightarrow> string \<Rightarrow> goerr list" where
  "parse_err parse lookup key =
     (if blank lookup key then []
      else (case parse (TrimSpace (the (lookup key))) of Inl e \<Rightarrow> [Errorf (key @ '': '') e ''''] | Inr x \<Rightarrow> []))"

lemma env_parsed_run:
  "run_state (env_parsed parse lookup key dflt) errs =
     (value_of parse lookup key dflt, errs @ parse_err parse lookup key)"
  by (auto simp: env_parsed_def value_of_def parse_err_def blank_def State_Monad.return_def State_Monad.update_def
      State_Monad.bind_def State_Monad.get_def State_Monad.set_def split: option.splits sum.splits)

lemma parse_err_Nil: "parse_err parse lookup key = [] \<longleftrightarrow> parses parse lookup key"
  by (auto simp: parse_err_def parses_def split: sum.splits)

lemma value_of_blank [simp]: "blank lookup key \<Longrightarrow> value_of parse lookup key dflt = dflt"
  by (simp add: value_of_def)

lemma blank_None: "blank (\<lambda>_. None) key"
  by (simp add: blank_def)

lemma parse_err_blank: "blank lookup key \<Longrightarrow> parse_err parse lookup key = []"
  by (simp add: parse_err_def)

lemma env_str_blank [simp]: "blank lookup key \<Longrightarrow> env_str lookup key dflt = dflt"
  by (auto simp: env_str_def blank_def split: option.splits)

lemma value_of_in:
  "(\<And>s x. parse s = Inr x \<Longrightarrow> P x) \<Longrightarrow> P dflt \<Longrightarrow> P (value_of parse lookup key dflt)"
  by (auto simp: value_of_def split: sum.splits)

lemmas reader_simps = env_parsed_run env_dur_def env_i64_def env_boolean_def

lemma run_bind: "run_state (State_Monad.bind m f) s = (case run_state m s of (x, t) \<Rightarrow> run_state (f x) t)"
  by (simp add: State_Monad.bind_def)

lemma run_return: "run_state (State_Monad.return x) s = (x, s)"
  by (simp add: State_Monad.return_def)

definition env_rules :: "env \<Rightarrow> Rules" where
  "env_rules lookup =
     \<lparr>ToleranceBps = value_of ParseInt lookup ''RECON_TOLERANCE_BPS'' 10,
      ToleranceAbsMinor = value_of ParseInt lookup ''RECON_TOLERANCE_ABS_MINOR'' 2,
      ValueDateWindowDays = value_of ParseInt lookup ''RECON_VALUE_DATE_WINDOW_DAYS'' 2,
      T3MaxCandidates = value_of ParseInt lookup ''RECON_T3_MAX_CANDIDATES'' 24,
      T3MaxSubset = value_of ParseInt lookup ''RECON_T3_MAX_SUBSET'' 6,
      T3RequireBatchHint = value_of ParseBool lookup ''RECON_T3_REQUIRE_BATCH_HINT'' True\<rparr>"

definition env_config :: "env \<Rightarrow> Config" where
  "env_config lookup =
     \<lparr>HTTPAddr = env_str lookup ''RECON_HTTP_ADDR'' '':8080'',
      ShutdownTimeout = value_of ParseDuration lookup ''RECON_SHUTDOWN_TIMEOUT'' (20 * Second),
      LogLevel = ToLower (env_str lookup ''RECON_LOG_LEVEL'' ''info''),
      ServiceName = env_str lookup ''RECON_SERVICE_NAME'' ''recon-stream'',
      cfg_Store = ToLower (env_str lookup ''RECON_STORE'' StoreMemory),
      PostgresDSN = env_str lookup ''RECON_POSTGRES_DSN'' '''',
      KafkaEnabled = value_of ParseBool lookup ''RECON_KAFKA_ENABLED'' False,
      KafkaBrokers = env_list lookup ''RECON_KAFKA_BROKERS'' ''localhost:9092'',
      KafkaGroup = env_str lookup ''RECON_KAFKA_GROUP'' ''recon-stream'',
      KafkaTopics = env_list lookup ''RECON_KAFKA_TOPICS'' ''ledger.legs,rail.legs'',
      WindowTTL = value_of ParseDuration lookup ''RECON_WINDOW_TTL'' (48 * Hour),
      SweepInterval = value_of ParseDuration lookup ''RECON_SWEEP_INTERVAL'' (30 * Second),
      cfg_Rules = env_rules lookup,
      OTelEndpoint = env_str lookup ''RECON_OTEL_ENDPOINT'' '''',
      OTelInsecure = value_of ParseBool lookup ''RECON_OTEL_INSECURE'' True\<rparr>"

definition env_errs :: "env \<Rightarrow> goerr list" where
  "env_errs lookup =
     parse_err ParseDuration lookup ''RECON_SHUTDOWN_TIMEOUT'' @
     parse_err ParseBool lookup ''RECON_KAFKA_ENABLED'' @
     parse_err ParseDuration lookup ''RECON_WINDOW_TTL'' @
     parse_err ParseDuration lookup ''RECON_SWEEP_INTERVAL'' @
     parse_err ParseInt lookup ''RECON_TOLERANCE_BPS'' @
     parse_err ParseInt lookup ''RECON_TOLERANCE_ABS_MINOR'' @
     parse_err ParseInt lookup ''RECON_VALUE_DATE_WINDOW_DAYS'' @
     parse_err ParseInt lookup ''RECON_T3_MAX_CANDIDATES'' @
     parse_err ParseInt lookup ''RECON_T3_MAX_SUBSET'' @
     parse_err ParseBool lookup ''RECON_T3_REQUIRE_BATCH_HINT'' @
     parse_err ParseBool lookup ''RECON_OTEL_INSECURE''"

lemma read_rules_run:
  "run_state (read_rules lookup) errs =
     (env_rules lookup,
      errs @ parse_err ParseInt lookup ''RECON_TOLERANCE_BPS'' @
        parse_err ParseInt lookup ''RECON_TOLERANCE_ABS_MINOR'' @
        parse_err ParseInt lookup ''RECON_VALUE_DATE_WINDOW_DAYS'' @
        parse_err ParseInt lookup ''RECON_T3_MAX_CANDIDATES'' @
        parse_err ParseInt lookup ''RECON_T3_MAX_SUBSET'' @
        parse_err ParseBool lookup ''RECON_T3_REQUIRE_BATCH_HINT'')"
  by (simp only: read_rules_def run_bind run_return reader_simps prod.case env_rules_def append_assoc)

lemma read_config_run: "run_state (read_config lookup) [] = (env_config lookup, env_errs lookup)"
  by (simp only: read_config_def run_bind run_return reader_simps read_rules_run prod.case env_config_def
      env_errs_def append_assoc append_Nil)

lemma Load_eq:
  "Load lookup =
     (if env_errs lookup = [] \<and> config_errs (env_config lookup) = [] then Inr (env_config lookup)
      else Inl (Errorf ''config: '' (Joined (env_errs lookup @ config_errs (env_config lookup))) ''''))"
  by (simp add: Load_def read_config_run)

text \<open>What a configuration promises to the rest of the service.\<close>

definition config_ok :: "Config \<Rightarrow> bool" where
  "config_ok cfg \<longleftrightarrow>
     (cfg_Store cfg = StoreMemory \<or> cfg_Store cfg = StorePostgres \<and> PostgresDSN cfg \<noteq> []) \<and>
     LogLevel cfg \<in> {''debug'', ''info'', ''warn'', ''error''} \<and>
     (KafkaEnabled cfg \<longrightarrow> KafkaBrokers cfg \<noteq> [] \<and> KafkaTopics cfg \<noteq> []) \<and>
     0 < WindowTTL cfg \<and> 0 < SweepInterval cfg \<and> 0 < ShutdownTimeout cfg \<and>
     rules_ok (cfg_Rules cfg)"

lemma config_errs_Nil: "config_errs cfg = [] \<longleftrightarrow> config_ok cfg"
proof -
  have store: "(if a then [] else if b then if c then [x] else [] else [y]) = [] \<longleftrightarrow> a \<or> b \<and> \<not> c"
    for a b c and x y :: goerr by simp
  have guard: "(if a then [x] else []) = [] \<longleftrightarrow> \<not> a" "(if a then [] else [x]) = [] \<longleftrightarrow> a"
    "(if a then xs else []) = [] \<longleftrightarrow> (a \<longrightarrow> xs = [])" for a and x :: goerr and xs by simp_all
  have rules: "(case Rules_Validate (cfg_Rules cfg) of None \<Rightarrow> [] | Some err \<Rightarrow> [err]) = [] \<longleftrightarrow>
      rules_ok (cfg_Rules cfg)"
    by (simp add: Rules_Validate_None [symmetric] split: option.split)
  show ?thesis
    unfolding config_errs_def config_ok_def append_is_Nil_conv store guard rules list.distinct by (simp add: not_le)
qed

lemma env_list_entries:
  "p \<in> set (env_list lookup key dflt) \<Longrightarrow> p \<noteq> [] \<and> TrimSpace p = p"
  by (auto simp: env_list_def)

text \<open>The typed variables in the order they are read, each with its parser; those that do not parse.\<close>

definition typed_vars :: "(string \<times> (env \<Rightarrow> string \<Rightarrow> bool)) list" where
  "typed_vars =
     [(''RECON_SHUTDOWN_TIMEOUT'', parses ParseDuration), (''RECON_KAFKA_ENABLED'', parses ParseBool),
      (''RECON_WINDOW_TTL'', parses ParseDuration), (''RECON_SWEEP_INTERVAL'', parses ParseDuration),
      (''RECON_TOLERANCE_BPS'', parses ParseInt), (''RECON_TOLERANCE_ABS_MINOR'', parses ParseInt),
      (''RECON_VALUE_DATE_WINDOW_DAYS'', parses ParseInt), (''RECON_T3_MAX_CANDIDATES'', parses ParseInt),
      (''RECON_T3_MAX_SUBSET'', parses ParseInt), (''RECON_T3_REQUIRE_BATCH_HINT'', parses ParseBool),
      (''RECON_OTEL_INSECURE'', parses ParseBool)]"

definition unreadable :: "env \<Rightarrow> string set" where
  "unreadable lookup = {k. \<exists>(key, readable) \<in> set typed_vars. k = key \<and> \<not> readable lookup key}"

lemma parse_err_key:
  "(\<exists>e. Errorf (k @ '': '') e '''' \<in> set (parse_err parse lookup key)) \<longleftrightarrow> k = key \<and> \<not> parses parse lookup key"
  by (cases "parse (TrimSpace (the (lookup key)))") (auto simp: parse_err_def parses_def)

lemma env_errs_keys: "{k. \<exists>e. Errorf (k @ '': '') e '''' \<in> set (env_errs lookup)} = unreadable lookup"
  unfolding env_errs_def set_append Un_iff ex_disj_distrib parse_err_key unreadable_def typed_vars_def
    list.set bex_simps prod.case simp_thms(31) by (rule refl)

lemma parse_err_shape: "x \<in> set (parse_err parse lookup key) \<Longrightarrow> \<exists>e. x = Errorf (key @ '': '') e ''''"
  by (auto simp: parse_err_def split: if_splits sum.splits)

lemma env_errs_shape:
  assumes "x \<in> set (env_errs lookup)" shows "\<exists>k e. x = Errorf (k @ '': '') e ''''"
  using assms unfolding env_errs_def set_append Un_iff by (elim disjE) (blast dest: parse_err_shape)+

lemma env_errs_Nil: "env_errs lookup = [] \<longleftrightarrow> unreadable lookup = {}"
proof
  assume "unreadable lookup = {}"
  then have "x \<notin> set (env_errs lookup)" for x
    using env_errs_shape [of x lookup] unfolding env_errs_keys [symmetric] by blast
  then show "env_errs lookup = []" by (metis list.set_sel(1))
qed (simp add: env_errs_keys [symmetric])

subsection \<open>Properties\<close>

text \<open>
  C26: A configuration that loads is valid: the store is \<open>memory\<close>, or \<open>postgres\<close> with a DSN; the log
  level is one of the four; with Kafka enabled there is a broker and a topic, and no entry of either
  list is blank; the durations are positive and 64-bit; and the engine the service builds from it (with a
  repository and a classifier) is accepted by \<open>NewEngine\<close>, with the configured rules and window.
\<close>
theorem load_valid:
  assumes "Load lookup = Inr cfg"
  shows "config_ok cfg \<and> (\<forall>p \<in> set (KafkaBrokers cfg) \<union> set (KafkaTopics cfg). p \<noteq> [] \<and> TrimSpace p = p) \<and>
    in_i64 (WindowTTL cfg) \<and> in_i64 (SweepInterval cfg) \<and> in_i64 (ShutdownTimeout cfg) \<and>
    (\<exists>e. NewEngine (Some repo) (Some clf) (cfg_Rules cfg) (WindowTTL cfg) hooks clock s = Inr e \<and>
       eng_rules e = cfg_Rules cfg \<and> eng_ix e = NewIndex (WindowTTL cfg))"
proof (intro conjI)
  have cfg: "cfg = env_config lookup" "config_ok cfg"
    using assms by (auto simp: Load_eq config_errs_Nil split: if_splits)
  show "config_ok cfg" by (rule cfg(2))
  show "\<forall>p \<in> set (KafkaBrokers cfg) \<union> set (KafkaTopics cfg). p \<noteq> [] \<and> TrimSpace p = p"
    using env_list_entries unfolding cfg(1) env_config_def Config.simps by blast
  have dur: "in_i64 (value_of ParseDuration lookup key d)" if "in_i64 d" for key d
    using ParseDuration_in_i64 that by (rule value_of_in)
  show "in_i64 (WindowTTL cfg)" "in_i64 (SweepInterval cfg)" "in_i64 (ShutdownTimeout cfg)"
    unfolding cfg(1) env_config_def Config.simps by (intro dur, simp add: in_i64_def)+
  have "Rules_Validate (cfg_Rules cfg) = None" "0 < WindowTTL cfg"
    using cfg(2) unfolding config_ok_def Rules_Validate_None by blast+
  then show "\<exists>e. NewEngine (Some repo) (Some clf) (cfg_Rules cfg) (WindowTTL cfg) hooks clock s = Inr e \<and>
       eng_rules e = cfg_Rules cfg \<and> eng_ix e = NewIndex (WindowTTL cfg)"
    by (simp add: NewEngine_def)
qed

text \<open>An environment that sets a few variables.\<close>

definition demo_env :: env where
  "demo_env =
     map_of [(''RECON_WINDOW_TTL'', ''1h30m''), (''RECON_LOG_LEVEL'', '' Debug ''),
             (''RECON_KAFKA_TOPICS'', ''a,, b''), (''RECON_TOLERANCE_BPS'', ''-0''),
             (''RECON_KAFKA_ENABLED'', ''true'')]"

definition demo_config :: Config where
  "demo_config =
     \<lparr>HTTPAddr = '':8080'', ShutdownTimeout = 20 * Second, LogLevel = ''debug'', ServiceName = ''recon-stream'',
      cfg_Store = StoreMemory, PostgresDSN = '''', KafkaEnabled = True, KafkaBrokers = [''localhost:9092''],
      KafkaGroup = ''recon-stream'', KafkaTopics = [''a'', ''b''], WindowTTL = 5400 * Second,
      SweepInterval = 30 * Second, cfg_Rules = DefaultRules\<lparr>ToleranceBps := 0\<rparr>, OTelEndpoint = '''',
      OTelInsecure = True\<rparr>"

lemma demo_env_loads: "Load demo_env = Inr demo_config"
  by code_simp

theorem load_valid_witness:
  "Load demo_env = Inr demo_config \<and> config_ok demo_config \<and> LogLevel demo_config = ''debug''"
proof (intro conjI demo_env_loads)
  show "config_ok demo_config" using load_valid [OF demo_env_loads] by (rule conjunct1)
qed (simp add: demo_config_def)

text \<open>
  C27: A configuration fails to load exactly when a typed variable does not parse or the resolved values
  are invalid, and then nothing is hidden behind the first problem: the variables the error names as
  unreadable are exactly those that do not parse, and every problem of the resolved values is reported
  after them.
\<close>
theorem load_reports_all:
  "case Load lookup of
     Inr cfg \<Rightarrow> unreadable lookup = {} \<and> cfg = env_config lookup \<and> config_ok cfg
   | Inl err \<Rightarrow> (unreadable lookup \<noteq> {} \<or> \<not> config_ok (env_config lookup)) \<and>
       (\<exists>errs. err = Errorf ''config: '' (Joined (errs @ config_errs (env_config lookup))) '''' \<and>
               {k. \<exists>e. Errorf (k @ '': '') e '''' \<in> set errs} = unreadable lookup)"
  using env_errs_keys [of lookup] env_errs_Nil [of lookup] config_errs_Nil [of "env_config lookup"]
  by (auto simp: Load_eq)

definition bad_env :: env where
  "bad_env = map_of [(''RECON_WINDOW_TTL'', ''1d''), (''RECON_STORE'', ''redis'')]"

theorem load_reports_all_witness:
  "\<exists>err errs. Load bad_env = Inl err \<and>
     err = Errorf ''config: '' (Joined (errs @ config_errs (env_config bad_env))) ''''"
proof -
  have "isl (Load bad_env)" by code_simp
  then obtain err where err: "Load bad_env = Inl err" by (auto simp: isl_def)
  then show ?thesis using load_reports_all [of bad_env] by auto
qed

text \<open>
  An environment in which every variable is absent or blank loads, and gives the documented defaults,
  the matching rules among them.
\<close>
theorem load_defaults:
  assumes "\<And>key. blank lookup key"
  shows "Load lookup = Inr
     \<lparr>HTTPAddr = '':8080'', ShutdownTimeout = 20 * Second, LogLevel = ''info'', ServiceName = ''recon-stream'',
      cfg_Store = StoreMemory, PostgresDSN = '''', KafkaEnabled = False, KafkaBrokers = [''localhost:9092''],
      KafkaGroup = ''recon-stream'', KafkaTopics = [''ledger.legs'', ''rail.legs''], WindowTTL = 48 * Hour,
      SweepInterval = 30 * Second, cfg_Rules = DefaultRules, OTelEndpoint = '''', OTelInsecure = True\<rparr>"
    (is "_ = Inr ?cfg")
proof -
  have "env_list lookup key dflt = env_list (\<lambda>_. None) key dflt" for key dflt
    by (simp add: env_list_def env_str_blank [OF assms]) (simp add: env_str_def)
  then have "env_config lookup = env_config (\<lambda>_. None)"
    by (simp only: env_config_def env_rules_def value_of_blank [OF assms] env_str_blank [OF assms]
        value_of_blank [OF blank_None] env_str_blank [OF blank_None])
  moreover have "env_errs lookup = env_errs (\<lambda>_. None)"
    by (simp only: env_errs_def parse_err_blank [OF assms] parse_err_blank [OF blank_None])
  ultimately have "Load lookup = Load (\<lambda>_. None)" by (simp add: Load_eq)
  also have "\<dots> = Inr ?cfg" by code_simp
  finally show ?thesis .
qed

theorem load_defaults_witness:
  "(\<forall>key. blank (\<lambda>_. Some ''  '') key) \<and> (\<exists>cfg. Load (\<lambda>_. Some ''  '') = Inr cfg \<and> cfg_Rules cfg = DefaultRules)"
proof -
  have *: "blank (\<lambda>_. Some ''  '') key" for key
  proof -
    have "TrimSpace ''  '' = []" by code_simp
    then show ?thesis by (simp add: blank_def)
  qed
  then show ?thesis using load_defaults [OF *] by simp
qed

end
