(* ===== verification/Recon_Classify.thy ===== *)
theory Recon_Classify
  imports Recon_Types
begin

text \<open>
  The heuristic classifier of breaks (\<open>internal/domain/classify/heuristic.go\<close>): ordered rules over the legs
  of a break and the legs with the same reference, with the fee band computed in floating point. The
  confidence and the evidence are part of the result, as the code formats them.
\<close>

subsection \<open>Data\<close>

abbreviation (input) HeuristicID :: string where "HeuristicID \<equiv> ''heuristic@v1''"

record Heuristic =
  FeeMinBps :: rat
  FeeMaxBps :: rat
  FeeAttrKeys :: "string list"
  FXAttrKeys :: "string list"

definition NewHeuristic :: Heuristic where
  "NewHeuristic =
     \<lparr>FeeMinBps = 20, FeeMaxBps = 400,
      FeeAttrKeys = [''fee_minor'', ''fee'', ''interchange_minor'', ''scheme_fee_minor''],
      FXAttrKeys = [''fx_rate'', ''original_currency'', ''settlement_currency'']\<rparr>"

subsection \<open>Helpers\<close>

fun opposite :: "Leg \<Rightarrow> Leg list \<Rightarrow> Leg option" where
  "opposite primary [] = None"
| "opposite primary (l # legs) = (if Source l \<noteq> Source primary then Some l else opposite primary legs)"

definition has_attr :: "Leg \<Rightarrow> string \<Rightarrow> bool" where
  "has_attr l k = (case gm_get (Attrs l) k of None \<Rightarrow> False | Some v \<Rightarrow> TrimSpace v \<noteq> '''')"

fun anyAttr :: "string list \<Rightarrow> Leg list \<Rightarrow> string option" where
  "anyAttr keys [] = None"
| "anyAttr keys (l # legs) =
     (case find (has_attr l) keys of Some k \<Rightarrow> Some k | None \<Rightarrow> anyAttr keys legs)"

definition clamp :: "rat \<Rightarrow> rat \<Rightarrow> rat \<Rightarrow> rat" where
  "clamp v lo hi = min hi (max lo v)"

definition round3 :: "rat \<Rightarrow> rat" where
  "round3 v = f64 (of_int (math_round (f64 (v * 1000))) / 1000)"

text \<open>\<open>%.1f\<close> and \<open>%.0f\<close> round the exact value of the float to the nearest decimal, ties to even.\<close>

definition format_fixed :: "nat \<Rightarrow> rat \<Rightarrow> string" where
  "format_fixed d x =
     (let n = round_even (\<bar>x\<bar> * 10 ^ d); q = nat n div 10 ^ d; r = nat n mod 10 ^ d
      in (if x < 0 then ''-'' else '''') @ nat_str q @ (if d = 0 then '''' else ''.'' @ pad_str d r))"

subsection \<open>Classify\<close>

definition out_class :: "string \<Rightarrow> rat \<Rightarrow> string \<Rightarrow> Classification" where
  "out_class cat conf evidence =
     \<lparr>c_Category = cat, c_Confidence = round3 conf, c_ClassifierID = HeuristicID, c_Evidence = evidence\<rparr>"

text \<open>The amount difference and its size in basis points of the larger amount.\<close>

definition amount_diff :: "Leg \<Rightarrow> Leg \<Rightarrow> int" where
  "amount_diff p q = (let diff = i64 (AmountMinor p - AmountMinor q) in if diff < 0 then i64 (- diff) else diff)"

definition fee_base :: "Leg \<Rightarrow> Leg \<Rightarrow> rat" where
  "fee_base p q = max (f64_of_int64 (AmountMinor p)) (f64_of_int64 (AmountMinor q))"

definition fee_bps :: "Leg \<Rightarrow> Leg \<Rightarrow> rat" where
  "fee_bps p q = f64 (f64 (f64_of_int64 (amount_diff p q) / fee_base p q) * 10000)"

definition fee_confidence :: "rat \<Rightarrow> rat" where
  "fee_confidence bps =
     (let conf = f64 (f64 (80 / 100) - f64 (f64 (f64 (10 / 100) * \<bar>f64 (bps - 150)\<bar>) / 250))
      in clamp conf (f64 (60 / 100)) (f64 (80 / 100)))"

definition classify_pair :: "Heuristic \<Rightarrow> Rules \<Rightarrow> Leg \<Rightarrow> Leg \<Rightarrow> Classification" where
  "classify_pair h rules primary partner =
     (if Currency partner \<noteq> Currency primary
      then out_class CatFXDrift (f64 (92 / 100))
             (''currency mismatch '' @ Currency primary @ '' vs '' @ Currency partner @ '' on txn_ref '' @ quote (TxnRef primary))
      else
        (case anyAttr (FXAttrKeys h) [primary, partner] of
           Some k \<Rightarrow>
             out_class CatFXDrift (f64 (88 / 100))
               (''fx attribute '' @ quote k @ '' present; amounts '' @ FormatInt (AmountMinor primary) @ '' vs '' @
                FormatInt (AmountMinor partner))
         | None \<Rightarrow>
             let diff = amount_diff primary partner in
             if WithinTolerance rules (AmountMinor primary) (AmountMinor partner) \<and>
                \<not> WithinDateWindow rules (ValueDate primary) (ValueDate partner)
             then out_class CatTiming (f64 (90 / 100))
                    (''amounts agree, value dates '' @ Date_String (ValueDate primary) @ '' vs '' @
                     Date_String (ValueDate partner) @ '' exceed '' @ [CHR 0xC2, CHR 0xB1] @
                     FormatInt (ValueDateWindowDays rules) @ ''d window'')
             else
               (case anyAttr (FeeAttrKeys h) [primary, partner] of
                  Some k \<Rightarrow>
                    out_class CatFee (f64 (95 / 100))
                      (''fee attribute '' @ quote k @ '' present; amount difference '' @ FormatInt diff)
                | None \<Rightarrow>
                    if fee_base primary partner > 0 \<and> fee_bps primary partner \<ge> FeeMinBps h \<and>
                       fee_bps primary partner \<le> FeeMaxBps h
                    then out_class CatFee (fee_confidence (fee_bps primary partner))
                           (''amount difference '' @ FormatInt diff @ '' minor = '' @
                            format_fixed 1 (fee_bps primary partner) @ '' bps, inside fee band ['' @
                            format_fixed 0 (FeeMinBps h) @ '','' @ format_fixed 0 (FeeMaxBps h) @ ''] bps'')
                    else out_class CatUnclassified (f64 (40 / 100))
                           (''same ref, amount difference '' @ FormatInt diff @ '' minor outside every known pattern''))))"

definition Classify :: "Heuristic \<Rightarrow> ClassifyInput \<Rightarrow> Classification" where
  "Classify h inp =
     (case in_Legs inp of
        [] \<Rightarrow> out_class CatUnclassified 0 ''no legs''
      | primary # others \<Rightarrow>
          (case find (\<lambda>r. Source r = Source primary \<and> ID r \<noteq> ID primary) (in_Related inp) of
             Some r \<Rightarrow>
               out_class CatDuplicate (f64 (95 / 100))
                 (''same source '' @ quote (Source primary) @ '' re-used txn_ref '' @ quote (TxnRef primary) @
                  '' (existing leg '' @ ID r @ '')'')
           | None \<Rightarrow>
               (case (case opposite primary others of
                        Some p \<Rightarrow> Some p
                      | None \<Rightarrow> opposite primary (in_Related inp)) of
                  Some partner \<Rightarrow> classify_pair h (in_Rules inp) primary partner
                | None \<Rightarrow>
                    if in_Trigger inp = TriggerWindowExpired
                    then out_class CatMissingCounterparty
                           (if Source primary = ''ledger'' then f64 (80 / 100) else f64 (75 / 100))
                           (''no leg with txn_ref '' @ quote (TxnRef primary) @
                            '' from any other source within the window'')
                    else out_class CatUnclassified (f64 (30 / 100))
                           ''no counterparty and no recognisable pattern'')))"


subsection \<open>The fee band in exact arithmetic\<close>

text \<open>
  The quotient of the difference by the larger amount keeps a relative distance of at least one part in the
  amount from the limits of the band, more than the two roundings can bridge; the limits themselves are hit
  exactly.
\<close>

lemma f64_le: "f64 x \<le> x * (1 + 1 / 2 ^ 53)" if "0 \<le> x"
proof -
  have "f64 x - x \<le> x / 2 ^ 53" using abs_le_D1 [OF f64_relative_error [of x]] that by simp
  then show ?thesis by (simp add: distrib_left diff_le_eq add.commute)
qed

lemma f64_ge: "x * (1 - 1 / 2 ^ 53) \<le> f64 x" if "0 \<le> x"
proof -
  have "x - f64 x \<le> x / 2 ^ 53" using abs_le_D2 [OF f64_relative_error [of x]] that by simp
  then show ?thesis by (simp add: right_diff_distrib diff_le_eq add.commute)
qed

lemma band_low:
  fixes d B :: int
  assumes "0 \<le> d" "0 < B" "B < 2 ^ 50"
  shows "20 \<le> f64 (f64 (of_int d / of_int B) * 10000) \<longleftrightarrow> B \<le> 500 * d"
proof
  assume "B \<le> 500 * d"
  then have "(of_int B :: rat) \<le> of_int (500 * d)" by (simp only: of_int_le_iff)
  then have "1 / 500 \<le> (of_int d / of_int B :: rat)" using assms(2) by (simp add: field_simps)
  then have "f64 (f64 (1 / 500) * 10000) \<le> f64 (f64 (of_int d / of_int B) * 10000)" by (intro f64_mono mult_right_mono) simp_all
  moreover have "f64 (f64 (1 / 500) * 10000) = 20" by code_simp
  ultimately show "20 \<le> f64 (f64 (of_int d / of_int B) * 10000)" by simp
next
  assume ge: "20 \<le> f64 (f64 (of_int d / of_int B) * 10000)"
  show "B \<le> 500 * d"
  proof (rule ccontr)
    assume "\<not> B \<le> 500 * d"
    then have "of_int (500 * d) \<le> (of_int (B - 1) :: rat)" by (simp only: of_int_le_iff)
    then have "of_int (500 * d) / of_int B \<le> (of_int (B - 1) / of_int B :: rat)" using assms(2) by (intro divide_right_mono) simp_all
    then have x: "500 * (of_int d / of_int B) \<le> (1 - 1 / of_int B :: rat)" using assms(2) by (simp add: diff_divide_distrib)
    have "of_int B \<le> (of_int (2 ^ 50) :: rat)" using assms(3) by (simp only: of_int_le_iff less_imp_le)
    then have "1 / 2 ^ 50 \<le> (1 / of_int B :: rat)" using assms(2) by (simp add: field_simps)
    moreover have "500 * u \<le> 1 - v \<Longrightarrow> w \<le> v \<Longrightarrow> u \<le> (1 - w) / 500" for u v w :: rat by (simp add: field_simps)
    ultimately have x': "of_int d / of_int B \<le> ((1 - 1 / 2 ^ 50) / 500 :: rat)" using x by blast
    have pos: "0 \<le> (of_int d / of_int B :: rat)" using assms(1,2) by simp
    have "f64 (of_int d / of_int B) \<le> (1 - 1 / 2 ^ 50) / 500 * (1 + 1 / 2 ^ 53)"
      using f64_le [OF pos] mult_right_mono [OF x', of "1 + 1 / 2 ^ 53"] by simp
    then have y: "f64 (of_int d / of_int B) * 10000 \<le> 20 * (1 - 1 / 2 ^ 50) * (1 + 1 / 2 ^ 53)" by simp
    have "f64 (f64 (of_int d / of_int B) * 10000) \<le> f64 (of_int d / of_int B) * 10000 * (1 + 1 / 2 ^ 53)"
      using f64_nonneg [OF pos] by (intro f64_le) simp
    also have "\<dots> \<le> 20 * (1 - 1 / 2 ^ 50) * (1 + 1 / 2 ^ 53) * (1 + 1 / 2 ^ 53)" by (rule mult_right_mono [OF y]) simp
    also have "\<dots> < 20" by simp
    finally show False using ge by simp
  qed
qed

lemma band_high:
  fixes d B :: int
  assumes "0 \<le> d" "0 < B" "B < 2 ^ 50"
  shows "f64 (f64 (of_int d / of_int B) * 10000) \<le> 400 \<longleftrightarrow> 25 * d \<le> B"
proof
  assume "25 * d \<le> B"
  then have "of_int (25 * d) \<le> (of_int B :: rat)" by (simp only: of_int_le_iff)
  then have "(of_int d / of_int B :: rat) \<le> 1 / 25" using assms(2) by (simp add: field_simps)
  then have "f64 (f64 (of_int d / of_int B) * 10000) \<le> f64 (f64 (1 / 25) * 10000)" by (intro f64_mono mult_right_mono) simp_all
  moreover have "f64 (f64 (1 / 25) * 10000) = 400" by code_simp
  ultimately show "f64 (f64 (of_int d / of_int B) * 10000) \<le> 400" by simp
next
  assume le: "f64 (f64 (of_int d / of_int B) * 10000) \<le> 400"
  show "25 * d \<le> B"
  proof (rule ccontr)
    assume "\<not> 25 * d \<le> B"
    then have "of_int (B + 1) \<le> (of_int (25 * d) :: rat)" by (simp only: of_int_le_iff)
    then have "of_int (B + 1) / of_int B \<le> (of_int (25 * d) / of_int B :: rat)" using assms(2) by (intro divide_right_mono) simp_all
    then have x: "1 + 1 / of_int B \<le> (25 * (of_int d / of_int B) :: rat)" using assms(2) by (simp add: add_divide_distrib)
    have "of_int B \<le> (of_int (2 ^ 50) :: rat)" using assms(3) by (simp only: of_int_le_iff less_imp_le)
    then have "1 / 2 ^ 50 \<le> (1 / of_int B :: rat)" using assms(2) by (simp add: field_simps)
    moreover have "1 + v \<le> 25 * u \<Longrightarrow> w \<le> v \<Longrightarrow> (1 + w) / 25 \<le> u" for u v w :: rat by (simp add: field_simps)
    ultimately have x': "(1 + 1 / 2 ^ 50) / 25 \<le> (of_int d / of_int B :: rat)" using x by blast
    have pos: "0 \<le> (of_int d / of_int B :: rat)" using assms(1,2) by simp
    have "(1 + 1 / 2 ^ 50) / 25 * (1 - 1 / 2 ^ 53) \<le> f64 (of_int d / of_int B)"
      using f64_ge [OF pos] mult_right_mono [OF x', of "1 - 1 / 2 ^ 53"] by simp
    then have y: "400 * (1 + 1 / 2 ^ 50) * (1 - 1 / 2 ^ 53) \<le> f64 (of_int d / of_int B) * 10000" by simp
    have "(400 :: rat) < 400 * (1 + 1 / 2 ^ 50) * (1 - 1 / 2 ^ 53) * (1 - 1 / 2 ^ 53)" by simp
    also have "\<dots> \<le> f64 (of_int d / of_int B) * 10000 * (1 - 1 / 2 ^ 53)" by (rule mult_right_mono [OF y]) simp
    also have "\<dots> \<le> f64 (f64 (of_int d / of_int B) * 10000)"
      using f64_nonneg [OF pos] by (intro f64_ge) simp
    finally show False using le by simp
  qed
qed


subsection \<open>The decision\<close>

text \<open>
  The category, stated without search loops and in exact arithmetic: which rule applies first. The partner is
  the first leg of another source, among the legs of the break and then among the related ones.
\<close>

definition same_ref_reused :: "Leg \<Rightarrow> Leg list \<Rightarrow> bool" where
  "same_ref_reused l related \<longleftrightarrow> (\<exists>r \<in> set related. Source r = Source l \<and> ID r \<noteq> ID l)"

definition any_attr :: "string list \<Rightarrow> Leg \<Rightarrow> Leg \<Rightarrow> bool" where
  "any_attr keys p q \<longleftrightarrow> (\<exists>k \<in> set keys. has_attr p k \<or> has_attr q k)"

definition in_fee_band :: "int \<Rightarrow> int \<Rightarrow> bool" where
  "in_fee_band a b \<longleftrightarrow> max a b \<le> 500 * \<bar>a - b\<bar> \<and> 25 * \<bar>a - b\<bar> \<le> max a b"

definition pair_category :: "Rules \<Rightarrow> Leg \<Rightarrow> Leg \<Rightarrow> string" where
  "pair_category rules p q =
     (if Currency q \<noteq> Currency p \<or> any_attr [''fx_rate'', ''original_currency'', ''settlement_currency''] p q then CatFXDrift
      else if WithinTolerance rules (AmountMinor p) (AmountMinor q) \<and> \<not> WithinDateWindow rules (ValueDate p) (ValueDate q)
      then CatTiming
      else if any_attr [''fee_minor'', ''fee'', ''interchange_minor'', ''scheme_fee_minor''] p q \<or>
              in_fee_band (AmountMinor p) (AmountMinor q) then CatFee
      else CatUnclassified)"

definition break_category :: "ClassifyInput \<Rightarrow> string" where
  "break_category inp =
     (case in_Legs inp of
        [] \<Rightarrow> CatUnclassified
      | p # others \<Rightarrow>
          if same_ref_reused p (in_Related inp) then CatDuplicate
          else
            (case filter (\<lambda>q. Source q \<noteq> Source p) (others @ in_Related inp) of
               q # _ \<Rightarrow> pair_category (in_Rules inp) p q
             | [] \<Rightarrow> if in_Trigger inp = TriggerWindowExpired then CatMissingCounterparty else CatUnclassified))"

lemma find_filter: "find P xs = (case filter P xs of [] \<Rightarrow> None | x # _ \<Rightarrow> Some x)"
  by (induction xs) auto

lemma opposite_filter: "opposite p xs = (case filter (\<lambda>q. Source q \<noteq> Source p) xs of [] \<Rightarrow> None | x # _ \<Rightarrow> Some x)"
  by (induction xs) auto


lemma anyAttr_None: "anyAttr keys [p, q] = None \<longleftrightarrow> \<not> any_attr keys p q"
proof -
  have "anyAttr keys [p, q] = None \<longleftrightarrow> find (has_attr p) keys = None \<and> find (has_attr q) keys = None"
    by (auto split: option.splits)
  then show ?thesis by (auto simp: any_attr_def find_None_iff)
qed

lemma out_class_simps [simp]:
  "c_Category (out_class cat conf ev) = cat" "c_Confidence (out_class cat conf ev) = round3 conf"
  by (simp_all add: out_class_def)

text \<open>Amounts below \<open>2 ^ 50\<close> minor units.\<close>

definition small_amount :: "Leg \<Rightarrow> bool" where
  "small_amount l \<longleftrightarrow> 0 < AmountMinor l \<and> AmountMinor l < 2 ^ 50"

lemma fee_band_exact:
  assumes "small_amount p" "small_amount q"
  shows "fee_base p q > 0 \<and> fee_bps p q \<ge> 20 \<and> fee_bps p q \<le> 400 \<longleftrightarrow> in_fee_band (AmountMinor p) (AmountMinor q)"
proof -
  let ?a = "AmountMinor p" and ?b = "AmountMinor q"
  have ab: "0 < ?a" "?a < 2 ^ 50" "0 < ?b" "?b < 2 ^ 50" using assms by (simp_all add: small_amount_def)
  have diff: "amount_diff p q = \<bar>?a - ?b\<bar>"
    using ab by (simp add: amount_diff_def Let_def i64_id in_i64_def abs_if)
  have ints: "f64_of_int64 ?a = of_int ?a" "f64_of_int64 ?b = of_int ?b" "f64_of_int64 \<bar>?a - ?b\<bar> = of_int \<bar>?a - ?b\<bar>"
    using ab by (auto intro!: f64_of_int64_small)
  have base: "fee_base p q = of_int (max ?a ?b)" by (simp add: fee_base_def ints of_int_max)
  have "0 < max ?a ?b" "max ?a ?b < 2 ^ 50" using ab by simp_all
  then show ?thesis
    using band_low [of "\<bar>?a - ?b\<bar>" "max ?a ?b"] band_high [of "\<bar>?a - ?b\<bar>" "max ?a ?b"] ab
    by (simp add: fee_bps_def diff ints base in_fee_band_def)
qed

lemma classify_pair_category:
  assumes "small_amount p" "small_amount q"
  shows "c_Category (classify_pair NewHeuristic rules p q) = pair_category rules p q"
proof -
  have band: "fee_base p q > 0 \<and> fee_bps p q \<ge> FeeMinBps NewHeuristic \<and> fee_bps p q \<le> FeeMaxBps NewHeuristic \<longleftrightarrow>
      in_fee_band (AmountMinor p) (AmountMinor q)"
    using fee_band_exact [OF assms] by (simp add: NewHeuristic_def)
  have keys: "anyAttr (FXAttrKeys NewHeuristic) [p, q] = None \<longleftrightarrow> \<not> any_attr [''fx_rate'', ''original_currency'', ''settlement_currency''] p q"
    "anyAttr (FeeAttrKeys NewHeuristic) [p, q] = None \<longleftrightarrow>
       \<not> any_attr [''fee_minor'', ''fee'', ''interchange_minor'', ''scheme_fee_minor''] p q"
    by (simp_all only: anyAttr_None) (simp_all add: NewHeuristic_def)
  show ?thesis
    unfolding classify_pair_def pair_category_def band using keys
    by (cases "anyAttr (FXAttrKeys NewHeuristic) [p, q]"; cases "anyAttr (FeeAttrKeys NewHeuristic) [p, q]")
      (simp_all del: anyAttr.simps add: Let_def)
qed

lemma Classify_category:
  assumes "\<forall>l \<in> set (in_Legs inp @ in_Related inp). small_amount l"
  shows "c_Category (Classify NewHeuristic inp) = break_category inp"
proof (cases "in_Legs inp")
  case Nil
  then show ?thesis by (simp add: Classify_def break_category_def)
next
  case (Cons p others)
  let ?opp = "filter (\<lambda>q. Source q \<noteq> Source p) (others @ in_Related inp)"
  have partner: "(case opposite p others of Some p \<Rightarrow> Some p | None \<Rightarrow> opposite p (in_Related inp)) =
      (case ?opp of [] \<Rightarrow> None | q # _ \<Rightarrow> Some q)"
    by (auto simp: opposite_filter split: list.splits)
  have dup: "find (\<lambda>r. Source r = Source p \<and> ID r \<noteq> ID p) (in_Related inp) = None \<longleftrightarrow> \<not> same_ref_reused p (in_Related inp)"
    by (auto simp: find_None_iff same_ref_reused_def)
  show ?thesis
  proof (cases "?opp")
    case Nil
    then show ?thesis
      using partner dup Cons by (auto simp: Classify_def break_category_def split: option.splits)
  next
    case opp: (Cons q rest)
    then have "q \<in> set (others @ in_Related inp)" using filter_is_subset [of "\<lambda>q. Source q \<noteq> Source p" "others @ in_Related inp"] by auto
    then have "small_amount p" "small_amount q" using assms Cons by auto
    from classify_pair_category [OF this] show ?thesis
      using partner dup Cons opp by (auto simp: Classify_def break_category_def simp del: filter_append split: option.splits)
  qed
qed

subsection \<open>The confidence\<close>

lemma round3_mono: "x \<le> y \<Longrightarrow> round3 x \<le> round3 y"
  unfolding round3_def
  by (intro f64_mono divide_right_mono) (simp_all add: math_round_mono f64_mono)

lemma fee_confidence_range: "f64 (60 / 100) \<le> fee_confidence bps \<and> fee_confidence bps \<le> f64 (80 / 100)"
proof -
  have "f64 (60 / 100) \<le> f64 (80 / 100)" by (intro f64_mono) simp
  then show ?thesis by (simp add: fee_confidence_def Let_def clamp_def)
qed

text \<open>The confidences each category can have.\<close>

definition confidence_ok :: "Classification \<Rightarrow> bool" where
  "confidence_ok c \<longleftrightarrow>
     (let conf = c_Confidence c; cat = c_Category c in
      cat = CatDuplicate \<and> conf = f64 (95 / 100) \<or>
      cat = CatFXDrift \<and> conf \<in> {f64 (92 / 100), f64 (88 / 100)} \<or>
      cat = CatTiming \<and> conf = f64 (90 / 100) \<or>
      cat = CatFee \<and> (conf = f64 (95 / 100) \<or> f64 (60 / 100) \<le> conf \<and> conf \<le> f64 (80 / 100)) \<or>
      cat = CatMissingCounterparty \<and> conf \<in> {f64 (75 / 100), f64 (80 / 100)} \<or>
      cat = CatUnclassified \<and> conf \<in> {0, f64 (30 / 100), f64 (40 / 100)})"

text \<open>Three decimals survive the rounding of a confidence.\<close>

lemma round3_decimal: "round3 (f64 (of_int k / 1000)) = f64 (of_int k / 1000)" if "0 \<le> k" "k \<le> 1000" for k :: int
proof -
  let ?x = "f64 (of_int k / 1000)"
  have k: "0 \<le> (of_int k / 1000 :: rat)" "(of_int k :: rat) \<le> 1000" using that by simp_all
  have pos: "0 \<le> ?x" by (rule f64_nonneg [OF k(1)])
  have le: "of_int k / 1000 * (1 - 1 / 2 ^ 53) \<le> ?x" "?x \<le> of_int k / 1000 * (1 + 1 / 2 ^ 53)"
    using f64_ge [OF k(1)] f64_le [OF k(1)] by simp_all
  have x: "of_int k * (1 - 1 / 2 ^ 53) \<le> ?x * 1000" "?x * 1000 \<le> of_int k * (1 + 1 / 2 ^ 53)"
    using mult_right_mono [OF le(1), of 1000] mult_right_mono [OF le(2), of 1000] by simp_all
  have "of_int k * (1 - 1 / 2 ^ 53) * (1 - 1 / 2 ^ 53) \<le> f64 (?x * 1000)"
    using f64_ge [of "?x * 1000"] mult_right_mono [OF x(1), of "1 - 1 / 2 ^ 53"] pos by simp
  moreover have "f64 (?x * 1000) \<le> of_int k * (1 + 1 / 2 ^ 53) * (1 + 1 / 2 ^ 53)"
    using f64_le [of "?x * 1000"] mult_right_mono [OF x(2), of "1 + 1 / 2 ^ 53"] pos by simp
  ultimately have y: "of_int k - 1 / 2 < f64 (?x * 1000)" "f64 (?x * 1000) < of_int k + 1 / 2" using k(2) by simp_all
  have "\<lfloor>f64 (?x * 1000) + 1 / 2\<rfloor> = k" by (rule floor_unique) (use y in linarith)+
  moreover have "0 \<le> f64 (?x * 1000)" using pos by (intro f64_nonneg) simp
  ultimately have "math_round (f64 (?x * 1000)) = k" by (simp add: math_round_def)
  then show ?thesis by (simp add: round3_def)
qed

lemma round3_values:
  "round3 0 = 0" "round3 (f64 (30 / 100)) = f64 (30 / 100)" "round3 (f64 (40 / 100)) = f64 (40 / 100)"
  "round3 (f64 (60 / 100)) = f64 (60 / 100)" "round3 (f64 (75 / 100)) = f64 (75 / 100)"
  "round3 (f64 (80 / 100)) = f64 (80 / 100)" "round3 (f64 (88 / 100)) = f64 (88 / 100)"
  "round3 (f64 (90 / 100)) = f64 (90 / 100)" "round3 (f64 (92 / 100)) = f64 (92 / 100)"
  "round3 (f64 (95 / 100)) = f64 (95 / 100)"
  using round3_decimal [of 0] round3_decimal [of 300] round3_decimal [of 400] round3_decimal [of 600] round3_decimal [of 750]
    round3_decimal [of 800] round3_decimal [of 880] round3_decimal [of 900] round3_decimal [of 920] round3_decimal [of 950]
  by simp_all

lemma confidence_fixed:
  "confidence_ok (out_class CatDuplicate (f64 (95 / 100)) ev)" "confidence_ok (out_class CatFXDrift (f64 (92 / 100)) ev)"
  "confidence_ok (out_class CatFXDrift (f64 (88 / 100)) ev)" "confidence_ok (out_class CatTiming (f64 (90 / 100)) ev)"
  "confidence_ok (out_class CatFee (f64 (95 / 100)) ev)" "confidence_ok (out_class CatMissingCounterparty (f64 (75 / 100)) ev)"
  "confidence_ok (out_class CatMissingCounterparty (f64 (80 / 100)) ev)" "confidence_ok (out_class CatUnclassified 0 ev)"
  "confidence_ok (out_class CatUnclassified (f64 (30 / 100)) ev)" "confidence_ok (out_class CatUnclassified (f64 (40 / 100)) ev)"
  unfolding confidence_ok_def Let_def out_class_simps round3_values by simp_all

lemma classify_pair_confidence: "confidence_ok (classify_pair h rules p q)"
proof -
  have "f64 (60 / 100) \<le> round3 (fee_confidence x)" "round3 (fee_confidence x) \<le> f64 (80 / 100)" for x
    using round3_mono fee_confidence_range [of x] round3_values(4,6) by metis+
  then have fee: "confidence_ok (out_class CatFee (fee_confidence x) ev)" for x ev
    by (simp add: confidence_ok_def Let_def)
  show ?thesis
    unfolding classify_pair_def
    by (cases "anyAttr (FXAttrKeys h) [p, q]"; cases "anyAttr (FeeAttrKeys h) [p, q]")
      (simp_all only: option.case Let_def confidence_fixed fee simp_thms split: if_split)
qed

lemma Classify_confidence: "confidence_ok (Classify h inp)"
  unfolding Classify_def
  by (simp only: confidence_fixed classify_pair_confidence list.case option.case simp_thms split: list.split option.split if_split)


subsection \<open>Properties\<close>

text \<open>
  C19: for amounts below \<open>2 ^ 50\<close> minor units, the production classifier assigns the category of the first rule that
  applies: a reference re-used by the same source is a duplicate; with a partner of another source, a currency
  mismatch or an FX attribute is FX drift, amounts that agree outside the date window are timing, a fee attribute or a
  difference of 0.2 to 4 per cent of the larger amount, limits included, is a fee; a lone leg that expired misses its
  counterparty. The floating-point band is exact.
\<close>

theorem classify_decides:
  assumes "\<forall>l \<in> set (in_Legs inp @ in_Related inp). small_amount l"
  shows "c_Category (Classify NewHeuristic inp) = break_category inp"
  by (rule Classify_category [OF assms])

theorem classify_decides_witness:
  "c_Category (Classify NewHeuristic
     \<lparr>in_Legs = [plain_leg ''rail'' ''R1'' 10000 ''VISA'' [], plain_leg ''ledger'' ''R1'' 9600 ''VISA'' []],
      in_Related = [], in_Trigger = TriggerRefConflict, in_Rules = DefaultRules\<rparr>) = CatFee"
proof -
  let ?p = "plain_leg ''rail'' ''R1'' 10000 ''VISA'' []" and ?q = "plain_leg ''ledger'' ''R1'' 9600 ''VISA'' []"
  let ?inp = "\<lparr>in_Legs = [?p, ?q], in_Related = [], in_Trigger = TriggerRefConflict, in_Rules = DefaultRules\<rparr>"
  have small: "\<forall>l \<in> set (in_Legs ?inp @ in_Related ?inp). small_amount l" by (simp add: small_amount_def plain_leg_def)
  have "\<not> WithinTolerance DefaultRules 10000 9600" by code_simp
  then have "break_category ?inp = CatFee"
    by (simp add: break_category_def same_ref_reused_def pair_category_def any_attr_def has_attr_def in_fee_band_def plain_leg_def)
  with classify_decides [OF small] show ?thesis by simp
qed

text \<open>
  the confidence of a classification is fixed by its category: 0.95 for duplicates, 0.92 or 0.88 for FX drift,
  0.90 for timing, 0.95 or between 0.60 and 0.80 for fees, 0.75 or 0.80 for a missing counterparty, and at most 0.40
  when unclassified, whatever the heuristic's parameters.
\<close>

theorem classify_confidence: "confidence_ok (Classify h inp)"
  by (rule Classify_confidence)

end
