(* ===== verification/Recon_Observability.thy ===== *)
theory Recon_Observability
  imports Recon_Engine
begin

text \<open>
  Logging and tracing (\<open>internal/observability/logger.go\<close> and \<open>tracing.go\<close>). The handlers of \<open>log/slog\<close>, the exporter and the resource
  of OpenTelemetry are arguments; what the code adds to a log record, which levels it lets through and which provider it
  installs is modelled.
\<close>

subsection \<open>Contexts\<close>

text \<open>What a context carries for logging: a request identifier, and the identifiers of the current span when they are valid.\<close>

record LogCtx =
  cx_requestID :: "string option"
  cx_span :: "(string \<times> string) option"

definition background :: LogCtx where
  "background = \<lparr>cx_requestID = None, cx_span = None\<rparr>"

definition WithRequestID :: "LogCtx \<Rightarrow> string \<Rightarrow> LogCtx" where
  "WithRequestID ctx i = ctx\<lparr>cx_requestID := Some i\<rparr>"

definition RequestID :: "LogCtx \<Rightarrow> string" where
  "RequestID ctx = (case cx_requestID ctx of None \<Rightarrow> '''' | Some i \<Rightarrow> i)"

subsection \<open>The logger\<close>

datatype Level = LevelDebug | LevelInfo | LevelWarn | LevelError

definition level_of :: "string \<Rightarrow> Level" where
  "level_of level =
     (if level = ''debug'' then LevelDebug
      else if level = ''warn'' then LevelWarn
      else if level = ''error'' then LevelError
      else LevelInfo)"

type_synonym Attr = "string \<times> string"

record LogRecord =
  lr_Level :: Level
  lr_Message :: string
  lr_Attrs :: "Attr list"

text \<open>A handler of \<open>slog\<close>: what writing a record does to the output, and the derived handlers.\<close>

record ('h, 'w) SlogHandler =
  sh_Handle :: "'h \<Rightarrow> LogCtx \<Rightarrow> LogRecord \<Rightarrow> 'w \<Rightarrow> goerr option \<times> 'w"
  sh_WithAttrs :: "'h \<Rightarrow> Attr list \<Rightarrow> 'h"
  sh_WithGroup :: "'h \<Rightarrow> string \<Rightarrow> 'h"

record 'h traceHandler =
  th_Handler :: 'h

text \<open>The attributes that are found on a context.\<close>

definition ctx_attrs :: "LogCtx \<Rightarrow> Attr list" where
  "ctx_attrs ctx =
     (case cx_span ctx of None \<Rightarrow> [] | Some (t, s) \<Rightarrow> [(''trace_id'', t), (''span_id'', s)]) @
     (case cx_requestID ctx of None \<Rightarrow> [] | Some rid \<Rightarrow> if rid \<noteq> '''' then [(''request_id'', rid)] else [])"

definition th_Handle ::
    "('h, 'w) SlogHandler \<Rightarrow> 'h traceHandler \<Rightarrow> LogCtx \<Rightarrow> LogRecord \<Rightarrow> 'w \<Rightarrow> goerr option \<times> 'w" where
  "th_Handle lib h ctx r w = sh_Handle lib (th_Handler h) ctx (r\<lparr>lr_Attrs := lr_Attrs r @ ctx_attrs ctx\<rparr>) w"

definition th_WithAttrs :: "('h, 'w) SlogHandler \<Rightarrow> 'h traceHandler \<Rightarrow> Attr list \<Rightarrow> 'h traceHandler" where
  "th_WithAttrs lib h attrs = \<lparr>th_Handler = sh_WithAttrs lib (th_Handler h) attrs\<rparr>"

definition th_WithGroup :: "('h, 'w) SlogHandler \<Rightarrow> 'h traceHandler \<Rightarrow> string \<Rightarrow> 'h traceHandler" where
  "th_WithGroup lib h name = \<lparr>th_Handler = sh_WithGroup lib (th_Handler h) name\<rparr>"

text \<open>\<open>NewLogger\<close>, given how the library makes a JSON handler for a level and an output; the default output is \<open>os.Stdout\<close>.\<close>

definition NewLogger :: "(Level \<Rightarrow> 'o \<Rightarrow> 'h) \<Rightarrow> 'o \<Rightarrow> string \<Rightarrow> 'o option \<Rightarrow> 'h traceHandler" where
  "NewLogger newJSONHandler stdout level w =
     \<lparr>th_Handler = newJSONHandler (level_of level) (case w of None \<Rightarrow> stdout | Some w \<Rightarrow> w)\<rparr>"

subsection \<open>Tracing\<close>

datatype ExporterOption = WithEndpoint string | WithInsecure

datatype ('x, 'r) TracerProvider = Noop | Batching 'x 'r

definition SetupTracing ::
    "(ExporterOption list \<Rightarrow> 'x result) \<Rightarrow> (string \<Rightarrow> 'r result) \<Rightarrow> string \<Rightarrow> string \<Rightarrow> bool \<Rightarrow> ('x, 'r) TracerProvider result" where
  "SetupTracing newExporter mergeResource service endpoint insecure =
     (if endpoint = '''' then Inr Noop
      else
        let opts = [WithEndpoint endpoint] @ (if insecure then [WithInsecure] else []) in
        case newExporter opts of
          Inl err \<Rightarrow> Inl (Errorf ''otlp exporter: '' err '''')
        | Inr x \<Rightarrow>
            (case mergeResource service of
               Inl err \<Rightarrow> Inl (Errorf ''otel resource: '' err '''')
             | Inr r \<Rightarrow> Inr (Batching x r)))"

subsection \<open>Facts\<close>

lemma RequestID_With [simp]: "RequestID (WithRequestID ctx i) = i"
  by (simp add: RequestID_def WithRequestID_def)

text \<open>A record of a derived logger gets the attributes of the context as well: deriving loses nothing.\<close>

lemma derived_handle:
  "th_Handle lib (th_WithGroup lib (th_WithAttrs lib h attrs) name) ctx r w =
     sh_Handle lib (sh_WithGroup lib (sh_WithAttrs lib (th_Handler h) attrs) name) ctx (r\<lparr>lr_Attrs := lr_Attrs r @ ctx_attrs ctx\<rparr>) w"
  by (simp add: th_Handle_def th_WithAttrs_def th_WithGroup_def)

definition request_ids :: "Attr list \<Rightarrow> string list" where
  "request_ids attrs = map snd (filter (\<lambda>a. fst a = ''request_id'') attrs)"

lemma request_ids_ctx:
  "request_ids (ctx_attrs ctx) = (if RequestID ctx = '''' then [] else [RequestID ctx])"
  by (auto simp: request_ids_def ctx_attrs_def RequestID_def split: option.split)

end
