(* ===== verification/Recon_Service.thy ===== *)
theory Recon_Service
  imports Recon_Api Recon_Kafka Recon_Config Recon_Classify Recon_Observability
begin

text \<open>
  The service (\<open>cmd/recon-stream/main.go\<close>): how \<open>run\<close> makes the engine from the environment, the sweeper, and the
  goroutines that share the engine (API, Kafka source, sweeper) as an interleaving of their operations, each of which holds the
  engine's lock from start to end. Opening a PostgreSQL store is a parameter; the engine over the store of the configuration
  default, the memory store, is started and run here. At the end, the errors of the goroutines are joined to the exit code of
  the process; what the HTTP listener, the drain and the source return is an argument.
\<close>

subsection \<open>Start\<close>

text \<open>A store as the engine uses it: its operations and its state.\<close>

type_synonym 's opened = "'s Repository \<times> 's"

definition open_store :: "(string \<Rightarrow> 's opened result) \<Rightarrow> 's opened \<Rightarrow> Config \<Rightarrow> 's opened result" where
  "open_store openPostgres memory cfg =
     (if cfg_Store cfg = StorePostgres
      then (case openPostgres (PostgresDSN cfg) of
              Inl err \<Rightarrow> Inl (Errorf ''postgres: '' err '''')
            | Inr st \<Rightarrow> Inr st)
      else Inr memory)"

definition metric_hooks :: Hooks where
  "metric_hooks = \<lparr>hasOnLeg = True, hasOnMatch = True, hasOnBreak = True, hasOnOpen = True\<rparr>"

definition start_engine ::
    "(string \<Rightarrow> 's opened result) \<Rightarrow> 's opened \<Rightarrow> env \<Rightarrow> (nat \<Rightarrow> Time) \<Rightarrow> (Config \<times> 's Engine) result" where
  "start_engine openPostgres memory env clock =
     (case Load env of
        Inl err \<Rightarrow> Inl err
      | Inr cfg \<Rightarrow>
          (case open_store openPostgres memory cfg of
             Inl err \<Rightarrow> Inl err
           | Inr (repo, s) \<Rightarrow>
               (case NewEngine (Some repo) (Some (Classify NewHeuristic)) (cfg_Rules cfg) (WindowTTL cfg) metric_hooks clock s of
                  Inl err \<Rightarrow> Inl err
                | Inr eng \<Rightarrow>
                    (case Rebuild eng of
                       (Some err, eng) \<Rightarrow> Inl err
                     | (None, eng) \<Rightarrow> Inr (cfg, eng)))))"

definition kafka_config :: "Config \<Rightarrow> KafkaConfig" where
  "kafka_config cfg =
     \<lparr>kc_Brokers = KafkaBrokers cfg, kc_Group = KafkaGroup cfg, kc_Topics = KafkaTopics cfg, kc_MaxPollRecords = 0\<rparr>"

definition start_source :: "(KafkaConfig \<Rightarrow> 'c Client result) \<Rightarrow> Config \<Rightarrow> 'c Source option result" where
  "start_source newClient cfg =
     (if KafkaEnabled cfg
      then (case NewSource newClient (kafka_config cfg) of Inl err \<Rightarrow> Inl err | Inr s \<Rightarrow> Inr (Some s))
      else Inr None)"

subsection \<open>The sweeper and the source goroutine\<close>

text \<open>What a \<open>select\<close> of the sweeper finds: the context is done, or the ticker has fired (with the context of that sweep).\<close>

datatype select = Done | Tick Context

fun sweeper :: "(string \<Rightarrow> string) \<Rightarrow> 's Engine \<Rightarrow> select list \<Rightarrow> bool \<times> 's Engine" where
  "sweeper sha256 eng [] = (False, eng)"
| "sweeper sha256 eng (Done # xs) = (True, eng)"
| "sweeper sha256 eng (Tick ctx # xs) = (case Sweep sha256 ctx eng of (n, err, eng) \<Rightarrow> sweeper sha256 eng xs)"

text \<open>The error with which the source goroutine ends: a cancelled context is none.\<close>

definition source_result :: "goerr \<Rightarrow> goerr option" where
  "source_result err = (if err_is err ErrCanceled then None else Some err)"

subsection \<open>The end\<close>

text \<open>The goroutines of the group, and what the calls they end with return.\<close>

datatype Part = PartHttp | PartDrain | PartSweeper | PartSource

record Ending =
  en_listen :: goerr
  en_shutdown :: "goerr option"
  en_source :: goerr

abbreviation (input) ErrServerClosed :: goerr where
  "ErrServerClosed \<equiv> ErrLib ''http: Server closed''"

fun part_result :: "Ending \<Rightarrow> Part \<Rightarrow> goerr option" where
  "part_result en PartHttp = (if err_is (en_listen en) ErrServerClosed then None else Some (Errorf ''http: '' (en_listen en) ''''))"
| "part_result en PartDrain = en_shutdown en"
| "part_result en PartSweeper = None"
| "part_result en PartSource = source_result (en_source en)"

definition parts :: "'c Source option \<Rightarrow> Part list" where
  "parts source = [PartHttp, PartDrain, PartSweeper] @ (if source = None then [] else [PartSource])"

text \<open>\<open>errgroup\<close>: the error of the part that is the first to return one.\<close>

fun group_wait :: "goerr option list \<Rightarrow> goerr option" where
  "group_wait [] = None"
| "group_wait (Some err # rs) = Some err"
| "group_wait (None # rs) = group_wait rs"

definition run_end :: "goerr option \<Rightarrow> goerr option" where
  "run_end err = (case err of Some e \<Rightarrow> if err_is e ErrCanceled then None else Some e | None \<Rightarrow> None)"

text \<open>\<open>run\<close>, for the order in which the parts end.\<close>

definition run ::
    "(ExporterOption list \<Rightarrow> 'x result) \<Rightarrow> (string \<Rightarrow> 'r result) \<Rightarrow> (string \<Rightarrow> 's opened result) \<Rightarrow> 's opened \<Rightarrow>
     (KafkaConfig \<Rightarrow> 'c Client result) \<Rightarrow> env \<Rightarrow> (nat \<Rightarrow> Time) \<Rightarrow> Part list \<Rightarrow> Ending \<Rightarrow> goerr option" where
  "run newExporter mergeResource openPostgres memory newClient env clock order en =
     (case Load env of
        Inl err \<Rightarrow> Some err
      | Inr cfg \<Rightarrow>
          (case SetupTracing newExporter mergeResource (ServiceName cfg) (OTelEndpoint cfg) (OTelInsecure cfg) of
             Inl err \<Rightarrow> Some err
           | Inr tp \<Rightarrow>
               (case start_engine openPostgres memory env clock of
                  Inl err \<Rightarrow> Some err
                | Inr (cfg, eng) \<Rightarrow>
                    (case start_source newClient cfg of
                       Inl err \<Rightarrow> Some err
                     | Inr source \<Rightarrow> run_end (group_wait (map (part_result en) order))))))"

definition main_exit :: "goerr option \<Rightarrow> int" where
  "main_exit err = (case err of Some _ \<Rightarrow> 1 | None \<Rightarrow> 0)"

subsection \<open>Facts\<close>

lemma group_wait_None: "group_wait rs = None \<longleftrightarrow> (\<forall>r \<in> set rs. r = None)"
  by (induction rs rule: group_wait.induct) auto

lemma group_wait_Some: "group_wait rs = Some e \<Longrightarrow> Some e \<in> set rs"
  by (induction rs rule: group_wait.induct) auto

lemma group_wait_sole:
  assumes "p \<in> set ps" "f p = Some e" "\<forall>q \<in> set ps. q \<noteq> p \<longrightarrow> f q = None"
  shows "group_wait (map f ps) = Some e"
  using assms(2,3) group_wait_None [of "map f ps"] group_wait_Some [of "map f ps"] assms(1) by (cases "group_wait (map f ps)") fastforce+

lemma start_boots:
  assumes "Load env = Inr cfg" "cfg_Store cfg = StoreMemory" "\<forall>n. time_json_ok (clock n)"
  shows "\<exists>eng. start_engine openPostgres (mem_repo, NewStore) env clock = Inr (cfg, eng) \<and> boots NewStore eng \<and>
    eng_rules eng = cfg_Rules cfg \<and> ttl (eng_ix eng) = WindowTTL cfg"
proof -
  have cfg: "config_ok cfg" using assms(1) by (auto simp: Load_eq config_errs_Nil split: if_splits)
  then have rules: "Rules_Validate (cfg_Rules cfg) = None" "0 < WindowTTL cfg"
    unfolding config_ok_def Rules_Validate_None by blast+
  obtain e0 where e0: "NewEngine (Some mem_repo) (Some (Classify NewHeuristic)) (cfg_Rules cfg) (WindowTTL cfg) metric_hooks clock NewStore = Inr e0"
    "eng_rules e0 = cfg_Rules cfg" "eng_ix e0 = NewIndex (WindowTTL cfg)" "eng_repo e0 = mem_repo" "eng_store e0 = NewStore"
    using rules by (auto simp: NewEngine_def)
  have none: "mem_OpenLegs NewStore = Inr []" by (simp add: mem_OpenLegs_def NewStore_def)
  define eng where "eng = notifyOpen (e0\<lparr>eng_ix := NewIndex (ttl (eng_ix e0))\<rparr>)"
  have re: "Rebuild e0 = (None, eng)" using e0(4,5) none by (simp add: Rebuild_def mem_repo_def eng_def)
  have "boots NewStore eng" unfolding boots_def using e0(1) assms(3) re by blast
  moreover have "eng_rules eng = cfg_Rules cfg" "ttl (eng_ix eng) = WindowTTL cfg"
    by (simp_all add: eng_def notifyOpen_def call_hook_def e0(2,3) NewIndex_def)
  moreover have "start_engine openPostgres (mem_repo, NewStore) env clock = Inr (cfg, eng)"
    using assms(1,2) e0(1) re by (simp add: start_engine_def open_store_def)
  ultimately show ?thesis by blast
qed

lemma sweeper_reachable: "reachable sha256 eng \<Longrightarrow> sweeper sha256 eng xs = (ret, eng') \<Longrightarrow> reachable sha256 eng'"
proof (induction sha256 eng xs rule: sweeper.induct)
  case (3 sha256 eng ctx xs)
  obtain n err e1 where r: "Sweep sha256 ctx eng = (n, err, e1)" by (cases "Sweep sha256 ctx eng")
  have "reachable sha256 e1" by (rule reach_step [OF "3.prems"(1) step_sweep [OF r]])
  then show ?case using "3.IH" [OF r [symmetric] refl] "3.prems"(2) r by simp
qed simp_all

text \<open>One round of the Kafka loop is, for the engine, no step or the ingestion of the decoded legs.\<close>

lemma Run_round_reachable:
  assumes "feed_ok json (src_cl s)" "reachable sha256 (lp_handler lp)"
  shows "reachable sha256 (lp_handler (after (Run_round json s (ingest_handler sha256) ctx lp)))"
proof (rule kafka.round_keeps [of "reachable sha256", OF assms(2)])
  fix ctx' legs assume b: "polled_batch json s ctx lp legs"
  obtain f c where poll: "PollRecords (src_cl s) 1000 (lp_client lp) = (f, c)" by force
  have ts: "\<forall>r \<in> set (fetchRecords f). time_json_ok (k_Timestamp r)" "\<forall>v l. json v = Inr l \<longrightarrow> from_json l"
    using assms(1) poll unfolding feed_ok_def by (metis fst_conv)+
  have "\<forall>l \<in> set legs. from_json l"
    using b decode_from_json ts decode_records_set [of _ json s "fetchRecords f"] unfolding polled_batch_def poll fst_conv by blast
  then show "reachable sha256 (snd (ingest_handler sha256 ctx' (lp_handler lp) legs))" by (rule ingest_handler_reachable [OF assms(2)])
qed

subsection \<open>The running service\<close>

text \<open>
  The state: the client of the Kafka source and the server with the shared engine. A step is a request, a sweep or a round of
  the source, of any route, outcome, cancellation and clock.
\<close>

inductive service_step ::
    "Json \<Rightarrow> (string \<Rightarrow> Leg result) \<Rightarrow> (string \<Rightarrow> string) \<Rightarrow> 'c Source \<Rightarrow> 'c \<times> Store Server \<Rightarrow> 'c \<times> Store Server \<Rightarrow> bool"
  for json vdec sha256 src where
  svc_request: "serve fuel json sha256 srv rt rq = Some (resp, srv') \<Longrightarrow> service_step json vdec sha256 src (c, srv) (c, srv')"
| svc_sweep: "sweeper sha256 (srv_Engine srv) [Tick ctx] = (ret, eng) \<Longrightarrow>
    service_step json vdec sha256 src (c, srv) (c, srv\<lparr>srv_Engine := eng\<rparr>)"
| svc_kafka: "Run_round vdec src (ingest_handler sha256) ctx \<lparr>lp_client = c, lp_handler = srv_Engine srv, lp_commits = k\<rparr> = Continue lp \<Longrightarrow>
    service_step json vdec sha256 src (c, srv) (lp_client lp, srv\<lparr>srv_Engine := lp_handler lp\<rparr>)"

lemma service_step_reachable:
  assumes "service_step json vdec sha256 src st st'" "json_ok json" "feed_ok vdec (src_cl src)" "reachable sha256 (srv_Engine (snd st))"
  shows "reachable sha256 (srv_Engine (snd st'))"
  using assms
proof (induction rule: service_step.induct)
  case (svc_request fuel srv rt rq resp srv' c)
  then show ?case using srv_engine_reachable [of sha256 srv json fuel rt rq resp srv'] by simp
next
  case (svc_sweep srv ctx ret eng c)
  have "reachable sha256 (srv_Engine srv)" using svc_sweep.prems by simp
  from sweeper_reachable [OF this svc_sweep.hyps] show ?case by simp
next
  case (svc_kafka ctx c srv k lp)
  have "reachable sha256 (lp_handler \<lparr>lp_client = c, lp_handler = srv_Engine srv, lp_commits = k\<rparr>)" using svc_kafka.prems by simp
  from Run_round_reachable [OF svc_kafka.prems(2) this, of ctx] svc_kafka.hyps show ?case by simp
qed





end
