(* ===== verification/Recon_Middleware.thy ===== *)
theory Recon_Middleware
  imports Recon_Observability
begin

text \<open>
  The middleware of the API (\<open>internal/api/http/middleware.go\<close>) and the metrics (\<open>internal/observability/metrics.go\<close>): the
  response writer that records what is sent, the chain of handlers around the mux, and what each of them records. A handler is
  what it does to its writer: headers, bytes, a panic. Durations are left out; the labels of the counters are kept.
\<close>

subsection \<open>Writers\<close>

text \<open>
  A connection as \<open>net/http\<close> keeps it: the first final status that is written counts (an informational one does not), the first
  byte sends 200 when there is none.
\<close>

record Conn =
  cn_status :: "int option"
  cn_bytes :: nat
  cn_requestID :: string

definition conn_WriteHeader :: "int \<Rightarrow> Conn \<Rightarrow> Conn" where
  "conn_WriteHeader code c =
     (if cn_status c = None \<and> (code \<ge> 200 \<or> code = 101) then c\<lparr>cn_status := Some code\<rparr> else c)"

definition conn_Write :: "nat \<Rightarrow> Conn \<Rightarrow> Conn" where
  "conn_Write n c = (let c = conn_WriteHeader 200 c in c\<lparr>cn_bytes := cn_bytes c + n\<rparr>)"

text \<open>What the client gets: a handler that writes nothing sends 200.\<close>

definition client_status :: "Conn \<Rightarrow> int" where
  "client_status c = (case cn_status c of None \<Rightarrow> 200 | Some st \<Rightarrow> st)"

record responseWriter =
  rw_ResponseWriter :: Conn
  rw_status :: int
  rw_bytes :: nat
  rw_route :: string

definition rw_WriteHeader :: "int \<Rightarrow> responseWriter \<Rightarrow> responseWriter" where
  "rw_WriteHeader code rw =
     (let rw = (if rw_status rw = 0 then rw\<lparr>rw_status := code\<rparr> else rw)
      in rw\<lparr>rw_ResponseWriter := conn_WriteHeader code (rw_ResponseWriter rw)\<rparr>)"

definition rw_Write :: "nat \<Rightarrow> responseWriter \<Rightarrow> responseWriter" where
  "rw_Write n rw =
     (let rw = (if rw_status rw = 0 then rw\<lparr>rw_status := 200\<rparr> else rw)
      in rw\<lparr>rw_ResponseWriter := conn_Write n (rw_ResponseWriter rw), rw_bytes := rw_bytes rw + n\<rparr>)"

text \<open>The dynamic type behind an \<open>http.ResponseWriter\<close>.\<close>

datatype Writer = Plain Conn | Wrapped responseWriter

definition w_header :: "int \<Rightarrow> Writer \<Rightarrow> Writer" where
  "w_header code w = (case w of Plain c \<Rightarrow> Plain (conn_WriteHeader code c) | Wrapped rw \<Rightarrow> Wrapped (rw_WriteHeader code rw))"

definition w_write :: "nat \<Rightarrow> Writer \<Rightarrow> Writer" where
  "w_write n w = (case w of Plain c \<Rightarrow> Plain (conn_Write n c) | Wrapped rw \<Rightarrow> Wrapped (rw_Write n rw))"

definition w_conn :: "Writer \<Rightarrow> Conn" where
  "w_conn w = (case w of Plain c \<Rightarrow> c | Wrapped rw \<Rightarrow> rw_ResponseWriter rw)"

definition w_set_conn :: "Conn \<Rightarrow> Writer \<Rightarrow> Writer" where
  "w_set_conn c w = (case w of Plain _ \<Rightarrow> Plain c | Wrapped rw \<Rightarrow> Wrapped (rw\<lparr>rw_ResponseWriter := c\<rparr>))"

subsection \<open>Metrics\<close>

text \<open>Counters by their labels, in order of the labels' declaration, and the gauge.\<close>

record Metrics =
  HTTPRequests :: "(string \<times> string \<times> string, int) gomap"
  LegsIngested :: "(string \<times> string, int) gomap"
  Matches :: "(string \<times> string, int) gomap"
  MatchResidual :: "(string \<times> rat) list"
  BreaksOpened :: "(string \<times> string, int) gomap"
  OpenLegsGauge :: rat

definition NewMetrics :: Metrics where
  "NewMetrics =
     \<lparr>HTTPRequests = [], LegsIngested = [], Matches = [], MatchResidual = [], BreaksOpened = [], OpenLegsGauge = 0\<rparr>"

definition inc :: "'k \<Rightarrow> ('k, int) gomap \<Rightarrow> ('k, int) gomap" where
  "inc k m = gm_put k ((case gm_get m k of None \<Rightarrow> 0 | Some n \<Rightarrow> n) + 1) m"

fun metric_hook :: "HookCall \<Rightarrow> Metrics \<Rightarrow> Metrics" where
  "metric_hook (OnLeg l o') m = m\<lparr>LegsIngested := inc (Source l, o') (LegsIngested m)\<rparr>"
| "metric_hook (OnMatch mt) m =
     (let tier = ''T'' @ FormatInt (tier_int (MTier mt));
          r = MResidualMinor mt;
          r = (if r < 0 then i64 (- r) else r)
      in m\<lparr>Matches := inc (tier, MRuleID mt) (Matches m), MatchResidual := MatchResidual m @ [(tier, f64_of_int64 r)]\<rparr>)"
| "metric_hook (OnBreak b) m = m\<lparr>BreaksOpened := inc (BCategory b, BTrigger b) (BreaksOpened m)\<rparr>"
| "metric_hook (OnOpen n) m = m\<lparr>OpenLegsGauge := f64_of_int64 (int n)\<rparr>"

definition ObserveHTTP :: "string \<Rightarrow> string \<Rightarrow> int \<Rightarrow> Metrics \<Rightarrow> Metrics" where
  "ObserveHTTP route meth status m =
     m\<lparr>HTTPRequests := inc (route, meth, FormatInt (sgn status * (\<bar>status\<bar> div 100)) @ ''xx'') (HTTPRequests m)\<rparr>"

subsection \<open>The chain\<close>

text \<open>What the mux finds: the pattern of a route registered with \<open>route\<close> (\<open>None\<close> for \<open>/metrics\<close> and for no match), and what its handler does.\<close>

datatype Act = Header int | Bytes nat | Panic

record Serving =
  sv_Method :: string
  sv_Path :: string
  sv_RequestID :: string
  sv_pattern :: "string option"
  sv_acts :: "Act list"

record Span =
  sp_name :: string
  sp_attrs :: "(int \<times> string) option"
  sp_error :: bool

text \<open>
  What is recorded: metrics, spans, the calls of the logger for the access log (path, route, status, bytes, and the attributes that the
  logger finds on the context) and for panics (these attributes).
\<close>

type_synonym Access = "string \<times> string \<times> int \<times> nat \<times> Attr list"

record Observed =
  ob_metrics :: Metrics
  ob_access :: "Access list"
  ob_spans :: "Span list"
  ob_panics :: "Attr list list"

text \<open>A handler gets its context and its writer; it returns, or panics, with its writer and what was recorded.\<close>

type_synonym ran = "Writer \<times> Observed \<times> bool"

fun run_acts :: "Act list \<Rightarrow> Writer \<Rightarrow> Writer \<times> bool" where
  "run_acts [] w = (w, False)"
| "run_acts (Header code # as) w = run_acts as (w_header code w)"
| "run_acts (Bytes n # as) w = run_acts as (w_write n w)"
| "run_acts (Panic # as) w = (w, True)"

definition mux :: "Serving \<Rightarrow> LogCtx \<Rightarrow> Writer \<Rightarrow> Observed \<Rightarrow> ran" where
  "mux r ctx w o' =
     (let w = (case (sv_pattern r, w) of (Some p, Wrapped rw) \<Rightarrow> Wrapped (rw\<lparr>rw_route := p\<rparr>) | _ \<Rightarrow> w) in
      case run_acts (sv_acts r) w of (w, p) \<Rightarrow> (w, o', p))"

definition observe :: "(LogCtx \<Rightarrow> Writer \<Rightarrow> Observed \<Rightarrow> ran) \<Rightarrow> Serving \<Rightarrow> LogCtx \<Rightarrow> Writer \<Rightarrow> Observed \<Rightarrow> ran" where
  "observe next r ctx w o' =
     (case next ctx (Wrapped \<lparr>rw_ResponseWriter = w_conn w, rw_status = 0, rw_bytes = 0, rw_route = ''''\<rparr>) o' of
        (w1, o', True) \<Rightarrow> (w_set_conn (w_conn w1) w, o', True)
      | (w1, o', False) \<Rightarrow>
          let w = w_set_conn (w_conn w1) w in
          (case w1 of
             Plain _ \<Rightarrow> (w, o', False)
           | Wrapped rw \<Rightarrow>
               let status = (if rw_status rw = 0 then 200 else rw_status rw);
                   route = (if rw_route rw = '''' then ''unmatched'' else rw_route rw);
                   o' = o'\<lparr>ob_metrics := ObserveHTTP route (sv_Method r) status (ob_metrics o')\<rparr> in
               if route \<in> {''GET /metrics'', ''GET /healthz'', ''GET /readyz''} then (w, o', False)
               else (w, o'\<lparr>ob_access := ob_access o' @ [(sv_Path r, route, status, rw_bytes rw, ctx_attrs ctx)]\<rparr>, False)))"

text \<open>Which span continues an inbound one, or starts afresh, is up to the tracer: \<open>start\<close>.\<close>

definition tracing ::
    "((string \<times> string) option \<Rightarrow> (string \<times> string) option) \<Rightarrow> (LogCtx \<Rightarrow> Writer \<Rightarrow> Observed \<Rightarrow> ran) \<Rightarrow> Serving \<Rightarrow>
       LogCtx \<Rightarrow> Writer \<Rightarrow> Observed \<Rightarrow> ran" where
  "tracing start next r ctx w o' =
     (case next (ctx\<lparr>cx_span := start (cx_span ctx)\<rparr>) w o' of
        (w, o', p) \<Rightarrow>
          let span = \<lparr>sp_name = sv_Method r @ '' '' @ sv_Path r, sp_attrs = None, sp_error = False\<rparr>;
              span = (if p then span
                      else (case w of
                              Plain _ \<Rightarrow> span
                            | Wrapped rw \<Rightarrow>
                                span\<lparr>sp_attrs := Some (rw_status rw, rw_route rw), sp_error := rw_status rw \<ge> 500\<rparr>))
          in (w, o'\<lparr>ob_spans := ob_spans o' @ [span]\<rparr>, p))"

text \<open>The identifier of the request, or a fresh one, which is an argument.\<close>

definition chosen_id :: "string \<Rightarrow> Serving \<Rightarrow> string" where
  "chosen_id uuid r = (if sv_RequestID r = '''' \<or> length (sv_RequestID r) > 128 then uuid else sv_RequestID r)"

definition requestID ::
    "string \<Rightarrow> (LogCtx \<Rightarrow> Writer \<Rightarrow> Observed \<Rightarrow> ran) \<Rightarrow> Serving \<Rightarrow> LogCtx \<Rightarrow> Writer \<Rightarrow> Observed \<Rightarrow> ran" where
  "requestID uuid next r ctx w o' =
     (let i = chosen_id uuid r
      in next (WithRequestID ctx i) (w_set_conn ((w_conn w)\<lparr>cn_requestID := i\<rparr>) w) o')"

text \<open>A panic is logged with the context of the outer request, and answered with the JSON body of an internal error.\<close>

definition recoverer ::
    "nat \<Rightarrow> (LogCtx \<Rightarrow> Writer \<Rightarrow> Observed \<Rightarrow> ran) \<Rightarrow> LogCtx \<Rightarrow> Writer \<Rightarrow> Observed \<Rightarrow> Writer \<times> Observed" where
  "recoverer len next ctx w o' =
     (case next ctx w o' of
        (w, o', True) \<Rightarrow> (w_write len (w_header 500 w), o'\<lparr>ob_panics := ob_panics o' @ [ctx_attrs ctx]\<rparr>)
      | (w, o', False) \<Rightarrow> (w, o'))"

text \<open>The chain, on a connection whose context carries nothing yet.\<close>

definition Handler ::
    "nat \<Rightarrow> string \<Rightarrow> ((string \<times> string) option \<Rightarrow> (string \<times> string) option) \<Rightarrow> Serving \<Rightarrow> Conn \<Rightarrow> Observed \<Rightarrow> Writer \<times> Observed" where
  "Handler len uuid start r c o' =
     recoverer len (requestID uuid (tracing start (observe (mux r) r) r) r) background (Plain c) o'"

subsection \<open>Facts\<close>

text \<open>The recorded status and that of the connection agree, as long as the handler writes final statuses.\<close>

definition final_acts :: "Act list \<Rightarrow> bool" where
  "final_acts as \<longleftrightarrow> (\<forall>a \<in> set as. case a of Header code \<Rightarrow> code \<ge> 200 | Bytes n \<Rightarrow> True | Panic \<Rightarrow> False)"

definition in_step :: "Conn \<Rightarrow> responseWriter \<Rightarrow> bool" where
  "in_step c rw \<longleftrightarrow>
     cn_status (rw_ResponseWriter rw) = (if rw_status rw = 0 then None else Some (rw_status rw)) \<and>
     cn_bytes (rw_ResponseWriter rw) = cn_bytes c + rw_bytes rw"

lemma in_step_header: "in_step c rw \<Longrightarrow> code \<ge> 200 \<Longrightarrow> in_step c (rw_WriteHeader code rw)"
  by (auto simp: in_step_def rw_WriteHeader_def conn_WriteHeader_def Let_def)

lemma in_step_write: "in_step c rw \<Longrightarrow> in_step c (rw_Write n rw)"
  by (auto simp: in_step_def rw_Write_def conn_Write_def conn_WriteHeader_def Let_def)

lemma route_kept: "rw_route (rw_WriteHeader code rw) = rw_route rw" "rw_route (rw_Write n rw) = rw_route rw"
  by (simp_all add: rw_WriteHeader_def rw_Write_def Let_def)

lemma run_acts_wrapped:
  "final_acts as \<Longrightarrow> in_step c rw \<Longrightarrow>
     \<exists>rw'. run_acts as (Wrapped rw) = (Wrapped rw', False) \<and> in_step c rw' \<and> rw_route rw' = rw_route rw"
proof (induction as arbitrary: rw)
  case (Cons a as)
  have as: "final_acts as" using Cons.prems(1) by (simp add: final_acts_def)
  show ?case
  proof (cases a)
    case (Header code)
    then have "in_step c (rw_WriteHeader code rw)" using Cons.prems in_step_header by (simp add: final_acts_def)
    from Cons.IH [OF as this] show ?thesis by (simp add: Header w_header_def route_kept)
  next
    case (Bytes n)
    from Cons.IH [OF as in_step_write [OF Cons.prems(2)], of n] show ?thesis by (simp add: Bytes w_write_def route_kept)
  next
    case Panic
    then show ?thesis using Cons.prems(1) by (simp add: final_acts_def)
  qed
qed simp

text \<open>A wrapped writer stays wrapped.\<close>

lemma run_acts_kind: "\<exists>rw' p. run_acts as (Wrapped rw) = (Wrapped rw', p)" "\<exists>c' p. run_acts as (Plain c) = (Plain c', p)"
proof -
  show "\<exists>rw' p. run_acts as (Wrapped rw) = (Wrapped rw', p)"
  proof (induction as arbitrary: rw)
    case (Cons a as)
    then show ?case by (cases a) (auto simp: w_header_def w_write_def)
  qed auto
  show "\<exists>c' p. run_acts as (Plain c) = (Plain c', p)"
  proof (induction as arbitrary: c)
    case (Cons a as)
    then show ?case by (cases a) (auto simp: w_header_def w_write_def)
  qed auto
qed

text \<open>Nothing that a handler writes touches the identifier in the header; it panics when one of its acts does.\<close>

lemma conn_id [simp]:
  "cn_requestID (conn_WriteHeader code c) = cn_requestID c" "cn_requestID (conn_Write n c) = cn_requestID c"
  by (simp_all add: conn_WriteHeader_def conn_Write_def Let_def)

lemma w_conn_id [simp]:
  "cn_requestID (w_conn (w_header code w)) = cn_requestID (w_conn w)" "cn_requestID (w_conn (w_write n w)) = cn_requestID (w_conn w)"
  by (cases w; simp add: w_header_def w_write_def w_conn_def rw_WriteHeader_def rw_Write_def Let_def)+

lemma run_acts_id: "run_acts as w = (w', p) \<Longrightarrow> cn_requestID (w_conn w') = cn_requestID (w_conn w) \<and> p = (Panic \<in> set as)"
  by (induction as w rule: run_acts.induct) auto

lemma mux_wrapped:
  "\<exists>rw'. mux r ctx (Wrapped rw) o' = (Wrapped rw', o', Panic \<in> set (sv_acts r)) \<and>
     cn_requestID (rw_ResponseWriter rw') = cn_requestID (rw_ResponseWriter rw)"
proof -
  let ?rw = "case sv_pattern r of Some p \<Rightarrow> rw\<lparr>rw_route := p\<rparr> | None \<Rightarrow> rw"
  obtain rw' p where run: "run_acts (sv_acts r) (Wrapped ?rw) = (Wrapped rw', p)" using run_acts_kind(1) by blast
  then have "cn_requestID (rw_ResponseWriter rw') = cn_requestID (rw_ResponseWriter rw)" "p = (Panic \<in> set (sv_acts r))"
    using run_acts_id [OF run] by (simp_all add: w_conn_def split: option.splits)
  then show ?thesis using run by (auto simp: mux_def Let_def split: option.splits)
qed

text \<open>
  The observing handler gives back a writer of the kind it got, adds no span and no panic line, and one line to the access log at most, with
  the attributes of its context, unless it panics.
\<close>

lemma observe_plain:
  "\<exists>c' o'' more. observe (mux r) r ctx (Plain c) o' = (Plain c', o'', Panic \<in> set (sv_acts r)) \<and> ob_spans o'' = ob_spans o' \<and>
     cn_requestID c' = cn_requestID c \<and> ob_panics o'' = ob_panics o' \<and> ob_access o'' = ob_access o' @ more \<and> length more \<le> 1 \<and>
     (\<forall>(path, route, status, bytes, attrs) \<in> set more. attrs = ctx_attrs ctx)"
proof -
  obtain rw' where "mux r ctx (Wrapped \<lparr>rw_ResponseWriter = w_conn (Plain c), rw_status = 0, rw_bytes = 0, rw_route = ''''\<rparr>) o' =
      (Wrapped rw', o', Panic \<in> set (sv_acts r))" "cn_requestID (rw_ResponseWriter rw') = cn_requestID c"
    using mux_wrapped [of r ctx "\<lparr>rw_ResponseWriter = w_conn (Plain c), rw_status = 0, rw_bytes = 0, rw_route = ''''\<rparr>" o']
    by (auto simp: w_conn_def)
  then show ?thesis
    by (cases "Panic \<in> set (sv_acts r)") (auto simp: observe_def w_set_conn_def w_conn_def Let_def)
qed

subsection \<open>Properties\<close>



text \<open>
  C32: spans carry no status. The tracing handler asks its own writer for the recorded status and route, but the recording writer is made by
  the observing handler inside it: for every request, whatever the handler does, the span is recorded without status and route, and
  no span is ever marked as an error.
\<close>
theorem tracing_blind:
  "\<exists>span. ob_spans (snd (Handler len uuid start r c o')) = ob_spans o' @ [span] \<and>
     sp_name span = sv_Method r @ '' '' @ sv_Path r \<and> sp_attrs span = None \<and> \<not> sp_error span"
proof -
  let ?c = "c\<lparr>cn_requestID := chosen_id uuid r\<rparr>"
  let ?ctx = "(WithRequestID background (chosen_id uuid r))\<lparr>cx_span := start (cx_span (WithRequestID background (chosen_id uuid r)))\<rparr>"
  obtain c' o'' p where "observe (mux r) r ?ctx (Plain ?c) o' = (Plain c', o'', p)" "ob_spans o'' = ob_spans o'"
    using observe_plain [of r ?ctx ?c o'] by blast
  then show ?thesis
    by (cases p) (simp_all add: Handler_def recoverer_def requestID_def tracing_def Let_def w_set_conn_def w_conn_def)
qed

text \<open>
  C37: requests can be told apart in the log. For every request, whatever its handler does, the response carries the identifier that the client sent (unless
  that is missing or longer than 128 bytes, then a fresh one), and the access line of the request, of which there is one at most, has that identifier
  and no other as its \<open>request_id\<close>. A panic is logged once, exactly when the handler panics; its line has no \<open>request_id\<close>, since it is written
  outside the handler that sets it.
\<close>
theorem request_id_logged:
  assumes "uuid \<noteq> ''''"
  shows "\<exists>c' o'' lines. Handler len uuid start r c o' = (Plain c', o'') \<and> cn_requestID c' = chosen_id uuid r \<and> chosen_id uuid r \<noteq> '''' \<and>
    ob_access o'' = ob_access o' @ lines \<and> length lines \<le> 1 \<and>
    (\<forall>(path, route, status, bytes, attrs) \<in> set lines. request_ids attrs = [chosen_id uuid r]) \<and>
    (\<exists>panics. ob_panics o'' = ob_panics o' @ panics \<and> map request_ids panics = (if Panic \<in> set (sv_acts r) then [[]] else []))"
proof -
  let ?i = "chosen_id uuid r"
  let ?c = "c\<lparr>cn_requestID := ?i\<rparr>"
  let ?ctx = "(WithRequestID background ?i)\<lparr>cx_span := start (cx_span (WithRequestID background ?i))\<rparr>"
  have i: "?i \<noteq> ''''" using assms by (auto simp: chosen_id_def)
  have ids: "request_ids (ctx_attrs ?ctx) = [?i]" "request_ids (ctx_attrs background) = []"
    unfolding request_ids_ctx using i by (simp_all add: RequestID_def WithRequestID_def background_def)
  obtain c' o'' more where ob: "observe (mux r) r ?ctx (Plain ?c) o' = (Plain c', o'', Panic \<in> set (sv_acts r))"
    "cn_requestID c' = ?i" "ob_panics o'' = ob_panics o'" "ob_access o'' = ob_access o' @ more" "length more \<le> 1"
    "\<forall>(path, route, status, bytes, attrs) \<in> set more. attrs = ctx_attrs ?ctx"
    using observe_plain [of r ?ctx ?c o'] by auto
  have lines: "\<forall>(path, route, status, bytes, attrs) \<in> set more. request_ids attrs = [?i]" using ob(6) ids(1) by auto
  show ?thesis
    using ob lines i ids(2)
    by (cases "Panic \<in> set (sv_acts r)")
      (simp_all add: Handler_def recoverer_def requestID_def tracing_def Let_def w_set_conn_def w_conn_def w_header_def w_write_def)
qed

theorem request_id_logged_witness:
  "let r = \<lparr>sv_Method = ''GET'', sv_Path = ''/v1/stats'', sv_RequestID = ''req-7'', sv_pattern = Some ''GET /v1/stats'', sv_acts = [Header 200, Bytes 7]\<rparr>;
       c = \<lparr>cn_status = None, cn_bytes = 0, cn_requestID = ''''\<rparr>;
       o' = \<lparr>ob_metrics = NewMetrics, ob_access = [], ob_spans = [], ob_panics = []\<rparr> in
   \<exists>c' o''. Handler 30 ''uuid'' (\<lambda>s. s) r c o' = (Plain c', o'') \<and> cn_requestID c' = ''req-7'' \<and> ob_panics o'' = []"
  unfolding Let_def
  using request_id_logged [of "''uuid''" 30 "\<lambda>s. s" "\<lparr>sv_Method = ''GET'', sv_Path = ''/v1/stats'', sv_RequestID = ''req-7'',
      sv_pattern = Some ''GET /v1/stats'', sv_acts = [Header 200, Bytes 7]\<rparr>" "\<lparr>cn_status = None, cn_bytes = 0, cn_requestID = ''''\<rparr>"
      "\<lparr>ob_metrics = NewMetrics, ob_access = [], ob_spans = [], ob_panics = []\<rparr>"]
  by (auto simp: chosen_id_def)

text \<open>After a successful batch the gauge shows the size of the window.\<close>

lemma gauge_after_ingest:
  assumes "Ingest sha256 ctx e legs = (res, None, e')" "hasOnOpen (eng_hooks e')"
  shows "OpenLegsGauge (fold metric_hook (eng_calls e') m) = f64_of_int64 (int (eng_OpenLegs e'))"
proof -
  obtain e1 where "e' = notifyOpen e1" using assms(1) by (auto simp: Ingest_def split: sum.splits prod.splits option.splits)
  then show ?thesis using assms(2) by (auto simp: notifyOpen_def call_hook_def eng_OpenLegs_def split: if_splits)
qed

end
