(* ===== verification/Recon_Migrations.thy ===== *)
theory Recon_Migrations
  imports Recon_Types "HOL-Library.Sublist"
begin

text \<open>
  The migrations (\<open>migrations/migrations.go\<close>) and the start of the PostgreSQL store (\<open>Open\<close> and \<open>migrate\<close> of
  \<open>internal/adapters/postgres/store.go\<close>). The embedded directory is an argument, a list of entries with what reading each of them
  gives. Of the database the model keeps the versions in \<open>schema_migrations\<close> and the scripts that committed transactions have run;
  which call fails is an argument.
\<close>

subsection \<open>Embedded files\<close>

record Migration =
  Version :: string
  SQL :: string

record DirEntry =
  de_Name :: string
  de_IsDir :: bool
  de_read :: "string result"

definition HasSuffix :: "string \<Rightarrow> string \<Rightarrow> bool" where
  "HasSuffix s suf \<longleftrightarrow> suffix suf s"

definition TrimSuffix :: "string \<Rightarrow> string \<Rightarrow> string" where
  "TrimSuffix s suf = (if HasSuffix s suf then take (length s - length suf) s else s)"

fun read_entries :: "DirEntry list \<Rightarrow> Migration list result" where
  "read_entries [] = Inr []"
| "read_entries (e # es) =
     (if de_IsDir e \<or> \<not> HasSuffix (de_Name e) ''.sql'' then read_entries es
      else
        (case de_read e of
           Inl err \<Rightarrow> Inl (Errorf (''read '' @ de_Name e @ '': '') err '''')
         | Inr b \<Rightarrow>
             (case read_entries es of
                Inl err \<Rightarrow> Inl err
              | Inr out \<Rightarrow> Inr (\<lparr>Version = TrimSuffix (de_Name e) ''.sql'', SQL = b\<rparr> # out))))"

definition all_migrations :: "DirEntry list result \<Rightarrow> Migration list result" where
  "all_migrations dir =
     (case dir of
        Inl err \<Rightarrow> Inl (Errorf ''read migrations: '' err '''')
      | Inr entries \<Rightarrow> (case read_entries entries of Inl err \<Rightarrow> Inl err | Inr out \<Rightarrow> Inr (sort_key Version out)))"

subsection \<open>Applying them\<close>

record Db =
  db_versions :: "string list"
  db_scripts :: "Migration list"

text \<open>
  The calls of one transaction that can fail: to begin, the query, the script, the insertion and to commit. A transaction that fails is
  rolled back.
\<close>

datatype Call = Begin | SelectExists | ExecScript | InsertVersion | Commit

definition committed :: "(Call \<Rightarrow> goerr option) \<Rightarrow> 'a \<Rightarrow> 'a result" where
  "committed fate x = (case fate Commit of Some err \<Rightarrow> Inl err | None \<Rightarrow> Inr x)"

definition exec_migration :: "(Call \<Rightarrow> goerr option) \<Rightarrow> Migration \<Rightarrow> Db \<Rightarrow> Db result" where
  "exec_migration fate m db =
     (case fate ExecScript of
        Some err \<Rightarrow> Inl (Errorf (''apply '' @ Version m @ '': '') err '''')
      | None \<Rightarrow>
          (case fate InsertVersion of
             Some err \<Rightarrow> Inl err
           | None \<Rightarrow>
               committed fate
                 (db\<lparr>db_scripts := db_scripts db @ [m], db_versions := List.insert (Version m) (db_versions db)\<rparr>)))"

definition migrate_tx :: "(Call \<Rightarrow> goerr option) \<Rightarrow> string \<Rightarrow> Migration \<Rightarrow> Db \<Rightarrow> Db result" where
  "migrate_tx fate first m db =
     (case fate Begin of
        Some err \<Rightarrow> Inl err
      | None \<Rightarrow>
          if Version m \<noteq> first
          then (case fate SelectExists of
                  Some err \<Rightarrow> Inl err
                | None \<Rightarrow> if Version m \<in> set (db_versions db) then committed fate db else exec_migration fate m db)
          else exec_migration fate m db)"

fun migrate_loop :: "(string \<Rightarrow> Call \<Rightarrow> goerr option) \<Rightarrow> string \<Rightarrow> Migration list \<Rightarrow> Db \<Rightarrow> goerr option \<times> Db" where
  "migrate_loop fate first [] db = (None, db)"
| "migrate_loop fate first (m # ms) db =
     (case migrate_tx (fate (Version m)) first m db of
        Inl err \<Rightarrow> (Some (Errorf ''migrate: '' err ''''), db)
      | Inr db \<Rightarrow> migrate_loop fate first ms db)"

definition migrate :: "DirEntry list result \<Rightarrow> (string \<Rightarrow> Call \<Rightarrow> goerr option) \<Rightarrow> Db \<Rightarrow> goerr option \<times> Db" where
  "migrate dir fate db =
     (case all_migrations dir of
        Inl err \<Rightarrow> (Some err, db)
      | Inr ms \<Rightarrow> migrate_loop fate (Version (hd ms)) ms db)"

text \<open>
  \<open>Open\<close>: the outcome of parsing the data source name, of building the pool and of the ping, whose error is that of the server
  (message and code) or another.
\<close>

datatype ping_error = PgError string string | OtherError goerr

definition Ping :: "ping_error option \<Rightarrow> goerr option" where
  "Ping ping =
     (case ping of
        None \<Rightarrow> None
      | Some (PgError msg code) \<Rightarrow> Some (ErrText (''postgres: '' @ msg @ '' ('' @ code @ '')''))
      | Some (OtherError err) \<Rightarrow> Some (Errorf ''postgres: '' err ''''))"

definition Open ::
    "goerr option \<Rightarrow> goerr option \<Rightarrow> ping_error option \<Rightarrow> DirEntry list result \<Rightarrow> (string \<Rightarrow> Call \<Rightarrow> goerr option) \<Rightarrow> Db \<Rightarrow>
       goerr option \<times> Db" where
  "Open parse pool ping dir fate db =
     (case parse of
        Some err \<Rightarrow> (Some (Errorf ''parse dsn: '' err ''''), db)
      | None \<Rightarrow>
          (case pool of
             Some err \<Rightarrow> (Some (Errorf ''connect: '' err ''''), db)
           | None \<Rightarrow> (case Ping ping of Some err \<Rightarrow> (Some err, db) | None \<Rightarrow> migrate dir fate db)))"

subsection \<open>Facts\<close>

text \<open>
  The state of a database after some starts: the first \<open>k\<close> migrations are recorded, and of those after the first each has run once, in
  order.
\<close>

definition migrated :: "Migration list \<Rightarrow> nat \<Rightarrow> Db \<Rightarrow> bool" where
  "migrated ms k db \<longleftrightarrow>
     k \<le> length ms \<and> set (db_versions db) = Version ` set (take k ms) \<and>
     filter (\<lambda>m. Version m \<noteq> Version (hd ms)) (db_scripts db) = tl (take k ms)"

lemma migrate_tx_cases:
  assumes "migrate_tx fate first m db = Inr db'"
  obtains (skip) "Version m \<noteq> first" "Version m \<in> set (db_versions db)" "db' = db"
  | (run) "Version m = first \<or> Version m \<notin> set (db_versions db)"
      "db' = db\<lparr>db_scripts := db_scripts db @ [m], db_versions := List.insert (Version m) (db_versions db)\<rparr>"
  using assms by (auto simp: migrate_tx_def exec_migration_def committed_def split: option.splits if_splits)

lemma migrated_version:
  assumes "distinct (map Version ms)" "j < length ms" "k \<le> length ms"
  shows "Version (ms ! j) \<in> Version ` set (take k ms) \<longleftrightarrow> j < k"
proof
  assume "Version (ms ! j) \<in> Version ` set (take k ms)"
  then obtain i where i: "i < k" "Version (ms ! j) = Version (ms ! i)" using assms(3) by (auto simp: in_set_conv_nth)
  then have "j = i" using assms by (metis length_map nth_eq_iff_index_eq nth_map order_less_le_trans)
  then show "j < k" using i(1) by simp
next
  assume "j < k"
  then show "Version (ms ! j) \<in> Version ` set (take k ms)" using assms(3) by (intro imageI) (auto simp: in_set_conv_nth)
qed

lemma migrate_tx_step:
  assumes d: "distinct (map Version ms)" and j: "j < length ms" "j \<le> k" and inv: "migrated ms k db"
    and tx: "migrate_tx fate (Version (hd ms)) (ms ! j) db = Inr db'"
  shows "migrated ms (max k (Suc j)) db'"
proof -
  have hd: "hd ms = ms ! 0" using j(1) by (cases ms) simp_all
  have first: "Version (ms ! j) = Version (hd ms) \<longleftrightarrow> j = 0"
  proof -
    have "0 < length ms" using j(1) by linarith
    then show ?thesis unfolding hd using nth_eq_iff_index_eq [OF d, of j 0] j(1) by simp
  qed
  have k: "k \<le> length ms" and v: "set (db_versions db) = Version ` set (take k ms)" using inv by (simp_all add: migrated_def)
  have known: "Version (ms ! j) \<in> set (db_versions db) \<longleftrightarrow> j < k" unfolding v using migrated_version [OF d j(1) k] .
  from tx show ?thesis
  proof (cases rule: migrate_tx_cases)
    case skip
    then show ?thesis using known inv by (simp add: max_absorb1)
  next
    case run
    then have "j = 0 \<or> j = k" using first known j(2) by auto
    then show ?thesis
    proof (cases "j < k")
      case True
      then have "j = 0" using \<open>j = 0 \<or> j = k\<close> by simp
      then show ?thesis using run(2) True inv first known v by (auto simp: migrated_def max_absorb1 insert_absorb)
    next
      case False
      then have jk: "j = k" using j(2) by simp
      have take: "take (Suc k) ms = take k ms @ [ms ! k]" using j(1) jk by (simp add: take_Suc_conv_app_nth)
      have "tl (take k ms @ [ms ! k]) = tl (take k ms) @ (if k = 0 then [] else [ms ! k])" using j(1) jk by (cases k; cases ms) auto
      then show ?thesis using run(2) inv first jk j(1) by (auto simp: migrated_def take max_def)
    qed
  qed
qed

lemma migrate_loop_inv:
  assumes "distinct (map Version ms)" "j \<le> k" "migrated ms k db" "migrate_loop fate (Version (hd ms)) (drop j ms) db = (err, db')"
  shows "\<exists>k'. migrated ms k' db' \<and> (err = None \<longrightarrow> k' = length ms)"
  using assms(2-4)
proof (induction "length ms - j" arbitrary: j k db)
  case 0
  then have "length ms \<le> j" by simp
  then show ?case using 0 by (auto simp: migrated_def)
next
  case (Suc n)
  then have j: "j < length ms" by simp
  then have drop: "drop j ms = ms ! j # drop (Suc j) ms" by (simp add: Cons_nth_drop_Suc)
  show ?case
  proof (cases "migrate_tx (fate (Version (ms ! j))) (Version (hd ms)) (ms ! j) db")
    case (Inl e)
    then show ?thesis using Suc.prems by (auto simp: drop)
  next
    case (Inr db1)
    have "migrated ms (max k (Suc j)) db1" using migrate_tx_step [OF assms(1) j Suc.prems(1,2) Inr] .
    then show ?thesis using Suc.hyps(1) [of "Suc j" "max k (Suc j)" db1] Suc.hyps(2) Suc.prems(3) Inr by (simp add: drop)
  qed
qed

lemma read_entries_versions:
  "read_entries es = Inr ms \<Longrightarrow> map Version ms = map (\<lambda>e. TrimSuffix (de_Name e) ''.sql'') (filter (\<lambda>e. \<not> de_IsDir e \<and> HasSuffix (de_Name e) ''.sql'') es)"
  by (induction es arbitrary: ms) (auto split: if_splits sum.splits)

lemma TrimSuffix_inj: "HasSuffix a suf \<Longrightarrow> HasSuffix b suf \<Longrightarrow> TrimSuffix a suf = TrimSuffix b suf \<Longrightarrow> a = b"
  by (auto simp: HasSuffix_def TrimSuffix_def suffix_def)

lemma all_migrations_distinct:
  assumes "all_migrations (Inr es) = Inr ms" "distinct (map de_Name es)"
  shows "distinct (map Version ms) \<and> sorted (map Version ms)"
proof -
  let ?sql = "\<lambda>e. \<not> de_IsDir e \<and> HasSuffix (de_Name e) ''.sql''"
  obtain out where out: "read_entries es = Inr out" "ms = sort_key Version out" using assms(1) by (auto simp: all_migrations_def split: sum.splits)
  have "distinct (map de_Name (filter ?sql es))" using assms(2) by (rule distinct_map_filter)
  then have "distinct (map (\<lambda>n. TrimSuffix n ''.sql'') (map de_Name (filter ?sql es)))"
    by (subst distinct_map, intro conjI inj_onI) (auto intro: TrimSuffix_inj)
  then have "distinct (map Version out)" using read_entries_versions [OF out(1)] by (simp add: comp_def)
  moreover have "mset (map Version ms) = mset (map Version out)" unfolding out(2) by simp
  ultimately have "distinct (map Version ms)" using mset_eq_imp_distinct_iff by blast
  then show ?thesis unfolding out(2) by simp
qed

text \<open>A sequence of starts, each with its own fate.\<close>

primrec starts :: "DirEntry list \<Rightarrow> (string \<Rightarrow> Call \<Rightarrow> goerr option) list \<Rightarrow> Db \<Rightarrow> Db" where
  "starts es [] db = db"
| "starts es (fate # fates) db = starts es fates (snd (migrate (Inr es) fate db))"

lemma starts_inv:
  assumes "all_migrations (Inr es) = Inr ms" "distinct (map Version ms)" "migrated ms k db"
  shows "\<exists>k'. migrated ms k' (starts es fates db)"
  using assms(3)
proof (induction fates arbitrary: k db)
  case (Cons fate fates)
  obtain err db1 where m: "migrate_loop fate (Version (hd ms)) (drop 0 ms) db = (err, db1)" by force
  obtain k1 where "migrated ms k1 db1" using migrate_loop_inv [OF assms(2) _ Cons.prems m] by auto
  from Cons.IH [OF this] show ?case using m by (simp add: migrate_def assms(1))
qed auto

subsection \<open>Properties\<close>

text \<open>
  C39: however often the service starts and whatever fails on the way, every migration after the first runs at most once, in ascending
  order of version, and no later one before an earlier one; after a start that succeeds all of them have run and are recorded.
\<close>

theorem migrations_run_once:
  assumes "all_migrations (Inr es) = Inr ms" and "distinct (map de_Name es)"
    and "migrate (Inr es) fate (starts es fates \<lparr>db_versions = [], db_scripts = []\<rparr>) = (err, db)"
  shows "sorted (map Version ms) \<and>
    (\<exists>k \<le> length ms. set (db_versions db) = Version ` set (take k ms) \<and>
      filter (\<lambda>m. Version m \<noteq> Version (hd ms)) (db_scripts db) = tl (take k ms) \<and>
      (err = None \<longrightarrow> k = length ms))"
proof -
  have d: "distinct (map Version ms)" "sorted (map Version ms)" using all_migrations_distinct [OF assms(1,2)] by simp_all
  have "migrated ms 0 \<lparr>db_versions = [], db_scripts = []\<rparr>" by (simp add: migrated_def)
  from starts_inv [OF assms(1) d(1) this] obtain k where k: "migrated ms k (starts es fates \<lparr>db_versions = [], db_scripts = []\<rparr>)" by blast
  have "migrate_loop fate (Version (hd ms)) (drop 0 ms) (starts es fates \<lparr>db_versions = [], db_scripts = []\<rparr>) = (err, db)"
    using assms(3) by (simp add: migrate_def assms(1))
  from migrate_loop_inv [OF d(1) _ k this] obtain k' where k': "migrated ms k' db" "err = None \<longrightarrow> k' = length ms" by auto
  have "k' \<le> length ms \<and> set (db_versions db) = Version ` set (take k' ms) \<and>
      filter (\<lambda>m. Version m \<noteq> Version (hd ms)) (db_scripts db) = tl (take k' ms) \<and> (err = None \<longrightarrow> k' = length ms)"
    using k' unfolding migrated_def by blast
  then show ?thesis using d(2) by blast
qed

definition demo_dir :: "DirEntry list" where
  "demo_dir =
     [\<lparr>de_Name = ''0001_init.sql'', de_IsDir = False, de_read = Inr ''a''\<rparr>, \<lparr>de_Name = ''0002_more.sql'', de_IsDir = False, de_read = Inr ''b''\<rparr>]"

definition demo_migrations :: "Migration list" where
  "demo_migrations = [\<lparr>Version = ''0001_init'', SQL = ''a''\<rparr>, \<lparr>Version = ''0002_more'', SQL = ''b''\<rparr>]"

theorem migrations_run_once_witness:
  "let ok = (\<lambda>v c. None); lost = (\<lambda>v c. if v = ''0002_more'' \<and> c = Commit then Some ErrCanceled else None);
       db = snd (migrate (Inr demo_dir) ok (starts demo_dir [lost, ok] \<lparr>db_versions = [], db_scripts = []\<rparr>))
   in length (db_scripts db) = 4 \<and> filter (\<lambda>m. Version m \<noteq> ''0001_init'') (db_scripts db) = [\<lparr>Version = ''0002_more'', SQL = ''b''\<rparr>]"
proof -
  let ?ok = "\<lambda>v c. None" and ?lost = "\<lambda>v c. if v = ''0002_more'' \<and> c = Commit then Some ErrCanceled else None"
  let ?db0 = "starts demo_dir [?lost, ?ok] \<lparr>db_versions = [], db_scripts = []\<rparr>"
  have all: "all_migrations (Inr demo_dir) = Inr demo_migrations" by code_simp
  have d: "distinct (map de_Name demo_dir)" by (simp add: demo_dir_def)
  have run: "migrate (Inr demo_dir) ?ok ?db0 =
      (None, \<lparr>db_versions = [''0002_more'', ''0001_init''], db_scripts = [hd demo_migrations, hd demo_migrations] @ tl demo_migrations @ [hd demo_migrations]\<rparr>)"
    by code_simp
  show ?thesis using migrations_run_once [OF all d run] unfolding Let_def run by (auto simp: demo_migrations_def)
qed

end
