(* ===== verification/Recon_MemSource.thy ===== *)
theory Recon_MemSource
  imports Recon_Source
begin

text \<open>
  The memory source (\<open>internal/adapters/memory/source.go\<close>): a buffered channel of batches. A \<open>select\<close> with several ready cases
  takes any of them, and one with none waits: which case is taken, whether a receiver waits and whether the context is done are
  the inputs of an operation. Sending on a closed channel and closing it again panic.
\<close>

subsection \<open>The channel\<close>

record MemSource =
  ms_ch :: "Leg list list"
  ms_cap :: nat
  ms_closed :: bool

definition NewMemSource :: "nat \<Rightarrow> MemSource" where
  "NewMemSource buffer = \<lparr>ms_ch = [], ms_cap = buffer, ms_closed = False\<rparr>"

datatype 'a attempt = Went 'a | Refused goerr | Panicked | Waits

text \<open>A send goes through when the buffer has room, or when it is empty and a receiver waits; on a closed channel it panics.\<close>

definition Publish :: "bool \<Rightarrow> bool \<Rightarrow> goerr option \<Rightarrow> Leg list \<Rightarrow> MemSource \<Rightarrow> MemSource attempt" where
  "Publish waiting takeSend ended legs s =
     (let ready = ms_closed s \<or> length (ms_ch s) < ms_cap s \<or> (waiting \<and> ms_ch s = []);
          send = (if ms_closed s then Panicked else Went (s\<lparr>ms_ch := ms_ch s @ [legs]\<rparr>)) in
      case ended of
        None \<Rightarrow> if ready then send else Waits
      | Some err \<Rightarrow> if ready \<and> takeSend then send else Refused err)"

definition Close :: "MemSource \<Rightarrow> MemSource attempt" where
  "Close s = (if ms_closed s then Panicked else Went (s\<lparr>ms_closed := True\<rparr>))"

subsection \<open>The loop\<close>

record 'e MemLoop =
  ml_src :: MemSource
  ml_handler :: 'e

text \<open>
  One round of \<open>Run\<close>: the context is done or a batch is received, of a closed channel what it still holds; with neither, the round
  waits. A handler error ends the loop; its batch has left the channel.
\<close>

record MemInput =
  mi_done :: "goerr option"
  mi_takeBatch :: bool
  mi_ctx :: Context

definition mem_round :: "'e handler \<Rightarrow> MemInput \<Rightarrow> 'e MemLoop \<Rightarrow> 'e MemLoop round" where
  "mem_round h i l =
     (let ready = ms_ch (ml_src l) \<noteq> [] \<or> ms_closed (ml_src l);
          receive =
            (case ms_ch (ml_src l) of
               [] \<Rightarrow> Return (ErrText ''memory source closed'') l
             | batch # rest \<Rightarrow>
                 (case h (mi_ctx i) (ml_handler l) batch of
                    (err, e) \<Rightarrow>
                      let l = l\<lparr>ml_src := (ml_src l)\<lparr>ms_ch := rest\<rparr>, ml_handler := e\<rparr>
                      in (case err of Some err \<Rightarrow> Return err l | None \<Rightarrow> Continue l))) in
      case mi_done i of
        None \<Rightarrow> if ready then receive else Continue l
      | Some err \<Rightarrow> if ready \<and> mi_takeBatch i then receive else Return err l)"

definition mem_Run :: "'e handler \<Rightarrow> MemInput list \<Rightarrow> 'e MemLoop \<Rightarrow> 'e MemLoop round" where
  "mem_Run h = run_rounds (mem_round h)"

text \<open>What a round can hand over: the batch at the head of the channel.\<close>

definition next_batch :: "MemInput \<Rightarrow> 'e MemLoop \<Rightarrow> Leg list \<Rightarrow> bool" where
  "next_batch i l legs \<longleftrightarrow> (\<exists>rest. ms_ch (ml_src l) = legs # rest)"

lemma mem_round_cases:
  obtains (idle) "after (mem_round h i l) = l"
  | (batch) legs rest err e where "ms_ch (ml_src l) = legs # rest" "h (mi_ctx i) (ml_handler l) legs = (err, e)"
      "after (mem_round h i l) = l\<lparr>ml_src := (ml_src l)\<lparr>ms_ch := rest\<rparr>, ml_handler := e\<rparr>"
proof (cases "ms_ch (ml_src l)")
  case Nil
  then show thesis by (intro idle) (simp add: mem_round_def Let_def split: option.split)
next
  case (Cons legs rest)
  obtain err e where h: "h (mi_ctx i) (ml_handler l) legs = (err, e)" by force
  have "after (mem_round h i l) = l \<or> after (mem_round h i l) = l\<lparr>ml_src := (ml_src l)\<lparr>ms_ch := rest\<rparr>, ml_handler := e\<rparr>"
    by (simp add: mem_round_def Cons h Let_def split: option.split)
  then show thesis using idle batch [OF Cons h] by blast
qed

interpretation memory: leg_source mem_round ml_handler next_batch
proof
  fix h :: "'e handler" and i l
  show "ml_handler (after (mem_round h i l)) = ml_handler l \<or>
      (\<exists>ctx legs. next_batch i l legs \<and> ml_handler (after (mem_round h i l)) = snd (h ctx (ml_handler l) legs))"
  proof (cases rule: mem_round_cases [of h i l])
    case (batch legs rest err e)
    then have "next_batch i l legs" "ml_handler (after (mem_round h i l)) = snd (h (mi_ctx i) (ml_handler l) legs)"
      by (simp_all add: next_batch_def)
    then show ?thesis by blast
  qed simp
qed

text \<open>Behind this source as behind any other, the engine stays in a reachable state.\<close>

lemma mem_round_reachable:
  assumes "\<forall>batch \<in> set (ms_ch (ml_src l)). \<forall>x \<in> set batch. from_json x" "reachable sha256 (ml_handler l)"
  shows "reachable sha256 (ml_handler (after (mem_round (ingest_handler sha256) i l)))"
proof (rule memory.round_keeps [of "reachable sha256", OF assms(2)])
  fix ctx legs assume "next_batch i l legs"
  then have "\<forall>x \<in> set legs. from_json x" using assms(1) by (auto simp: next_batch_def)
  then show "reachable sha256 (snd (ingest_handler sha256 ctx (ml_handler l) legs))" by (rule ingest_handler_reachable [OF assms(2)])
qed

subsection \<open>Publishers and the loop together\<close>

text \<open>What happens to a source: a publication, a closing, a round of the loop.\<close>

datatype MemOp = OpPublish bool bool "goerr option" "Leg list" | OpClose | OpRound MemInput

text \<open>
  The effect of an operation; what panics, waits or is refused changes nothing. A ghost list keeps the batches whose
  publication went through.
\<close>

fun mem_exec :: "'e handler \<Rightarrow> MemOp \<Rightarrow> Leg list list \<times> 'e MemLoop \<Rightarrow> Leg list list \<times> 'e MemLoop" where
  "mem_exec h (OpPublish waiting takeSend ended legs) (sent, l) =
     (case Publish waiting takeSend ended legs (ml_src l) of
        Went s \<Rightarrow> (sent @ [legs], l\<lparr>ml_src := s\<rparr>)
      | _ \<Rightarrow> (sent, l))"
| "mem_exec h OpClose (sent, l) = (case Close (ml_src l) of Went s \<Rightarrow> (sent, l\<lparr>ml_src := s\<rparr>) | _ \<Rightarrow> (sent, l))"
| "mem_exec h (OpRound i) (sent, l) = (sent, after (mem_round h i l))"

text \<open>A handler that records its batches and answers as it likes.\<close>

definition recorder :: "(Leg list list \<Rightarrow> goerr option) \<Rightarrow> Leg list list handler" where
  "recorder verdict ctx seen legs = (verdict seen, seen @ [legs])"

definition fifo :: "nat \<Rightarrow> Leg list list \<times> Leg list list MemLoop \<Rightarrow> bool" where
  "fifo n st \<longleftrightarrow> (case st of (sent, l) \<Rightarrow>
     sent = ml_handler l @ ms_ch (ml_src l) \<and> length (ms_ch (ml_src l)) \<le> max n 1 \<and> ms_cap (ml_src l) = n)"

lemma Publish_Went:
  "Publish waiting takeSend ended legs s = Went s' \<Longrightarrow>
     s' = s\<lparr>ms_ch := ms_ch s @ [legs]\<rparr> \<and> \<not> ms_closed s \<and> (length (ms_ch s) < ms_cap s \<or> ms_ch s = [])"
  by (auto simp: Publish_def Let_def split: option.splits if_splits)

lemma mem_exec_fifo:
  assumes "fifo n st" shows "fifo n (mem_exec (recorder verdict) op st)"
proof -
  obtain sent l where st: "st = (sent, l)" by (cases st)
  show ?thesis
  proof (cases op)
    case (OpPublish waiting takeSend ended legs)
    then show ?thesis
      using assms Publish_Went [of waiting takeSend ended legs "ml_src l"] by (auto simp: st fifo_def split: attempt.split)
  next
    case OpClose
    then show ?thesis using assms by (simp add: st fifo_def Close_def)
  next
    case (OpRound i)
    show ?thesis
    proof (cases rule: mem_round_cases [of "recorder verdict" i l])
      case idle
      then show ?thesis using assms by (simp add: st fifo_def OpRound)
    next
      case (batch legs rest err e)
      then show ?thesis using assms by (auto simp: st fifo_def OpRound recorder_def)
    qed
  qed
qed

subsection \<open>Properties\<close>

text \<open>
  C38: the memory source is a queue. However publications, closings and rounds of the loop interleave, and whatever the handler answers:
  the batches handed to the handler, followed by those still in the channel, are exactly the batches whose publication went through, in
  that order, each once; and the channel never holds more than its buffer, or the one batch on its way to a waiting receiver.
\<close>

theorem mem_source_fifo:
  "case fold (mem_exec (recorder verdict)) ops ([], \<lparr>ml_src = NewMemSource n, ml_handler = []\<rparr>) of
     (sent, l) \<Rightarrow> sent = ml_handler l @ ms_ch (ml_src l) \<and> length (ms_ch (ml_src l)) \<le> max n 1"
proof -
  define st0 where "st0 = ([] :: Leg list list, \<lparr>ml_src = NewMemSource n, ml_handler = []\<rparr> :: Leg list list MemLoop)"
  have "fifo n st0" by (simp add: st0_def fifo_def NewMemSource_def)
  then have "fifo n (fold (mem_exec (recorder verdict)) ops st0)"
    by (induction ops arbitrary: st0) (simp_all add: mem_exec_fifo)
  then show ?thesis unfolding st0_def fifo_def by (simp split: prod.splits)
qed

end
