(* ===== verification/Recon_Postgres.thy ===== *)
theory Recon_Postgres
  imports Recon_MemStore
begin

text \<open>
  The PostgreSQL store (\<open>internal/adapters/postgres/store.go\<close>): the effect of its statements on the tables of
  \<open>migrations/0001_init.sql\<close>. The database is not modelled beyond that: whether a call fails, and with what, is an
  argument of every operation; a transaction that fails leaves the tables as they were but may have drawn numbers from the
  sequence of the event log; and the collation by which texts are ordered is an argument of the queries that order by an identifier.
  A time stamp is stored in whole microseconds, a currency is padded to three characters, \<open>NULL\<close> and the empty text of
  an identifier are exchanged on the way in and out. Attributes are a map in the model, which a nil and an empty map of Go both are,
  so \<open>nonNil\<close> has nothing to do; JSON in and out of a column gives the same value back.
\<close>

subsection \<open>Tables\<close>

record PgStore =
  pg_legs :: "(string, Leg) gomap"
  pg_matches :: "(string, Match) gomap"
  pg_breaks :: "(string, Break) gomap"
  pg_events :: "Event list"
  pg_seq :: int

definition trunc_us :: "Time \<Rightarrow> Time" where
  "trunc_us t = t div 1000 * 1000"

definition trunc_day :: "Date \<Rightarrow> Date" where
  "trunc_day d = Date (dtime d div day_ns * day_ns)"

definition char3 :: "string \<Rightarrow> string" where
  "char3 s = s @ replicate (3 - length s) CHR '' ''"

definition tierSmallInt :: "int \<Rightarrow> int" where
  "tierSmallInt t = (if t > 32767 then 32767 else if t < - 32768 then - 32768 else t)"

text \<open>The values that the statements of \<open>Apply\<close> bind.\<close>

definition leg_row :: "Leg \<Rightarrow> Leg" where
  "leg_row l =
     l\<lparr>Currency := char3 (Currency l), ValueDate := trunc_day (ValueDate l), IngestedAt := trunc_us (IngestedAt l)\<rparr>"

definition match_row :: "Match \<Rightarrow> Match" where
  "match_row m = m\<lparr>MCurrency := char3 (MCurrency m), MatchedAt := trunc_us (MatchedAt m)\<rparr>"

definition break_row :: "Break \<Rightarrow> Break" where
  "break_row b =
     b\<lparr>BCurrency := char3 (BCurrency b), OpenedAt := trunc_us (OpenedAt b),
       ResolvedAt := map_option trunc_us (ResolvedAt b), AgeSeconds := 0\<rparr>"

subsection \<open>Writes\<close>

definition insert_leg :: "Leg \<Rightarrow> PgStore \<Rightarrow> PgStore" where
  "insert_leg l s =
     (let row = (case gm_get (pg_legs s) (ID l) of
                   None \<Rightarrow> leg_row l
                 | Some old \<Rightarrow> old\<lparr>Status := Status l, MatchID := MatchID l, BreakID := BreakID l\<rparr>)
      in s\<lparr>pg_legs := gm_put (ID l) row (pg_legs s)\<rparr>)"

definition insert_match :: "Match \<Rightarrow> PgStore \<Rightarrow> PgStore" where
  "insert_match m s =
     (case gm_get (pg_matches s) (MID m) of
        None \<Rightarrow> s\<lparr>pg_matches := gm_put (MID m) (match_row m) (pg_matches s)\<rparr>
      | Some _ \<Rightarrow> s)"

definition insert_break :: "Break \<Rightarrow> PgStore \<Rightarrow> PgStore" where
  "insert_break b s =
     (let row = (case gm_get (pg_breaks s) (BID b) of
                   None \<Rightarrow> break_row b
                 | Some old \<Rightarrow>
                     old\<lparr>BStatus := BStatus b, ResolvedAt := map_option trunc_us (ResolvedAt b), BReason := BReason b,
                         BActor := BActor b\<rparr>)
      in s\<lparr>pg_breaks := gm_put (BID b) row (pg_breaks s)\<rparr>)"

definition insert_event :: "Event \<Rightarrow> PgStore \<Rightarrow> PgStore" where
  "insert_event ev s =
     s\<lparr>pg_events := pg_events s @ [ev\<lparr>Seq := pg_seq s + 1, At := trunc_us (At ev)\<rparr>], pg_seq := pg_seq s + 1\<rparr>"

text \<open>
  A transaction: its failure comes with the numbers it drew from the sequence, which are not given back.
\<close>

definition pg_Apply :: "(goerr \<times> nat) option \<Rightarrow> PgStore \<Rightarrow> ChangeSet \<Rightarrow> goerr option \<times> PgStore" where
  "pg_Apply fate s cs =
     (if cs_Empty cs then (None, s)
      else
        (case fate of
           Some (err, drawn) \<Rightarrow> (Some err, s\<lparr>pg_seq := pg_seq s + int drawn\<rparr>)
         | None \<Rightarrow>
             let s = fold insert_leg (csLegs cs) s;
                 s = fold insert_match (csMatches cs) s;
                 s = fold insert_break (csBreaks cs) s;
                 s = fold insert_event (csEvents cs) s
             in (None, s)))"

definition pg_ResetProjections :: "goerr option \<Rightarrow> PgStore \<Rightarrow> goerr option \<times> PgStore" where
  "pg_ResetProjections fate s =
     (case fate of
        Some err \<Rightarrow> (Some err, s)
      | None \<Rightarrow> (None, s\<lparr>pg_legs := [], pg_matches := [], pg_breaks := []\<rparr>))"

subsection \<open>Reads\<close>

definition scanLeg :: "Leg \<Rightarrow> Leg" where
  "scanLeg l = l\<lparr>Currency := TrimSpace (Currency l)\<rparr>"

definition scanBreak :: "Break \<Rightarrow> Break" where
  "scanBreak b = b\<lparr>BCurrency := TrimSpace (BCurrency b)\<rparr>"

definition queried :: "goerr option \<Rightarrow> 'a \<Rightarrow> 'a result" where
  "queried fate x = (case fate of Some err \<Rightarrow> Inl err | None \<Rightarrow> Inr x)"

definition query_row :: "goerr option \<Rightarrow> 'a option \<Rightarrow> 'a result" where
  "query_row fate row =
     (case fate of Some err \<Rightarrow> Inl err | None \<Rightarrow> (case row of None \<Rightarrow> Inl ErrNotFound | Some x \<Rightarrow> Inr x))"

definition pg_HasLeg :: "goerr option \<Rightarrow> PgStore \<Rightarrow> string \<Rightarrow> bool result" where
  "pg_HasLeg fate s i = queried fate (gm_get (pg_legs s) i \<noteq> None)"

definition pg_GetLeg :: "goerr option \<Rightarrow> PgStore \<Rightarrow> string \<Rightarrow> Leg result" where
  "pg_GetLeg fate s i = query_row fate (map_option scanLeg (gm_get (pg_legs s) i))"

definition queryLegs :: "goerr option \<Rightarrow> (string \<Rightarrow> string) \<Rightarrow> PgStore \<Rightarrow> (Leg \<Rightarrow> bool) \<Rightarrow> Leg list result" where
  "queryLegs fate coll s cond =
     queried fate (map scanLeg (sort_key (\<lambda>l. (IngestedAt l, coll (ID l))) (filter cond (map snd (pg_legs s)))))"

definition pg_LegsByTxnRef :: "goerr option \<Rightarrow> (string \<Rightarrow> string) \<Rightarrow> PgStore \<Rightarrow> string \<Rightarrow> Leg list result" where
  "pg_LegsByTxnRef fate coll s ref = queryLegs fate coll s (\<lambda>l. TxnRef l = ref)"

definition pg_OpenLegs :: "goerr option \<Rightarrow> (string \<Rightarrow> string) \<Rightarrow> PgStore \<Rightarrow> Leg list result" where
  "pg_OpenLegs fate coll s = queryLegs fate coll s (\<lambda>l. Status l = ''open'')"

definition pg_GetMatch :: "goerr option \<Rightarrow> PgStore \<Rightarrow> string \<Rightarrow> Match result" where
  "pg_GetMatch fate s i =
     query_row fate (map_option (\<lambda>m. m\<lparr>MCurrency := TrimSpace (MCurrency m)\<rparr>) (gm_get (pg_matches s) i))"

definition pg_GetBreak :: "goerr option \<Rightarrow> PgStore \<Rightarrow> string \<Rightarrow> Break result" where
  "pg_GetBreak fate s i = query_row fate (map_option scanBreak (gm_get (pg_breaks s) i))"

text \<open>A comparison of fixed-width characters ignores trailing blanks.\<close>

definition bpchar_eq :: "string \<Rightarrow> string \<Rightarrow> bool" where
  "bpchar_eq a b \<longleftrightarrow> dropWhile (\<lambda>c. c = CHR '' '') (rev a) = dropWhile (\<lambda>c. c = CHR '' '') (rev b)"

definition where_clause :: "BreakFilter \<Rightarrow> Time \<Rightarrow> Break \<Rightarrow> bool" where
  "where_clause f now b \<longleftrightarrow>
     (f_Status f \<noteq> '''' \<longrightarrow> BStatus b = f_Status f) \<and>
     (f_Category f \<noteq> '''' \<longrightarrow> BCategory b = f_Category f) \<and>
     (f_Currency f \<noteq> '''' \<longrightarrow> bpchar_eq (BCurrency b) (f_Currency f)) \<and>
     (f_Counterparty f \<noteq> '''' \<longrightarrow> BCounterparty b = f_Counterparty f) \<and>
     (f_MinAge f > 0 \<longrightarrow> (case ResolvedAt b of None \<Rightarrow> now | Some t \<Rightarrow> t) - OpenedAt b \<ge> trunc_us (f_MinAge f))"

definition pg_ListBreaks ::
    "goerr option \<Rightarrow> (string \<Rightarrow> string) \<Rightarrow> PgStore \<Rightarrow> Time \<Rightarrow> BreakFilter \<Rightarrow> Break list result" where
  "pg_ListBreaks fate coll s now f =
     (let rows = sort_key (\<lambda>b. (OpenedAt b, coll (BID b))) (filter (where_clause f now) (map snd (pg_breaks s)));
          rows = (if f_Offset f > 0 then drop (nat (f_Offset f)) rows else rows);
          rows = (if f_Limit f > 0 then take (nat (f_Limit f)) rows else rows)
      in queried fate (map scanBreak rows))"

definition pg_EventsFrom :: "goerr option \<Rightarrow> PgStore \<Rightarrow> int \<Rightarrow> int \<Rightarrow> Event list result" where
  "pg_EventsFrom fate s from limit =
     (let limit = (if limit \<le> 0 then 100 else limit)
      in queried fate (take (nat limit) (sort_key Seq (filter (\<lambda>ev. Seq ev \<ge> from) (pg_events s)))))"

definition pg_LastSeq :: "goerr option \<Rightarrow> PgStore \<Rightarrow> int result" where
  "pg_LastSeq fate s = queried fate (if pg_events s = [] then 0 else Max (set (map Seq (pg_events s))))"

subsection \<open>Statistics\<close>

definition groupCount :: "('a \<Rightarrow> string) \<Rightarrow> 'a list \<Rightarrow> (string, int) gomap" where
  "groupCount key rows =
     fold (\<lambda>k m. gm_put k (int (length (filter (\<lambda>r. key r = k) rows))) m) (remdups (map key rows)) []"

definition pg_stats :: "PgStore \<Rightarrow> Stats" where
  "pg_stats s =
     (let legs = map snd (pg_legs s); matches = map snd (pg_matches s); breaks = map snd (pg_breaks s);
          open = filter (\<lambda>b. BStatus b = ''open'') breaks;
          n = (\<lambda>st. int (length (filter (\<lambda>l. Status l = st) legs)));
          byTier = groupCount (\<lambda>m. ''T'' @ FormatInt (tierSmallInt (tier_int (MTier m)))) matches;
          st = \<lparr>LegsTotal = int (length legs), LegsOpen = n ''open'', LegsMatched = n ''matched'', LegsInBreak = n ''break'',
                MatchesTotal = sum_list (map snd byTier), MatchesByTier = byTier,
                MatchesByRule = groupCount MRuleID matches, BreaksOpen = int (length open),
                BreaksResolved = int (length (filter (\<lambda>b. BStatus b = ''resolved'') breaks)),
                BreaksByCat = groupCount BCategory open, EventsTotal = int (length (pg_events s)), AutoMatchRate = 0,
                LegsBySource = groupCount Source legs,
                OldestOpenBreak = (if open = [] then None else Some (Min (set (map OpenedAt open))))\<rparr>;
          den = LegsMatched st + LegsInBreak st
      in if den > 0 then st\<lparr>AutoMatchRate := f64 (f64_of_int64 (LegsMatched st) / f64_of_int64 den)\<rparr> else st)"

text \<open>Seven queries; the first that fails ends it.\<close>

definition pg_Stats :: "(nat \<Rightarrow> goerr option) \<Rightarrow> PgStore \<Rightarrow> Stats result" where
  "pg_Stats fate s =
     (case find (\<lambda>n. fate n \<noteq> None) [0 ..< 7] of
        Some n \<Rightarrow> Inl (the (fate n))
      | None \<Rightarrow> Inr (pg_stats s))"

subsection \<open>Agreement with the memory store\<close>

text \<open>
  What the tables hold of a projection: the rows of its legs, matches and breaks, and its events in order, numbered by the sequence.
\<close>

definition event_row :: "Event \<Rightarrow> Event" where
  "event_row ev = ev\<lparr>Seq := 0, At := trunc_us (At ev)\<rparr>"

definition agrees :: "PgStore \<Rightarrow> Proj \<Rightarrow> bool" where
  "agrees s p \<longleftrightarrow>
     gm_get (pg_legs s) = map_option leg_row \<circ> p_legs p \<and> gm_get (pg_matches s) = map_option match_row \<circ> p_matches p \<and>
     gm_get (pg_breaks s) = map_option break_row \<circ> p_breaks p \<and> map event_row (pg_events s) = map event_row (p_events p)"

text \<open>
  A change set as the engine makes them: every leg, match and break once, and of what is stored already only the fields change that
  the statements update.
\<close>

definition break_update :: "Break \<Rightarrow> Break \<Rightarrow> Break" where
  "break_update b old = old\<lparr>BStatus := BStatus b, ResolvedAt := ResolvedAt b, BReason := BReason b, BActor := BActor b\<rparr>"

definition updates_only :: "ChangeSet \<Rightarrow> Proj \<Rightarrow> bool" where
  "updates_only cs p \<longleftrightarrow>
     distinct (map ID (csLegs cs)) \<and> distinct (map MID (csMatches cs)) \<and> distinct (map BID (csBreaks cs)) \<and>
     (\<forall>l \<in> set (csLegs cs). \<forall>old. p_legs p (ID l) = Some old \<longrightarrow> l = leg_update l old) \<and>
     (\<forall>m \<in> set (csMatches cs). \<forall>old. p_matches p (MID m) = Some old \<longrightarrow> m = old) \<and>
     (\<forall>b \<in> set (csBreaks cs). \<forall>old. p_breaks p (BID b) = Some old \<longrightarrow> b = break_update b old)"

text \<open>Tables in order: one row per key, and sequence numbers that grow and have been drawn.\<close>

definition pg_ok :: "PgStore \<Rightarrow> bool" where
  "pg_ok s \<longleftrightarrow>
     gm_ok (pg_legs s) \<and> gm_ok (pg_matches s) \<and> gm_ok (pg_breaks s) \<and> sorted_wrt (<) (map Seq (pg_events s)) \<and>
     (\<forall>ev \<in> set (pg_events s). 0 < Seq ev \<and> Seq ev \<le> pg_seq s) \<and> 0 \<le> pg_seq s"

lemma leg_row_update: "leg_row (leg_update l old) = (leg_row old)\<lparr>Status := Status l, MatchID := MatchID l, BreakID := BreakID l\<rparr>"
  by (simp add: leg_row_def leg_update_def)

lemma break_row_update: "break_row (break_update b old) =
    (break_row old)\<lparr>BStatus := BStatus b, ResolvedAt := map_option trunc_us (ResolvedAt b), BReason := BReason b, BActor := BActor b\<rparr>"
  by (simp add: break_row_def break_update_def)

text \<open>A sequence of upserts with different keys, each of which stores the row of its value.\<close>

primrec put_rows :: "('a \<Rightarrow> string) \<Rightarrow> ('a \<Rightarrow> 'b) \<Rightarrow> 'a list \<Rightarrow> (string \<rightharpoonup> 'b) \<Rightarrow> (string \<rightharpoonup> 'b)" where
  "put_rows key row [] m = m"
| "put_rows key row (x # xs) m = put_rows key row xs (m(key x \<mapsto> row x))"

lemma fold_rows:
  assumes "distinct (map key xs)" "\<And>x. x \<in> set xs \<Longrightarrow> keep (tab s) x"
    and step: "\<And>s x. keep (tab s) x \<Longrightarrow> \<exists>t. ins x s = upd t s \<and> gm_get t = (gm_get (tab s))(key x \<mapsto> row x) \<and> (gm_ok (tab s) \<longrightarrow> gm_ok t)"
    and keep: "\<And>t t' x y. keep t y \<Longrightarrow> key y \<noteq> key x \<Longrightarrow> gm_get t' = (gm_get t)(key x \<mapsto> row x) \<Longrightarrow> keep t' y"
    and lens: "\<And>t s. tab (upd t s) = t" "\<And>t t' s. upd t (upd t' s) = upd t s" "\<And>s. upd (tab s) s = s"
  shows "\<exists>t. fold ins xs s = upd t s \<and> gm_get t = put_rows key row xs (gm_get (tab s)) \<and> (gm_ok (tab s) \<longrightarrow> gm_ok t)"
  using assms(1,2)
proof (induction xs arbitrary: s)
  case Nil
  then show ?case by (intro exI [of _ "tab s"]) (simp add: lens)
next
  case (Cons x xs)
  obtain t where t: "ins x s = upd t s" "gm_get t = (gm_get (tab s))(key x \<mapsto> row x)" "gm_ok (tab s) \<longrightarrow> gm_ok t"
    using step [of s x] Cons.prems(2) by auto
  have "key y \<noteq> key x" if "y \<in> set xs" for y
    using that Cons.prems(1) by (metis distinct.simps(2) image_eqI list.simps(9) set_map)
  then have "keep (tab (upd t s)) y" if "y \<in> set xs" for y
    using that Cons.prems(2) keep [OF _ _ t(2)] by (simp add: lens)
  then obtain t' where t': "fold ins xs (upd t s) = upd t' (upd t s)"
      "gm_get t' = put_rows key row xs (gm_get (tab (upd t s)))" "gm_ok (tab (upd t s)) \<longrightarrow> gm_ok t'"
    using Cons.IH [of "upd t s"] Cons.prems(1) by (simp only: list.map distinct.simps) blast
  have "fold ins (x # xs) s = upd t' s" using t(1) t'(1) by (simp add: lens)
  moreover have "gm_get t' = put_rows key row (x # xs) (gm_get (tab s))"
    unfolding t'(2) lens t(2) by simp
  ultimately show ?case using t(3) t'(3) lens(1) by auto
qed

lemma rows_upsert:
  "m = map_option row \<circ> p \<Longrightarrow> put_rows key row xs m = map_option row \<circ> upsert key xs p"
proof (induction xs arbitrary: m p)
  case (Cons x xs)
  have "m(key x \<mapsto> row x) = map_option row \<circ> p(key x \<mapsto> x)" using Cons.prems by (auto simp: fun_eq_iff)
  then show ?case using Cons.IH [of "m(key x \<mapsto> row x)" "p(key x \<mapsto> x)"] by (simp only: put_rows.simps upsert_Cons)
qed simp

lemma insert_legs:
  assumes "distinct (map ID ls)" "gm_get (pg_legs s) = map_option leg_row \<circ> p"
    and "\<forall>l \<in> set ls. \<forall>old. p (ID l) = Some old \<longrightarrow> l = leg_update l old"
  shows "\<exists>t. fold insert_leg ls s = s\<lparr>pg_legs := t\<rparr> \<and> gm_get t = map_option leg_row \<circ> upsert ID ls p \<and>
    (gm_ok (pg_legs s) \<longrightarrow> gm_ok t)"
proof -
  define keep where "keep t l \<longleftrightarrow> (\<forall>old. gm_get t (ID l) = Some old \<longrightarrow>
      leg_row l = old\<lparr>Status := Status l, MatchID := MatchID l, BreakID := BreakID l\<rparr>)" for t :: "(string, Leg) gomap" and l
  have k: "keep (pg_legs s) l" if "l \<in> set ls" for l
    unfolding keep_def assms(2) using assms(3) that by (clarsimp, metis leg_row_update)
  have "\<exists>t. insert_leg l s = s\<lparr>pg_legs := t\<rparr> \<and> gm_get t = (gm_get (pg_legs s))(ID l \<mapsto> leg_row l) \<and> (gm_ok (pg_legs s) \<longrightarrow> gm_ok t)"
    if "keep (pg_legs s) l" for s l
    using that by (intro exI [of _ "gm_put (ID l) (leg_row l) (pg_legs s)"])
      (auto simp: insert_leg_def Let_def keep_def split: option.split)
  from fold_rows [where tab = pg_legs and upd = "\<lambda>t. pg_legs_update (\<lambda>_. t)" and row = leg_row and keep = keep, OF assms(1) k this]
  show ?thesis unfolding rows_upsert [OF assms(2)] by (auto simp: keep_def)
qed

lemma insert_matches:
  assumes "distinct (map MID ms)" "gm_get (pg_matches s) = map_option match_row \<circ> p"
    and "\<forall>m \<in> set ms. \<forall>old. p (MID m) = Some old \<longrightarrow> m = old"
  shows "\<exists>t. fold insert_match ms s = s\<lparr>pg_matches := t\<rparr> \<and> gm_get t = map_option match_row \<circ> upsert MID ms p \<and>
    (gm_ok (pg_matches s) \<longrightarrow> gm_ok t)"
proof -
  define keep where "keep t m \<longleftrightarrow> (\<forall>old. gm_get t (MID m) = Some old \<longrightarrow> old = match_row m)" for t :: "(string, Match) gomap" and m
  have k: "keep (pg_matches s) m" if "m \<in> set ms" for m
    unfolding keep_def assms(2) using assms(3) that by auto
  have "\<exists>t. insert_match m s = s\<lparr>pg_matches := t\<rparr> \<and> gm_get t = (gm_get (pg_matches s))(MID m \<mapsto> match_row m) \<and>
      (gm_ok (pg_matches s) \<longrightarrow> gm_ok t)"
    if "keep (pg_matches s) m" for s m
  proof (cases "gm_get (pg_matches s) (MID m)")
    case None
    then show ?thesis by (intro exI [of _ "gm_put (MID m) (match_row m) (pg_matches s)"]) (simp add: insert_match_def fun_eq_iff)
  next
    case (Some old)
    then show ?thesis using that by (intro exI [of _ "pg_matches s"]) (auto simp: insert_match_def keep_def)
  qed
  from fold_rows [where tab = pg_matches and upd = "\<lambda>t. pg_matches_update (\<lambda>_. t)" and row = match_row and keep = keep, OF assms(1) k this]
  show ?thesis unfolding rows_upsert [OF assms(2)] by (auto simp: keep_def)
qed

lemma insert_breaks:
  assumes "distinct (map BID bs)" "gm_get (pg_breaks s) = map_option break_row \<circ> p"
    and "\<forall>b \<in> set bs. \<forall>old. p (BID b) = Some old \<longrightarrow> b = break_update b old"
  shows "\<exists>t. fold insert_break bs s = s\<lparr>pg_breaks := t\<rparr> \<and> gm_get t = map_option break_row \<circ> upsert BID bs p \<and>
    (gm_ok (pg_breaks s) \<longrightarrow> gm_ok t)"
proof -
  define keep where "keep t b \<longleftrightarrow> (\<forall>old. gm_get t (BID b) = Some old \<longrightarrow>
      break_row b = old\<lparr>BStatus := BStatus b, ResolvedAt := map_option trunc_us (ResolvedAt b), BReason := BReason b, BActor := BActor b\<rparr>)"
    for t :: "(string, Break) gomap" and b
  have k: "keep (pg_breaks s) b" if "b \<in> set bs" for b
    unfolding keep_def assms(2) using assms(3) that by (clarsimp, metis break_row_update)
  have "\<exists>t. insert_break b s = s\<lparr>pg_breaks := t\<rparr> \<and> gm_get t = (gm_get (pg_breaks s))(BID b \<mapsto> break_row b) \<and>
      (gm_ok (pg_breaks s) \<longrightarrow> gm_ok t)"
    if "keep (pg_breaks s) b" for s b
    using that by (intro exI [of _ "gm_put (BID b) (break_row b) (pg_breaks s)"])
      (auto simp: insert_break_def Let_def keep_def split: option.split)
  from fold_rows [where tab = pg_breaks and upd = "\<lambda>t. pg_breaks_update (\<lambda>_. t)" and row = break_row and keep = keep, OF assms(1) k this]
  show ?thesis unfolding rows_upsert [OF assms(2)] by (auto simp: keep_def)
qed

text \<open>The events of a change set follow the log, numbered from the sequence.\<close>

definition numbered_from :: "int \<Rightarrow> Event list \<Rightarrow> Event list" where
  "numbered_from n evs = map (\<lambda>(i, ev). ev\<lparr>Seq := n + int i + 1, At := trunc_us (At ev)\<rparr>) (enumerate 0 evs)"

lemma insert_events:
  "fold insert_event evs s = s\<lparr>pg_events := pg_events s @ numbered_from (pg_seq s) evs, pg_seq := pg_seq s + int (length evs)\<rparr>"
proof (induction evs rule: rev_induct)
  case (snoc ev evs)
  then show ?case by (simp add: insert_event_def numbered_from_def enumerate_append_eq)
qed (simp add: numbered_from_def)

lemma trunc_us_idem [simp]: "trunc_us (trunc_us t) = trunc_us t"
  by (simp add: trunc_us_def)

lemma numbered_rows:
  "map event_row (numbered_from n evs) = map event_row evs" "map event_row (number_events k evs) = map event_row evs"
  by (rule nth_equalityI; simp add: numbered_from_def number_events_def nth_enumerate_eq event_row_def)+

lemma numbered_bounds: "ev \<in> set (numbered_from n evs) \<Longrightarrow> n < Seq ev \<and> Seq ev \<le> n + int (length evs)"
  by (auto simp: numbered_from_def in_set_enumerate_eq)

lemma numbered_sorted: "sorted_wrt (<) (map Seq (numbered_from n evs))"
  by (simp add: sorted_wrt_iff_nth_less numbered_from_def nth_enumerate_eq)

lemma numbered_log:
  assumes "pg_ok s"
  shows "sorted_wrt (<) (map Seq (pg_events s @ numbered_from (pg_seq s) evs))"
    "\<forall>ev \<in> set (pg_events s @ numbered_from (pg_seq s) evs). 0 < Seq ev \<and> Seq ev \<le> pg_seq s + int (length evs)"
proof -
  have old: "0 < Seq ev \<and> Seq ev \<le> pg_seq s" if "ev \<in> set (pg_events s)" for ev using assms that by (auto simp: pg_ok_def)
  have "x < y" if "x \<in> Seq ` set (pg_events s)" "y \<in> Seq ` set (numbered_from (pg_seq s) evs)" for x y
    using that old numbered_bounds [of _ "pg_seq s" evs] by fastforce
  then show "sorted_wrt (<) (map Seq (pg_events s @ numbered_from (pg_seq s) evs))"
    using assms numbered_sorted by (simp add: sorted_wrt_append pg_ok_def)
  show "\<forall>ev \<in> set (pg_events s @ numbered_from (pg_seq s) evs). 0 < Seq ev \<and> Seq ev \<le> pg_seq s + int (length evs)"
  proof
    fix ev assume "ev \<in> set (pg_events s @ numbered_from (pg_seq s) evs)"
    then show "0 < Seq ev \<and> Seq ev \<le> pg_seq s + int (length evs)"
      using old [of ev] numbered_bounds [of ev "pg_seq s" evs] assms by (auto simp: pg_ok_def)
  qed
qed

lemma pg_frame: "pg_matches (s\<lparr>pg_legs := x\<rparr>) = pg_matches s" "pg_breaks (s\<lparr>pg_legs := x, pg_matches := y\<rparr>) = pg_breaks s"
  by simp_all

lemma pg_Apply_agrees:
  assumes "agrees s p" "pg_ok s" "updates_only cs p" "\<not> cs_Empty cs" "pg_Apply None s cs = (err, s')"
  shows "err = None \<and> pg_ok s' \<and> agrees s' (apply_spec cs p)"
proof -
  note a = assms(1) [unfolded agrees_def] and u = assms(3) [unfolded updates_only_def]
  obtain ls where s1: "fold insert_leg (csLegs cs) s = s\<lparr>pg_legs := ls\<rparr>" "gm_get ls = map_option leg_row \<circ> upsert ID (csLegs cs) (p_legs p)"
      "gm_ok (pg_legs s) \<longrightarrow> gm_ok ls"
    using insert_legs [of "csLegs cs" s "p_legs p"] a u by blast
  obtain ms where s2: "fold insert_match (csMatches cs) (s\<lparr>pg_legs := ls\<rparr>) = s\<lparr>pg_legs := ls, pg_matches := ms\<rparr>"
      "gm_get ms = map_option match_row \<circ> upsert MID (csMatches cs) (p_matches p)" "gm_ok (pg_matches s) \<longrightarrow> gm_ok ms"
    using insert_matches [of "csMatches cs" "s\<lparr>pg_legs := ls\<rparr>" "p_matches p", unfolded pg_frame] a u by blast
  obtain bs where s3: "fold insert_break (csBreaks cs) (s\<lparr>pg_legs := ls, pg_matches := ms\<rparr>) =
        s\<lparr>pg_legs := ls, pg_matches := ms, pg_breaks := bs\<rparr>"
      "gm_get bs = map_option break_row \<circ> upsert BID (csBreaks cs) (p_breaks p)" "gm_ok (pg_breaks s) \<longrightarrow> gm_ok bs"
    using insert_breaks [of "csBreaks cs" "s\<lparr>pg_legs := ls, pg_matches := ms\<rparr>" "p_breaks p", unfolded pg_frame] a u by blast
  have s': "err = None" "s' = s\<lparr>pg_legs := ls, pg_matches := ms, pg_breaks := bs,
       pg_events := pg_events s @ numbered_from (pg_seq s) (csEvents cs), pg_seq := pg_seq s + int (length (csEvents cs))\<rparr>"
    using assms(4,5) by (simp_all add: pg_Apply_def Let_def s1(1) s2(1) s3(1) insert_events)
  have "pg_ok s'" using assms(2) numbered_log [OF assms(2)] s1(3) s2(3) s3(3) by (simp add: pg_ok_def s'(2))
  moreover have "agrees s' (apply_spec cs p)" using a s1(2) s2(2) s3(2) by (simp add: agrees_def s'(2) apply_spec_def numbered_rows comp_def)
  ultimately show ?thesis using s'(1) by simp
qed

lemma agrees_seq: "agrees (s\<lparr>pg_seq := n\<rparr>) p \<longleftrightarrow> agrees s p"
  by (simp add: agrees_def)

lemma nothing_applied: "cs_Empty cs \<Longrightarrow> apply_spec cs p = p"
  by (simp add: apply_spec_def cs_Empty_def number_events_def)

lemma updates_only_legs: "updates_only cs p \<Longrightarrow> updates_legs cs p"
  by (simp add: updates_only_def updates_legs_def)

subsection \<open>Reading back\<close>

text \<open>A currency of three capital letters, a date at midnight and a time of whole microseconds come back as they went in.\<close>

definition micro :: "Time \<Rightarrow> bool" where
  "micro t \<longleftrightarrow> t mod 1000 = 0"

definition iso_currency :: "string \<Rightarrow> bool" where
  "iso_currency c \<longleftrightarrow> length c = 3 \<and> upper_word c"

definition stored_well :: "Proj \<Rightarrow> bool" where
  "stored_well p \<longleftrightarrow>
     (\<forall>i l. p_legs p i = Some l \<longrightarrow> iso_currency (Currency l) \<and> at_midnight (ValueDate l)) \<and>
     (\<forall>i m. p_matches p i = Some m \<longrightarrow> iso_currency (MCurrency m)) \<and>
     (\<forall>i b. p_breaks p i = Some b \<longrightarrow> iso_currency (BCurrency b) \<and> AgeSeconds b = 0)"

definition leg_us :: "Leg \<Rightarrow> Leg" where
  "leg_us l = l\<lparr>IngestedAt := trunc_us (IngestedAt l)\<rparr>"

definition match_us :: "Match \<Rightarrow> Match" where
  "match_us m = m\<lparr>MatchedAt := trunc_us (MatchedAt m)\<rparr>"

definition break_us :: "Break \<Rightarrow> Break" where
  "break_us b = b\<lparr>OpenedAt := trunc_us (OpenedAt b), ResolvedAt := map_option trunc_us (ResolvedAt b)\<rparr>"

lemma trunc_us_micro [simp]: "micro t \<Longrightarrow> trunc_us t = t"
  by (simp add: micro_def trunc_us_def) (metis add.right_neutral div_mult_mod_eq)

lemma char3_iso: "iso_currency c \<Longrightarrow> char3 c = c \<and> TrimSpace c = c"
  by (simp add: iso_currency_def char3_def TrimSpace_upper_word)

lemma scan_leg_row: "iso_currency (Currency l) \<Longrightarrow> at_midnight (ValueDate l) \<Longrightarrow> scanLeg (leg_row l) = leg_us l"
  using char3_iso [of "Currency l"] midnight_eq [of "ValueDate l"]
  by (simp add: leg_row_def scanLeg_def trunc_day_def day_of_def leg_us_def)

lemma scan_match_row: "iso_currency (MCurrency m) \<Longrightarrow> (match_row m)\<lparr>MCurrency := TrimSpace (MCurrency (match_row m))\<rparr> = match_us m"
  using char3_iso [of "MCurrency m"] by (simp add: match_row_def match_us_def)

lemma scan_break_row: "iso_currency (BCurrency b) \<Longrightarrow> AgeSeconds b = 0 \<Longrightarrow> scanBreak (break_row b) = break_us b"
  using char3_iso [of "BCurrency b"] by (simp add: break_row_def scanBreak_def break_us_def)

lemma break_us_micro: "micro (OpenedAt b) \<Longrightarrow> \<forall>t. ResolvedAt b = Some t \<longrightarrow> micro t \<Longrightarrow> break_us b = b"
  by (cases "ResolvedAt b") (simp_all add: break_us_def)

lemma query_row_lookup:
  assumes "gm_get t i = map_option row (gm_get m i)" "\<And>x. gm_get m i = Some x \<Longrightarrow> scan (row x) = seen x"
  shows "query_row None (map_option scan (gm_get t i)) = map_sum (\<lambda>e. e) seen (lookup m i)"
  using assms by (cases "gm_get m i") (simp_all add: query_row_def lookup_def)

lemma pg_queryLegs_set:
  assumes "pg_ok s" "agrees s p" "stored_well p" "\<And>l. cond (leg_row l) = cond l"
  shows "\<exists>ls. queryLegs None coll s cond = Inr ls \<and> set ls = leg_us ` {l. \<exists>i. p_legs p i = Some l \<and> cond l}"
proof -
  have g: "gm_ok (pg_legs s)" "gm_get (pg_legs s) = map_option leg_row \<circ> p_legs p" using assms(1,2) by (simp_all add: pg_ok_def agrees_def comp_def)
  have "set (filter cond (map snd (pg_legs s))) = leg_row ` {l. \<exists>i. p_legs p i = Some l \<and> cond l}"
    unfolding set_filter gm_vals [OF g(1)] g(2) ran_def using assms(4) by auto
  moreover have "scanLeg ` leg_row ` {l. \<exists>i. p_legs p i = Some l \<and> cond l} = leg_us ` {l. \<exists>i. p_legs p i = Some l \<and> cond l}"
    unfolding image_image using assms(3) by (intro image_cong refl scan_leg_row) (auto simp: stored_well_def)
  ultimately show ?thesis by (simp add: queryLegs_def queried_def)
qed

lemma bpchar_eq_iso: "iso_currency a \<Longrightarrow> iso_currency b \<Longrightarrow> bpchar_eq a b \<longleftrightarrow> a = b"
proof -
  have "dropWhile (\<lambda>c. c = CHR '' '') (rev x) = rev x" if "upper_word x" for x
  proof (cases "rev x")
    case (Cons c cs)
    then have "c \<in> set x" by (metis list.set_intros(1) set_rev)
    then have "c \<noteq> CHR '' ''" using that by (auto simp: upper_word_def less_eq_char_def)
    then show ?thesis by (simp add: Cons)
  qed simp
  then show "iso_currency a \<Longrightarrow> iso_currency b \<Longrightarrow> ?thesis" by (simp add: bpchar_eq_def iso_currency_def)
qed

lemma where_clause_passes:
  assumes "iso_currency (BCurrency b)" "f_Currency f = '''' \<or> iso_currency (f_Currency f)" "micro (f_MinAge f)" "f_MinAge f < 2 ^ 63"
  shows "where_clause f now b \<longleftrightarrow> break_passes f now b"
proof -
  have "f_MinAge f \<le> e - OpenedAt b \<longleftrightarrow> \<not> time_sub e (OpenedAt b) < f_MinAge f" if "0 < f_MinAge f" for e
    using that assms(4) by (auto simp: time_sub_def)
  then have "f_MinAge f > 0 \<Longrightarrow> ((case ResolvedAt b of None \<Rightarrow> now | Some t \<Rightarrow> t) - OpenedAt b \<ge> f_MinAge f) =
      (\<not> Age b now < f_MinAge f)"
    by (simp add: Age_def Let_def)
  moreover have "f_Currency f \<noteq> '''' \<Longrightarrow> bpchar_eq (BCurrency b) (f_Currency f) \<longleftrightarrow> BCurrency b = f_Currency f"
    using assms(1,2) bpchar_eq_iso by auto
  ultimately show ?thesis
    using assms(3) by (simp add: where_clause_def break_passes_def) blast
qed

lemma page_eq:
  "(if off > 0 \<and> off \<ge> int (length out) then Inr []
    else let out = (if off > 0 then drop (nat off) out else out);
             out = (if n > 0 \<and> int (length out) > n then take (nat n) out else out) in Inr out) =
   Inr (let out = (if off > 0 then drop (nat off) out else out) in if n > 0 then take (nat n) out else out)"
  by (auto simp: Let_def)

lemma pg_ListBreaks_mem:
  assumes "pg_ok s" "mem_ok m" "agrees s (mem_proj m)" "stored_well (mem_proj m)"
    "\<forall>i b. p_breaks (mem_proj m) i = Some b \<longrightarrow> break_us b = b"
    "f_Currency f = '''' \<or> iso_currency (f_Currency f)" "micro (f_MinAge f)" "f_MinAge f < 2 ^ 63"
  shows "pg_ListBreaks None (\<lambda>i. i) s now f = mem_ListBreaks m now f"
proof -
  let ?key = "\<lambda>b. (OpenedAt b, BID b)"
  have own: "break_row b = b \<and> scanBreak b = b \<and> iso_currency (BCurrency b) \<and> BID b = i"
    if "gm_get (st_breaks m) i = Some b" for i b
  proof -
    have b: "iso_currency (BCurrency b)" "AgeSeconds b = 0" "break_us b = b" "BID b = i"
      using that assms(2,4,5) by (auto simp: stored_well_def mem_ok_def)
    then have "break_row b = break_us b" using char3_iso [of "BCurrency b"] by (simp add: break_row_def break_us_def)
    then show ?thesis using b scan_break_row [of b] by simp
  qed
  have g: "gm_ok (pg_breaks s)" "gm_ok (st_breaks m)" "gm_get (pg_breaks s) = gm_get (st_breaks m)"
  proof -
    show "gm_ok (pg_breaks s)" "gm_ok (st_breaks m)" using assms(1,2) by (simp_all add: pg_ok_def mem_ok_def)
    have "gm_get (pg_breaks s) i = map_option break_row (gm_get (st_breaks m) i)" for i
      using assms(3) by (simp add: agrees_def)
    then show "gm_get (pg_breaks s) = gm_get (st_breaks m)"
      using own by (intro ext) (metis not_Some_eq option.map(1,2))
  qed
  have row: "scanBreak b = b \<and> iso_currency (BCurrency b) \<and> gm_get (st_breaks m) (BID b) = Some b" if "b \<in> set (map snd (pg_breaks s))" for b
    using that own unfolding gm_vals [OF g(1)] g(3) ran_def by fastforce
  have w: "filter (where_clause f now) (map snd (pg_breaks s)) = filter (break_passes f now) (map snd (pg_breaks s))"
    using row where_clause_passes [OF _ assms(6-8)] by (intro filter_cong) blast+
  have "mset (map snd (pg_breaks s)) = mset (map snd (st_breaks m))"
    using gm_mset_eq [OF g] by (metis mset_map)
  moreover have "inj_on ?key (set (map snd (pg_breaks s)))"
    by (rule inj_onI) (metis Pair_inject option.inject row)
  ultimately have sorted: "sort_key ?key (filter (break_passes f now) (map snd (pg_breaks s))) =
      sort_key ?key (filter (break_passes f now) (map snd (st_breaks m)))"
    by (intro sort_key_eq_sort_key) (auto simp: inj_on_def)
  have scan: "map scanBreak xs = xs" if "set xs \<subseteq> set (map snd (pg_breaks s))" for xs
    using that row by (intro map_idI) blast
  show ?thesis
    unfolding pg_ListBreaks_def mem_ListBreaks_def w sorted [symmetric] page_eq queried_def Let_def
    by (simp, intro conjI impI scan) (auto dest!: in_set_takeD in_set_dropD)
qed

subsection \<open>Properties\<close>

text \<open>
  C33: \<open>Store.Apply\<close> of the PostgreSQL store against that of the memory store. Two stores that agree, given the same change set: if the
  transaction commits, they agree again; if it fails, the tables still hold what they held, whatever it drew from the sequence; either way
  the log stays strictly ordered by sequence number. A transaction fails only if the database makes it fail and there is something to write.
\<close>

theorem pg_apply_simulates:
  assumes "pg_ok s" and "mem_ok m" and "agrees s (mem_proj m)" and "updates_only cs (mem_proj m)"
  shows "case pg_Apply fate s cs of (err, s') \<Rightarrow>
    pg_ok s' \<and> agrees s' (mem_proj (if err = None then snd (mem_Apply m cs) else m)) \<and>
    err = (if cs_Empty cs then None else map_option fst fate)"
proof -
  have mem: "mem_proj (snd (mem_Apply m cs)) = apply_spec cs (mem_proj m)"
    using mem_Apply_refines [OF assms(2) updates_keep_refs [OF updates_only_legs [OF assms(4)]]] by (cases "mem_Apply m cs") simp
  show ?thesis
  proof (cases "cs_Empty cs")
    case True
    then show ?thesis using assms(1,3) mem by (simp add: pg_Apply_def nothing_applied)
  next
    case nonempty: False
    show ?thesis
    proof (cases fate)
      case None
      obtain err s' where a: "pg_Apply None s cs = (err, s')" by (cases "pg_Apply None s cs")
      show ?thesis using pg_Apply_agrees [OF assms(3,1,4) nonempty a] mem nonempty by (simp add: a None)
    next
      case (Some e)
      obtain err n where e: "e = (err, n)" by (cases e)
      have "pg_ok (s\<lparr>pg_seq := pg_seq s + int n\<rparr>)" using assms(1) by (fastforce simp: pg_ok_def)
      then show ?thesis using assms(3) nonempty by (simp add: Some e pg_Apply_def agrees_seq)
    qed
  qed
qed

definition pg_empty :: PgStore where
  "pg_empty = \<lparr>pg_legs = [], pg_matches = [], pg_breaks = [], pg_events = [], pg_seq = 0\<rparr>"

theorem pg_apply_simulates_witness:
  "let cs = empty_cs\<lparr>csLegs := [(plain_leg ''rail'' ''R1'' 100 ''VISA'' [])\<lparr>ID := ''rail:R1'', IngestedAt := 1500\<rparr>]\<rparr>;
       s' = snd (pg_Apply None pg_empty cs)
   in map_option IngestedAt (gm_get (pg_legs s') ''rail:R1'') = Some 1000 \<and> agrees s' (mem_proj (snd (mem_Apply NewStore cs)))"
proof -
  let ?l = "(plain_leg ''rail'' ''R1'' 100 ''VISA'' [])\<lparr>ID := ''rail:R1'', IngestedAt := 1500\<rparr>"
  let ?cs = "empty_cs\<lparr>csLegs := [?l]\<rparr>"
  have ok: "pg_ok pg_empty" "mem_ok NewStore" "agrees pg_empty (mem_proj NewStore)"
    by (simp_all add: pg_ok_def pg_empty_def agrees_def mem_ok_def NewStore_def refs_ok_def seqs_ok_def gm_inner_def fun_eq_iff)
  have u: "updates_only ?cs (mem_proj NewStore)"
    by (simp add: updates_only_def empty_cs_def NewStore_def)
  have e: "pg_Apply None pg_empty ?cs = (None, pg_empty\<lparr>pg_legs := [(''rail:R1'', leg_row ?l)]\<rparr>)"
    by (simp add: pg_Apply_def cs_Empty_def empty_cs_def insert_leg_def pg_empty_def)
  show ?thesis using pg_apply_simulates [OF ok u, of None] unfolding Let_def e
    by (simp add: pg_empty_def leg_row_def trunc_us_def)
qed

text \<open>
  C34: reading from the PostgreSQL store gives what reading from an agreeing memory store gives, with times cut to whole microseconds:
  the lookups by identifier, and the legs of a reference and the open legs as sets. With the byte order as collation and breaks whose
  times are whole microseconds, \<open>ListBreaks\<close> returns the same page for every filter with a well-formed currency and age.
\<close>

theorem pg_reads_agree:
  assumes "pg_ok s" and "mem_ok m" and "agrees s (mem_proj m)" and "stored_well (mem_proj m)"
  shows "pg_HasLeg None s i = mem_HasLeg m i \<and>
    pg_GetLeg None s i = map_sum (\<lambda>e. e) leg_us (mem_GetLeg m i) \<and>
    pg_GetMatch None s i = map_sum (\<lambda>e. e) match_us (mem_GetMatch m i) \<and>
    pg_GetBreak None s i = map_sum (\<lambda>e. e) break_us (mem_GetBreak m i) \<and>
    (\<exists>ls ls'. pg_LegsByTxnRef None coll s ref = Inr ls \<and> mem_LegsByTxnRef m ref = Inr ls' \<and> set ls = leg_us ` set ls') \<and>
    (\<exists>ls ls'. pg_OpenLegs None coll s = Inr ls \<and> mem_OpenLegs m = Inr ls' \<and> set ls = leg_us ` set ls') \<and>
    ((\<forall>i b. p_breaks (mem_proj m) i = Some b \<longrightarrow> break_us b = b) \<and> (f_Currency f = '''' \<or> iso_currency (f_Currency f)) \<and>
       micro (f_MinAge f) \<and> f_MinAge f < 2 ^ 63 \<longrightarrow> pg_ListBreaks None (\<lambda>i. i) s now f = mem_ListBreaks m now f)"
proof (intro conjI impI)
  have t: "gm_get (pg_legs s) i = map_option leg_row (gm_get (st_legs m) i)"
    "gm_get (pg_matches s) i = map_option match_row (gm_get (st_matches m) i)"
    "gm_get (pg_breaks s) i = map_option break_row (gm_get (st_breaks m) i)" for i
    using assms(3) by (simp_all add: agrees_def)
  show "pg_HasLeg None s i = mem_HasLeg m i" by (simp add: pg_HasLeg_def queried_def mem_HasLeg_def t)
  show "pg_GetLeg None s i = map_sum (\<lambda>e. e) leg_us (mem_GetLeg m i)" unfolding pg_GetLeg_def mem_GetLeg_def
    by (rule query_row_lookup [OF t(1)], rule scan_leg_row) (use assms(4) in \<open>auto simp: stored_well_def\<close>)
  show "pg_GetMatch None s i = map_sum (\<lambda>e. e) match_us (mem_GetMatch m i)" unfolding pg_GetMatch_def mem_GetMatch_def
    by (rule query_row_lookup [OF t(2)], rule scan_match_row) (use assms(4) in \<open>auto simp: stored_well_def\<close>)
  show "pg_GetBreak None s i = map_sum (\<lambda>e. e) break_us (mem_GetBreak m i)" unfolding pg_GetBreak_def mem_GetBreak_def
    by (rule query_row_lookup [OF t(3)], rule scan_break_row) (use assms(4) in \<open>auto simp: stored_well_def\<close>)
  obtain ls' where ls': "mem_LegsByTxnRef m ref = Inr ls'" by (simp add: mem_LegsByTxnRef_def)
  show "\<exists>ls ls'. pg_LegsByTxnRef None coll s ref = Inr ls \<and> mem_LegsByTxnRef m ref = Inr ls' \<and> set ls = leg_us ` set ls'"
    using pg_queryLegs_set [OF assms(1,3,4), of "\<lambda>l. TxnRef l = ref" coll] mem_LegsByTxnRef_set [OF assms(2) ls'] ls'
    by (simp add: pg_LegsByTxnRef_def leg_row_def)
  have "gm_ok (st_legs m)" using assms(2) by (simp add: mem_ok_def)
  then have "set (filter (\<lambda>l. Status l = LegOpen) (map snd (st_legs m))) = {l. \<exists>i. gm_get (st_legs m) i = Some l \<and> Status l = LegOpen}"
    unfolding set_filter by (subst gm_vals) (auto simp: ran_def)
  then show "\<exists>ls ls'. pg_OpenLegs None coll s = Inr ls \<and> mem_OpenLegs m = Inr ls' \<and> set ls = leg_us ` set ls'"
    using pg_queryLegs_set [OF assms(1,3,4), of "\<lambda>l. Status l = LegOpen" coll]
    by (simp add: pg_OpenLegs_def mem_OpenLegs_def leg_row_def)
qed (rule pg_ListBreaks_mem [OF assms]; blast)

theorem pg_reads_agree_witness:
  "pg_GetBreak None (pg_empty\<lparr>pg_breaks := [(''b'', demo_break ''b'' 0), (''a'', demo_break ''a'' 0)]\<rparr>) ''b'' =
     Inr (demo_break ''b'' 0) \<and> mem_GetBreak demo_store ''b'' = Inr (demo_break ''b'' 9)"
proof -
  let ?s = "pg_empty\<lparr>pg_breaks := [(''b'', demo_break ''b'' 0), (''a'', demo_break ''a'' 0)]\<rparr>"
  have row: "break_row (demo_break i 9) = demo_break i 0" "break_row (demo_break i 5) = demo_break i 0" for i
    by (simp_all add: demo_break_def break_row_def char3_def trunc_us_def)
  have ok: "pg_ok ?s" by (simp add: pg_ok_def pg_empty_def)
  have mok: "mem_ok demo_store"
    by (auto simp: mem_ok_def demo_store_def NewStore_def refs_ok_def seqs_ok_def gm_inner_def demo_break_def
        split: if_splits)
  have ag: "agrees ?s (mem_proj demo_store)"
    by (auto simp: agrees_def demo_store_def NewStore_def pg_empty_def fun_eq_iff row)
  have w: "stored_well (mem_proj demo_store)"
    by (auto simp: stored_well_def demo_store_def NewStore_def demo_break_def iso_currency_def upper_word_def less_eq_char_def split: if_splits)
  have "mem_GetBreak demo_store ''b'' = Inr (demo_break ''b'' 9)" by code_simp
  moreover have "break_us (demo_break ''b'' 9) = demo_break ''b'' 0" by (simp add: demo_break_def break_us_def trunc_us_def)
  ultimately show ?thesis using pg_reads_agree [OF ok mok ag w, of "''b''"] by simp
qed

end
