(* ===== verification/Recon_Mirror.thy ===== *)
theory Recon_Mirror
  imports Recon_Guarantees Recon_Postgres
begin

text \<open>
  The engine over both stores at once. A mirror hands every change set and every reset to the PostgreSQL store and, when that commits, to
  the memory store, from which it reads; a stream of fates decides which transactions fail. The mirror keeps the contract of
  \<open>repository\<close>, so everything that is proved of the engine holds of it; and whatever the engine writes, the tables follow: the upserts of
  \<open>Apply\<close>, which leave most columns of a stored row alone, lose nothing of what the engine changes.
\<close>

subsection \<open>The mirror\<close>

record Mirror =
  mi_mem :: Store
  mi_pg :: PgStore
  mi_fate :: "nat \<Rightarrow> (goerr \<times> nat) option"
  mi_calls :: nat

definition mirror_Apply :: "Mirror \<Rightarrow> ChangeSet \<Rightarrow> goerr option \<times> Mirror" where
  "mirror_Apply s cs =
     (case pg_Apply (mi_fate s (mi_calls s)) (mi_pg s) cs of
        (Some err, pg) \<Rightarrow> (Some err, s\<lparr>mi_pg := pg, mi_calls := mi_calls s + 1\<rparr>)
      | (None, pg) \<Rightarrow> (None, s\<lparr>mi_mem := snd (mem_Apply (mi_mem s) cs), mi_pg := pg, mi_calls := mi_calls s + 1\<rparr>))"

definition mirror_Reset :: "Mirror \<Rightarrow> goerr option \<times> Mirror" where
  "mirror_Reset s =
     (case pg_ResetProjections (map_option fst (mi_fate s (mi_calls s))) (mi_pg s) of
        (Some err, pg) \<Rightarrow> (Some err, s\<lparr>mi_pg := pg, mi_calls := mi_calls s + 1\<rparr>)
      | (None, pg) \<Rightarrow> (None, s\<lparr>mi_mem := snd (mem_ResetProjections (mi_mem s)), mi_pg := pg, mi_calls := mi_calls s + 1\<rparr>))"

definition mirror_repo :: "Mirror Repository" where
  "mirror_repo =
     \<lparr>repo_Apply = mirror_Apply, repo_HasLeg = (\<lambda>s. mem_HasLeg (mi_mem s)), repo_LegsByTxnRef = (\<lambda>s. mem_LegsByTxnRef (mi_mem s)),
      repo_OpenLegs = (\<lambda>s. mem_OpenLegs (mi_mem s)), repo_GetBreak = (\<lambda>s. mem_GetBreak (mi_mem s)),
      repo_EventsFrom = (\<lambda>s. mem_EventsFrom (mi_mem s)), repo_LastSeq = (\<lambda>s. mem_LastSeq (mi_mem s)),
      repo_ResetProjections = mirror_Reset\<rparr>"

abbreviation mirror_proj :: "Mirror \<Rightarrow> Proj" where
  "mirror_proj s \<equiv> mem_proj (mi_mem s)"

text \<open>
  What the tables hold of a projection: the row of every leg, a match and a break for every identifier, and the log in order.
\<close>

definition follows :: "PgStore \<Rightarrow> Proj \<Rightarrow> bool" where
  "follows s p \<longleftrightarrow>
     gm_get (pg_legs s) = map_option leg_row \<circ> p_legs p \<and> dom (gm_get (pg_matches s)) = dom (p_matches p) \<and>
     dom (gm_get (pg_breaks s)) = dom (p_breaks p) \<and> map event_row (pg_events s) = map event_row (p_events p)"

definition mirror_good :: "Mirror \<Rightarrow> bool" where
  "mirror_good s \<longleftrightarrow> mem_ok (mi_mem s) \<and> pg_ok (mi_pg s) \<and> follows (mi_pg s) (mirror_proj s)"

subsection \<open>Writes\<close>

lemma insert_matches_dom:
  "\<exists>t. fold insert_match ms s = s\<lparr>pg_matches := t\<rparr> \<and> dom (gm_get t) = dom (gm_get (pg_matches s)) \<union> MID ` set ms \<and>
     (gm_ok (pg_matches s) \<longrightarrow> gm_ok t)"
proof (induction ms arbitrary: s)
  case Nil
  then show ?case by (intro exI [of _ "pg_matches s"]) simp
next
  case (Cons m ms)
  have "\<exists>t. insert_match m s = s\<lparr>pg_matches := t\<rparr> \<and> dom (gm_get t) = insert (MID m) (dom (gm_get (pg_matches s))) \<and>
      (gm_ok (pg_matches s) \<longrightarrow> gm_ok t)"
  proof (cases "gm_get (pg_matches s) (MID m)")
    case None
    then show ?thesis
      by (intro exI [of _ "gm_put (MID m) (match_row m) (pg_matches s)"]) (auto simp: insert_match_def dom_def)
  next
    case (Some old)
    then show ?thesis by (intro exI [of _ "pg_matches s"]) (auto simp: insert_match_def)
  qed
  then obtain t where t: "insert_match m s = s\<lparr>pg_matches := t\<rparr>" "dom (gm_get t) = insert (MID m) (dom (gm_get (pg_matches s)))"
    "gm_ok (pg_matches s) \<longrightarrow> gm_ok t" by blast
  obtain t' where t': "fold insert_match ms (s\<lparr>pg_matches := t\<rparr>) = s\<lparr>pg_matches := t'\<rparr>"
    "dom (gm_get t') = dom (gm_get t) \<union> MID ` set ms" "gm_ok t \<longrightarrow> gm_ok t'"
    using Cons.IH [of "s\<lparr>pg_matches := t\<rparr>"] by auto
  have "fold insert_match (m # ms) s = s\<lparr>pg_matches := t'\<rparr>" using t(1) t'(1) by simp
  moreover have "dom (gm_get t') = dom (gm_get (pg_matches s)) \<union> MID ` set (m # ms)" unfolding t'(2) t(2) by auto
  ultimately show ?case using t(3) t'(3) by blast
qed

lemma insert_breaks_dom:
  "\<exists>t. fold insert_break bs s = s\<lparr>pg_breaks := t\<rparr> \<and> dom (gm_get t) = dom (gm_get (pg_breaks s)) \<union> BID ` set bs \<and>
     (gm_ok (pg_breaks s) \<longrightarrow> gm_ok t)"
proof (induction bs arbitrary: s)
  case Nil
  then show ?case by (intro exI [of _ "pg_breaks s"]) simp
next
  case (Cons b bs)
  obtain row where row: "insert_break b s = s\<lparr>pg_breaks := gm_put (BID b) row (pg_breaks s)\<rparr>"
    by (simp add: insert_break_def Let_def)
  obtain t where t: "fold insert_break bs (s\<lparr>pg_breaks := gm_put (BID b) row (pg_breaks s)\<rparr>) = s\<lparr>pg_breaks := t\<rparr>"
    "dom (gm_get t) = dom (gm_get (gm_put (BID b) row (pg_breaks s))) \<union> BID ` set bs"
    "gm_ok (gm_put (BID b) row (pg_breaks s)) \<longrightarrow> gm_ok t"
    using Cons.IH [of "s\<lparr>pg_breaks := gm_put (BID b) row (pg_breaks s)\<rparr>"] by auto
  have "dom (gm_get (gm_put (BID b) row (pg_breaks s))) = insert (BID b) (dom (gm_get (pg_breaks s)))" by (auto simp: dom_def)
  then show ?case using t row by (intro exI [of _ t]) auto
qed

lemma pg_Apply_follows:
  assumes "follows s p" "pg_ok s" "updates_legs cs p" "pg_Apply fate s cs = (None, s')"
  shows "pg_ok s' \<and> follows s' (apply_spec cs p)"
proof (cases "cs_Empty cs")
  case True
  then show ?thesis using assms by (simp add: pg_Apply_def nothing_applied)
next
  case False
  note f = assms(1) [unfolded follows_def] and u = assms(3) [unfolded updates_legs_def]
  have fate: "fate = None" using assms(4) False by (cases fate) (auto simp: pg_Apply_def)
  obtain ls where s1: "fold insert_leg (csLegs cs) s = s\<lparr>pg_legs := ls\<rparr>" "gm_get ls = map_option leg_row \<circ> upsert ID (csLegs cs) (p_legs p)"
      "gm_ok (pg_legs s) \<longrightarrow> gm_ok ls"
    using insert_legs [of "csLegs cs" s "p_legs p"] f u by blast
  obtain ms where s2: "fold insert_match (csMatches cs) (s\<lparr>pg_legs := ls\<rparr>) = s\<lparr>pg_legs := ls, pg_matches := ms\<rparr>"
      "dom (gm_get ms) = dom (p_matches p) \<union> MID ` set (csMatches cs)" "gm_ok (pg_matches s) \<longrightarrow> gm_ok ms"
    using insert_matches_dom [of "csMatches cs" "s\<lparr>pg_legs := ls\<rparr>", unfolded pg_frame] f by auto
  obtain bs where s3: "fold insert_break (csBreaks cs) (s\<lparr>pg_legs := ls, pg_matches := ms\<rparr>) =
        s\<lparr>pg_legs := ls, pg_matches := ms, pg_breaks := bs\<rparr>"
      "dom (gm_get bs) = dom (p_breaks p) \<union> BID ` set (csBreaks cs)" "gm_ok (pg_breaks s) \<longrightarrow> gm_ok bs"
    using insert_breaks_dom [of "csBreaks cs" "s\<lparr>pg_legs := ls, pg_matches := ms\<rparr>", unfolded pg_frame] f by auto
  have s': "s' = s\<lparr>pg_legs := ls, pg_matches := ms, pg_breaks := bs,
       pg_events := pg_events s @ numbered_from (pg_seq s) (csEvents cs), pg_seq := pg_seq s + int (length (csEvents cs))\<rparr>"
    using assms(4) False by (simp add: fate pg_Apply_def Let_def s1(1) s2(1) s3(1) insert_events)
  have "pg_ok s'" using assms(2) numbered_log [OF assms(2)] s1(3) s2(3) s3(3) by (simp add: pg_ok_def s')
  moreover have "follows s' (apply_spec cs p)"
    using f s1(2) s2(2) s3(2) by (simp add: follows_def s' apply_spec_def numbered_rows comp_def dom_upsert)
  ultimately show ?thesis by simp
qed

lemma pg_Apply_err:
  assumes "pg_Apply fate s cs = (Some err, s')"
  obtains n where "s' = s\<lparr>pg_seq := pg_seq s + int n\<rparr>"
  using assms by (auto simp: pg_Apply_def split: if_splits option.splits)

lemma pg_ok_seq: "pg_ok s \<Longrightarrow> pg_ok (s\<lparr>pg_seq := pg_seq s + int n\<rparr>)"
  by (fastforce simp: pg_ok_def)

lemma follows_seq [simp]: "follows (s\<lparr>pg_seq := n\<rparr>) p = follows s p"
  by (simp add: follows_def)

lemma follows_reset:
  "follows s p \<Longrightarrow> follows (s\<lparr>pg_legs := [], pg_matches := [], pg_breaks := []\<rparr>) (reset_spec p)"
  by (simp add: follows_def reset_spec_def comp_def)

lemma pg_ok_reset: "pg_ok s \<Longrightarrow> pg_ok (s\<lparr>pg_legs := [], pg_matches := [], pg_breaks := []\<rparr>)"
  by (simp add: pg_ok_def)

lemma mirror_Apply_ok:
  assumes "mirror_good s" "updates_legs cs (mirror_proj s)" "mirror_Apply s cs = (None, s')"
  shows "mirror_good s' \<and> mirror_proj s' = apply_spec cs (mirror_proj s)"
proof -
  obtain pg where pg: "pg_Apply (mi_fate s (mi_calls s)) (mi_pg s) cs = (None, pg)"
    "s' = s\<lparr>mi_mem := snd (mem_Apply (mi_mem s) cs), mi_pg := pg, mi_calls := mi_calls s + 1\<rparr>"
    using assms(3) by (auto simp: mirror_Apply_def split: prod.splits option.splits)
  obtain err m where m: "mem_Apply (mi_mem s) cs = (err, m)" by force
  note g = assms(1) [unfolded mirror_good_def]
  have mem: "mem_ok m" "mem_proj m = apply_spec cs (mirror_proj s)"
    using mem_Apply_refines [OF _ updates_keep_refs [OF assms(2)] m] g by simp_all
  then show ?thesis using pg_Apply_follows [OF _ _ assms(2) pg(1)] g by (simp add: mirror_good_def pg(2) m)
qed

lemma mirror_Apply_err:
  assumes "mirror_good s" "mirror_Apply s cs = (Some err, s')"
  shows "mirror_good s' \<and> mirror_proj s' = mirror_proj s"
proof -
  obtain pg where pg: "pg_Apply (mi_fate s (mi_calls s)) (mi_pg s) cs = (Some err, pg)" "s' = s\<lparr>mi_pg := pg, mi_calls := mi_calls s + 1\<rparr>"
    using assms(2) by (auto simp: mirror_Apply_def split: prod.splits option.splits)
  obtain n where "pg = (mi_pg s)\<lparr>pg_seq := pg_seq (mi_pg s) + int n\<rparr>" using pg_Apply_err [OF pg(1)] .
  then show ?thesis using assms(1) pg_ok_seq [of "mi_pg s" n] by (simp add: mirror_good_def pg(2) del: mem_proj_simps)
qed

lemma mirror_Reset_cases:
  assumes "mirror_good s" "mirror_Reset s = (err, s')"
  shows "mirror_good s' \<and> mirror_proj s' = (if err = None then reset_spec (mirror_proj s) else mirror_proj s)"
proof -
  define m where "m = snd (mem_ResetProjections (mi_mem s))"
  have "mem_ok (snd (mem_ResetProjections (mi_mem s))) \<and> mem_proj (snd (mem_ResetProjections (mi_mem s))) = reset_spec (mirror_proj s)"
    using mem.reset_ok [of "mi_mem s" "snd (mem_ResetProjections (mi_mem s))"] assms(1)
    by (simp add: mirror_good_def mem_repo_def mem_ResetProjections_def)
  then have mem: "mem_ok m" "mem_proj m = reset_spec (mirror_proj s)" by (simp_all add: m_def)
  note g = assms(1) [unfolded mirror_good_def]
  show ?thesis
  proof (cases "mi_fate s (mi_calls s)")
    case None
    then have "err = None \<and>
        s' = s\<lparr>mi_mem := m, mi_pg := (mi_pg s)\<lparr>pg_legs := [], pg_matches := [], pg_breaks := []\<rparr>, mi_calls := mi_calls s + 1\<rparr>"
      using assms(2) by (simp add: mirror_Reset_def pg_ResetProjections_def m_def)
    then show ?thesis using mem pg_ok_reset [of "mi_pg s"] follows_reset [of "mi_pg s" "mirror_proj s"] g
      by (simp add: mirror_good_def del: mem_proj_simps)
  next
    case (Some x)
    then have "err \<noteq> None \<and> s' = s\<lparr>mi_pg := mi_pg s, mi_calls := mi_calls s + 1\<rparr>"
      using assms(2) by (auto simp: mirror_Reset_def pg_ResetProjections_def)
    then show ?thesis using g by (auto simp: mirror_good_def simp del: mem_proj_simps)
  qed
qed

subsection \<open>The contract\<close>

lemma mirror_repo_simps:
  "repo_Apply mirror_repo = mirror_Apply" "repo_ResetProjections mirror_repo = mirror_Reset"
  "repo_HasLeg mirror_repo s = repo_HasLeg mem_repo (mi_mem s)" "repo_LegsByTxnRef mirror_repo s = repo_LegsByTxnRef mem_repo (mi_mem s)"
  "repo_OpenLegs mirror_repo s = repo_OpenLegs mem_repo (mi_mem s)" "repo_GetBreak mirror_repo s = repo_GetBreak mem_repo (mi_mem s)"
  "repo_EventsFrom mirror_repo s = repo_EventsFrom mem_repo (mi_mem s)" "repo_LastSeq mirror_repo s = repo_LastSeq mem_repo (mi_mem s)"
  by (simp_all add: mirror_repo_def mem_repo_def)

lemma mirror_goodD: "mirror_good s \<Longrightarrow> mem_ok (mi_mem s)"
  by (simp add: mirror_good_def)

interpretation mirror: repository mirror_repo mirror_proj mirror_good
proof (unfold_locales, unfold mirror_repo_simps)
  fix s cs s'
  assume "mirror_good s" "updates_legs cs (mirror_proj s)" "mirror_Apply s cs = (None, s')"
  then show "mirror_good s' \<and> mirror_proj s' = apply_spec cs (mirror_proj s)" by (rule mirror_Apply_ok)
next
  fix s cs err s'
  assume "mirror_good s" "mirror_Apply s cs = (Some err, s')"
  then show "mirror_good s' \<and> mirror_proj s' = mirror_proj s" by (rule mirror_Apply_err)
next
  fix s s'
  assume "mirror_good s" "mirror_Reset s = (None, s')"
  from mirror_Reset_cases [OF this] show "mirror_good s' \<and> mirror_proj s' = reset_spec (mirror_proj s)" by (simp only: simp_thms if_True)
next
  fix s err s'
  assume "mirror_good s" "mirror_Reset s = (Some err, s')"
  from mirror_Reset_cases [OF this] show "mirror_good s' \<and> mirror_proj s' = mirror_proj s"
    by (simp only: option.distinct if_False simp_thms)
qed (erule (1) mem.good_ids [OF mirror_goodD] mem.good_break_ids [OF mirror_goodD] mem.has_leg [OF mirror_goodD]
    mem.legs_by_ref [OF mirror_goodD] mem.open_legs_law [OF mirror_goodD] mem.get_break [OF mirror_goodD]
    mem.last_seq [OF mirror_goodD] mem.event_seqs [OF mirror_goodD] | erule (3) mem.events_from [OF mirror_goodD])+

subsection \<open>Running over both\<close>

text \<open>
  The engine over the mirror: started on empty stores, fed, swept, closed, resolved, replayed, and rebuilt or started again on what the
  stores hold, in any order, while any transaction may fail.
\<close>

definition new_mirror :: "(nat \<Rightarrow> (goerr \<times> nat) option) \<Rightarrow> Mirror" where
  "new_mirror fate =
     \<lparr>mi_mem = NewStore, mi_pg = \<lparr>pg_legs = [], pg_matches = [], pg_breaks = [], pg_events = [], pg_seq = 0\<rparr>, mi_fate = fate, mi_calls = 0\<rparr>"

definition mirror_boots :: "Mirror \<Rightarrow> Mirror Engine \<Rightarrow> bool" where
  "mirror_boots s e \<longleftrightarrow>
     (\<exists>clf rules t hooks clock e0.
        NewEngine (Some mirror_repo) (Some clf) rules t hooks clock s = Inr e0 \<and> Rebuild e0 = (None, e))"

inductive mirror_reach :: "(string \<Rightarrow> string) \<Rightarrow> Mirror Engine \<Rightarrow> bool" for sha256 where
  mir_start: "mirror_boots (new_mirror fate) e \<Longrightarrow> mirror_reach sha256 e"
| mir_ingest: "mirror_reach sha256 e \<Longrightarrow> Ingest sha256 ctx e legs = (res, err, e') \<Longrightarrow> mirror_reach sha256 e'"
| mir_sweep: "mirror_reach sha256 e \<Longrightarrow> Sweep sha256 ctx e = (cnt, err, e') \<Longrightarrow> mirror_reach sha256 e'"
| mir_close: "mirror_reach sha256 e \<Longrightarrow> CloseWindow sha256 ctx e d = (cnt, err, e') \<Longrightarrow> mirror_reach sha256 e'"
| mir_resolve: "mirror_reach sha256 e \<Longrightarrow> ResolveBreak e i reason actor = (b, err, e') \<Longrightarrow> mirror_reach sha256 e'"
| mir_replay: "mirror_reach sha256 e \<Longrightarrow> Replay fuel sha256 e f = Some (rep, err, e') \<Longrightarrow> mirror_reach sha256 e'"
| mir_restart: "mirror_reach sha256 e \<Longrightarrow> mirror_boots (eng_store e) e' \<Longrightarrow> mirror_reach sha256 e'"

lemma mirror_boots_inv:
  assumes "mirror_boots s e" "mirror_good s"
  shows "eng_inv mirror_repo mirror_proj mirror_good e \<and> \<not> eng_replaying e"
proof -
  obtain clf rules t hooks clock e0 where b: "NewEngine (Some mirror_repo) (Some clf) rules t hooks clock s = Inr e0"
    "Rebuild e0 = (None, e)" using assms(1) unfolding mirror_boots_def by blast
  have e0: "eng_repo e0 = mirror_repo" "eng_store e0 = s" "\<not> eng_replaying e0"
    using b(1) by (auto simp: NewEngine_def split: option.splits if_splits)
  have "eng_replaying e = eng_replaying e0" using b(2) by (auto simp: Rebuild_def hook_defs split: sum.splits)
  then show ?thesis using mirror.Rebuild_spec [OF e0(1) _ b(2)] assms(2) e0 by simp
qed

lemma new_mirror_good: "mirror_good (new_mirror fate)"
  by (simp add: mirror_good_def new_mirror_def mem_ok_New pg_ok_def follows_def comp_def) (simp add: NewStore_def)

lemma eng_run_quiet: "eng_run repo proj good e e' \<Longrightarrow> \<not> eng_replaying e \<Longrightarrow> eng_inv repo proj good e' \<and> \<not> eng_replaying e'"
  by (simp add: eng_run_def)

lemma mirror_reach_inv: "mirror_reach sha256 e \<Longrightarrow> eng_inv mirror_repo mirror_proj mirror_good e \<and> \<not> eng_replaying e"
proof (induction rule: mirror_reach.induct)
  case (mir_start fate e)
  then show ?case by (rule mirror_boots_inv [OF _ new_mirror_good])
next
  case (mir_ingest e ctx legs res err e')
  then show ?case using eng_run_quiet [OF mirror.Ingest_run] by blast
next
  case (mir_sweep e ctx cnt err e')
  then show ?case using eng_run_quiet mirror.expire_spec unfolding Sweep_def by blast
next
  case (mir_close e ctx d cnt err e')
  then show ?case using eng_run_quiet mirror.expire_spec unfolding CloseWindow_def Let_def by blast
next
  case (mir_resolve e i reason actor b err e')
  then show ?case using eng_run_quiet mirror.ResolveBreak_spec by blast
next
  case (mir_replay e fuel f rep err e')
  define big where "big = fuel + length (p_events (mirror_proj (eng_store e))) + 1"
  have "Replay big sha256 e f = Some (rep, err, e')"
    using mirror.Replay_more [OF _ _ mir_replay.hyps(2)] mir_replay.IH by (simp add: big_def)
  moreover have "length (p_events (mirror_proj (eng_store e))) + 500 \<le> 500 * big" by (simp add: big_def)
  ultimately show ?case using mirror.Replay_spec [of e big sha256 f] mir_replay.IH by fastforce
next
  case (mir_restart e e')
  then have "mirror_good (eng_store e)" by (simp add: eng_inv_def)
  with mir_restart.hyps(2) show ?case by (rule mirror_boots_inv)
qed


definition demo_mirror_engine :: "Mirror Engine" where
  "demo_mirror_engine =
     \<lparr>eng_rules = DefaultRules, eng_ix = NewIndex hour_ns, eng_repo = mirror_repo, eng_clf = demo_clf,
      eng_clock = (\<lambda>_. 2 * hour_ns), eng_hooks = demo_hooks, eng_replaying = False, eng_store = new_mirror (\<lambda>_. None), eng_ticks = 0,
      eng_calls = []\<rparr>"

lemma demo_mirror_boots: "mirror_boots (new_mirror (\<lambda>_. None)) demo_mirror_engine"
proof -
  have "NewEngine (Some mirror_repo) (Some demo_clf) DefaultRules hour_ns demo_hooks (\<lambda>_. 2 * hour_ns) (new_mirror (\<lambda>_. None)) =
      Inr demo_mirror_engine"
    by (simp add: NewEngine_def DefaultRules_ok demo_mirror_engine_def hour_ns_def)
  moreover have "Rebuild demo_mirror_engine = (None, demo_mirror_engine)"
    by (simp add: Rebuild_def demo_mirror_engine_def new_mirror_def mirror_repo_def mem_OpenLegs_def NewStore_def notifyOpen_def
        call_hook_def demo_hooks_def)
  ultimately show ?thesis unfolding mirror_boots_def by blast
qed


end
