(* ===== verification/Recon_Gen.thy ===== *)
theory Recon_Gen
  imports Recon_Leg
begin

text \<open>
  The generator of the sample file (\<open>examples/gen/main.go\<close>): ledger postings and card-network records, made from random draws. The
  generator of \<open>math/rand\<close> is an argument; the closures of \<open>main\<close> share the state \<open>Gen\<close>. A computation is a function of that state;
  \<open>None\<close> is a draw that never finds a fresh amount, or an index out of range. Numbers are padded with zeros to a width they never exceed.
\<close>

subsection \<open>State and closures\<close>

record 'r Rand =
  Int63n :: "int \<Rightarrow> 'r \<Rightarrow> int \<times> 'r"
  Intn :: "int \<Rightarrow> 'r \<Rightarrow> int \<times> 'r"

record 'r Gen =
  g_rng :: 'r
  g_used :: "(int, bool) gomap"
  g_seq :: int
  g_ledger :: "Leg list"
  g_rail :: "Leg list"

type_synonym ('r, 'a) gen = "'r Gen \<Rightarrow> ('a \<times> 'r Gen) option"

definition gret :: "'a \<Rightarrow> ('r, 'a) gen" where
  "gret a g = Some (a, g)"

definition gbind :: "('r, 'a) gen \<Rightarrow> ('a \<Rightarrow> ('r, 'b) gen) \<Rightarrow> ('r, 'b) gen" where
  "gbind m f g = (case m g of None \<Rightarrow> None | Some (a, g) \<Rightarrow> f a g)"

primrec gfor :: "(nat \<Rightarrow> ('r, unit) gen) \<Rightarrow> nat list \<Rightarrow> ('r, unit) gen" where
  "gfor f [] = gret ()"
| "gfor f (i # is) = gbind (f i) (\<lambda>_. gfor f is)"

definition draw63 :: "'r Rand \<Rightarrow> int \<Rightarrow> ('r, int) gen" where
  "draw63 rd n g = (case Int63n rd n (g_rng g) of (x, r) \<Rightarrow> Some (x, g\<lparr>g_rng := r\<rparr>))"

definition draw :: "'r Rand \<Rightarrow> int \<Rightarrow> ('r, int) gen" where
  "draw rd n g = (case Intn rd n (g_rng g) of (x, r) \<Rightarrow> Some (x, g\<lparr>g_rng := r\<rparr>))"

text \<open>The loop of \<open>amount\<close> ends with the first number that has not been used.\<close>

partial_function (option) amount :: "'r Rand \<Rightarrow> int \<Rightarrow> int \<Rightarrow> 'r Gen \<Rightarrow> (int \<times> 'r Gen) option" where
  "amount rd lo hi g =
     (let xr = Int63n rd (i64 (hi - lo)) (g_rng g);
          a = i64 (lo + fst xr);
          g = g\<lparr>g_rng := snd xr\<rparr>
      in if gm_get (g_used g) a = Some True then amount rd lo hi g
         else Some (a, g\<lparr>g_used := gm_put a True (g_used g)\<rparr>))"

definition ref_name :: "int \<Rightarrow> string" where
  "ref_name n = ''TXN-'' @ pad_str 6 (nat n)"

definition ref :: "('r, string) gen" where
  "ref g = (let n = g_seq g + 1 in Some (ref_name (240000 + n), g\<lparr>g_seq := n\<rparr>))"

definition arn :: "'r Rand \<Rightarrow> ('r, string) gen" where
  "arn rd = gbind (draw63 rd (10 ^ 15)) (\<lambda>x. gret (''7451'' @ pad_str 19 (nat x)))"

definition merchants :: "string list" where
  "merchants = [''M-1023'', ''M-2210'', ''M-3391'', ''M-4457'', ''M-5120'', ''M-6688'', ''M-7014'', ''M-8891'']"

definition with_extra :: "(string, string) gomap \<Rightarrow> (string, string) gomap \<Rightarrow> (string, string) gomap" where
  "with_extra extra attrs = foldl (\<lambda>m kv. gm_put (fst kv) (snd kv) m) attrs extra"

definition make_leg :: "string \<Rightarrow> string \<Rightarrow> int \<Rightarrow> string \<Rightarrow> string \<Rightarrow> Date \<Rightarrow> string \<Rightarrow> (string, string) gomap \<Rightarrow> Leg" where
  "make_leg source txn amt ccy cp d dir attrs =
     \<lparr>ID = '''', Source = source, TxnRef = txn, AmountMinor = amt, Currency = ccy, ValueDate = d, Direction = dir, Counterparty = cp,
      Attrs = attrs, IngestedAt = time_zero, Status = '''', MatchID = '''', BreakID = ''''\<rparr>"

definition ledgerLeg ::
    "'r Rand \<Rightarrow> string \<Rightarrow> int \<Rightarrow> string \<Rightarrow> string \<Rightarrow> Date \<Rightarrow> (string, string) gomap \<Rightarrow> ('r, unit) gen" where
  "ledgerLeg rd txn amt ccy cp d extra =
     gbind (draw rd (int (length merchants))) (\<lambda>i g.
       if i < 0 \<or> int (length merchants) \<le> i then None
       else
         let attrs = [(''account'', ''1200-SETTLEMENT-'' @ cp), (''merchant_id'', merchants ! nat i), (''channel'', ''card_present'')];
             attrs = with_extra extra attrs
         in Some ((), g\<lparr>g_ledger := g_ledger g @ [make_leg ''ledger'' txn amt ccy cp d Debit attrs]\<rparr>))"

definition railLeg ::
    "'r Rand \<Rightarrow> string \<Rightarrow> int \<Rightarrow> string \<Rightarrow> string \<Rightarrow> Date \<Rightarrow> (string, string) gomap \<Rightarrow> ('r, unit) gen" where
  "railLeg rd txn amt ccy cp d extra =
     gbind (arn rd) (\<lambda>a g.
       let attrs = with_extra extra [(''arn'', a), (''settlement_file'', cp @ ''-STL-20260916-01'')]
       in Some ((), g\<lparr>g_rail := g_rail g @ [make_leg ''card_network'' txn amt ccy cp d Credit attrs]\<rparr>))"

definition network :: "nat \<Rightarrow> string \<times> string" where
  "network i = (if i mod 3 = 0 then (''GBP'', ''MASTERCARD'') else (''USD'', ''VISA''))"

definition d14 :: Date where "d14 = NewDate 2026 9 14"
definition d15 :: Date where "d15 = NewDate 2026 9 15"
definition d16 :: Date where "d16 = NewDate 2026 9 16"

subsection \<open>The sample\<close>

definition clean_pair :: "'r Rand \<Rightarrow> nat \<Rightarrow> ('r, unit) gen" where
  "clean_pair rd i =
     (case network i of (ccy, cp) \<Rightarrow>
        gbind ref (\<lambda>r. gbind (amount rd 500 250000) (\<lambda>a.
        let d = (if i mod 2 = 0 then d15 else d14) in
        gbind (ledgerLeg rd r a ccy cp d []) (\<lambda>_.
        railLeg rd r a ccy cp d16 []))))"

definition rounding_pair :: "'r Rand \<Rightarrow> nat \<Rightarrow> ('r, unit) gen" where
  "rounding_pair rd i =
     (case network i of (ccy, cp) \<Rightarrow>
        gbind ref (\<lambda>r. gbind (amount rd 20000 400000) (\<lambda>a.
        gbind (draw rd 2) (\<lambda>x.
        let delta = i64 (1 + x); delta = (if i mod 2 = 0 then i64 (- delta) else delta) in
        gbind (ledgerLeg rd r a ccy cp d15 []) (\<lambda>_.
        railLeg rd r (i64 (a + delta)) ccy cp d16 [(''rounding'', ''scheme'')])))))"

primrec batch_legs :: "'r Rand \<Rightarrow> string \<Rightarrow> nat \<Rightarrow> int \<Rightarrow> ('r, int) gen" where
  "batch_legs rd batch 0 acc = gret acc"
| "batch_legs rd batch (Suc n) acc =
     gbind (amount rd 1000 90000) (\<lambda>a.
     let acc = i64 (acc + a) in
     gbind ref (\<lambda>r.
     gbind (ledgerLeg rd r a ''USD'' ''VISA'' d15 [(AttrBatchRef, batch)]) (\<lambda>_.
     batch_legs rd batch n acc)))"

definition batch_settlement :: "'r Rand \<Rightarrow> nat \<Rightarrow> ('r, unit) gen" where
  "batch_settlement rd b =
     (let n = (if b = 3 then 4 else 3); batch = ''VISA-BATCH-20260915-'' @ pad_str 2 (b + 1) in
      gbind (batch_legs rd batch n 0) (\<lambda>acc.
      railLeg rd batch acc ''USD'' ''VISA'' d16 [(''record_type'', ''batch_settlement'')]))"

definition unechoed_pair :: "'r Rand \<Rightarrow> nat \<Rightarrow> ('r, unit) gen" where
  "unechoed_pair rd i =
     gbind (amount rd 300000 900000) (\<lambda>a.
     gbind ref (\<lambda>r.
     gbind (ledgerLeg rd r a ''USD'' ''VISA'' d15 [(''note'', ''ref not echoed by network'')]) (\<lambda>_.
     gbind (arn rd) (\<lambda>n.
     railLeg rd (''ARN-'' @ take 12 n) a ''USD'' ''VISA'' d16 []))))"

definition fee_break :: "'r Rand \<Rightarrow> ('r, unit) gen" where
  "fee_break rd =
     gbind ref (\<lambda>r. gbind (amount rd 100000 300000) (\<lambda>a.
     let p = i64 (a * 25); fee = sgn p * (\<bar>p\<bar> div 1000) in
     gbind (ledgerLeg rd r a ''USD'' ''VISA'' d15 []) (\<lambda>_.
     railLeg rd r (i64 (a - fee)) ''USD'' ''VISA'' d16 [(''interchange_minor'', FormatInt fee), (''record_type'', ''net_settlement'')])))"

definition fx_break :: "'r Rand \<Rightarrow> ('r, unit) gen" where
  "fx_break rd =
     gbind ref (\<lambda>r. gbind (amount rd 50000 120000) (\<lambda>a.
     let eur = int64_of_f64 (f64 (f64_of_int64 a * f64 (9183 / 10000))) in
     gbind (ledgerLeg rd r a ''USD'' ''VISA'' d15 [(''original_currency'', ''EUR'')]) (\<lambda>_.
     railLeg rd r eur ''EUR'' ''VISA'' d16 [(''fx_rate'', ''0.9183''), (''settlement_currency'', ''EUR'')])))"

definition timing_break :: "'r Rand \<Rightarrow> ('r, unit) gen" where
  "timing_break rd =
     gbind ref (\<lambda>r. gbind (amount rd 10000 60000) (\<lambda>a.
     gbind (ledgerLeg rd r a ''GBP'' ''MASTERCARD'' d14 []) (\<lambda>_.
     railLeg rd r a ''GBP'' ''MASTERCARD'' (NewDate 2026 9 20) [(''settlement_file'', ''MASTERCARD-STL-20260920-01'')])))"

definition unsettled :: "'r Rand \<Rightarrow> string \<Rightarrow> string \<Rightarrow> ('r, unit) gen" where
  "unsettled rd ccy cp =
     gbind ref (\<lambda>r. gbind (amount rd 5000 40000) (\<lambda>a.
     ledgerLeg rd r a ccy cp d15 [(''note'', ''authorised, never presented'')]))"

definition sample_legs :: "'r Rand \<Rightarrow> ('r, unit) gen" where
  "sample_legs rd =
     gbind (gfor (clean_pair rd) [0 ..< 76]) (\<lambda>_.
     gbind (gfor (rounding_pair rd) [0 ..< 9]) (\<lambda>_.
     gbind (gfor (batch_settlement rd) [0 ..< 4]) (\<lambda>_.
     gbind (gfor (unechoed_pair rd) [0 ..< 2]) (\<lambda>_.
     gbind (fee_break rd) (\<lambda>_.
     gbind (fx_break rd) (\<lambda>_.
     gbind (timing_break rd) (\<lambda>_.
     gbind (unsettled rd ''USD'' ''VISA'') (\<lambda>_.
     unsettled rd ''GBP'' ''MASTERCARD''))))))))"

definition resent :: "Leg \<Rightarrow> Leg" where
  "resent dup =
     dup\<lparr>Attrs := [(''arn'', attr dup ''arn''), (''settlement_file'', Counterparty dup @ ''-STL-20260917-01''), (''resend'', ''true'')]\<rparr>"

text \<open>The last loop of \<open>main\<close>: the first leg that is not valid ends the program.\<close>

fun validate_all :: "Leg list \<Rightarrow> Leg list result" where
  "validate_all [] = Inr []"
| "validate_all (l # ls) =
     (case Validate l of
        (l, Some err) \<Rightarrow> Inl err
      | (l, None) \<Rightarrow>
          (case validate_all ls of
             Inl err \<Rightarrow> Inl err
           | Inr ls \<Rightarrow> Inr (l\<lparr>ID := '''', IngestedAt := time_zero\<rparr> # ls)))"

record out =
  Description :: string
  Legs :: "Leg list"

definition describe :: "nat \<Rightarrow> nat \<Rightarrow> nat \<Rightarrow> string" where
  "describe n ledger rail =
     FormatInt (int n) @ '' legs: '' @ FormatInt (int ledger) @ '' ledger postings vs '' @ FormatInt (int rail) @
     '' card-network settlement records (Visa/USD, Mastercard/GBP) for value dates 2026-09-14..16. Expected: 191 legs auto-matched '' @
     ''(T1/T2/T3), 9 legs in breaks (fee, fx_drift, timing, duplicate, 2x missing_counterparty).''"

text \<open>
  \<open>main\<close>: the exit code and what was written, given the encoder, the file system and the state of the random generator. A panic is an
  exit with 2.
\<close>

definition gen_main ::
    "'r Rand \<Rightarrow> 'r \<Rightarrow> (out \<Rightarrow> string result) \<Rightarrow> (string \<Rightarrow> string \<Rightarrow> goerr option) \<Rightarrow> string \<Rightarrow> (int \<times> (string \<times> string) option) option" where
  "gen_main rd rng marshal writeFile path =
     (case sample_legs rd \<lparr>g_rng = rng, g_used = [], g_seq = 0, g_ledger = [], g_rail = []\<rparr> of
        None \<Rightarrow> None
      | Some (_, g) \<Rightarrow>
          (case g_rail g of
             [] \<Rightarrow> Some (2, None)
           | dup # _ \<Rightarrow>
               let ledger = sort_key TxnRef (g_ledger g); rail = g_rail g; legs = ledger @ rail @ [resent dup] in
               (case validate_all legs of
                  Inl err \<Rightarrow> Some (1, None)
                | Inr legs \<Rightarrow>
                    let doc = \<lparr>Description = describe (length legs) (length ledger) (length rail + 1), Legs = legs\<rparr> in
                    (case marshal doc of
                       Inl err \<Rightarrow> Some (1, None)
                     | Inr b \<Rightarrow>
                         let b = b @ [CHR 0x0A] in
                         (case writeFile path b of
                            Some err \<Rightarrow> Some (1, None)
                          | None \<Rightarrow> Some (0, Some (path, b)))))))"

subsection \<open>Draws\<close>

text \<open>
  What \<open>math/rand\<close> promises: a draw below \<open>n\<close> is in range. And what \<open>amount\<close> needs of it to come back: that the numbers drawn do not stay for ever inside a
  set that leaves some number out.
\<close>

definition rand_ok :: "'r Rand \<Rightarrow> bool" where
  "rand_ok rd \<longleftrightarrow>
     (\<forall>n r. 0 < n \<longrightarrow> 0 \<le> fst (Int63n rd n r) \<and> fst (Int63n rd n r) < n \<and> 0 \<le> fst (Intn rd n r) \<and> fst (Intn rd n r) < n)"

primrec nth_draw :: "'r Rand \<Rightarrow> int \<Rightarrow> nat \<Rightarrow> 'r \<Rightarrow> int" where
  "nth_draw rd n 0 r = fst (Int63n rd n r)"
| "nth_draw rd n (Suc k) r = nth_draw rd n k (snd (Int63n rd n r))"

definition fair :: "'r Rand \<Rightarrow> bool" where
  "fair rd \<longleftrightarrow> (\<forall>n r U. finite U \<and> int (card U) < n \<longrightarrow> (\<exists>k. nth_draw rd n k r \<notin> U))"

definition used :: "'r Gen \<Rightarrow> int set" where
  "used g = {a. gm_get (g_used g) a = Some True}"

lemma used_update [simp]: "used (g\<lparr>g_rng := r\<rparr>) = used g" "used (g\<lparr>g_seq := n\<rparr>) = used g"
    "used (g\<lparr>g_ledger := ls\<rparr>) = used g" "used (g\<lparr>g_rail := rs\<rparr>) = used g"
    "used (g\<lparr>g_used := gm_put a True (g_used g)\<rparr>) = insert a (used g)"
  by (auto simp: used_def)

lemma amount_until:
  assumes rd: "rand_ok rd" and range: "0 < lo" "lo < hi" "hi \<le> 10 ^ 6"
    and fresh: "lo + nth_draw rd (hi - lo) k (g_rng g) \<notin> used g"
  shows "\<exists>a r. amount rd lo hi g = Some (a, g\<lparr>g_rng := r, g_used := gm_put a True (g_used g)\<rparr>) \<and> lo \<le> a \<and> a < hi \<and> a \<notin> used g"
  using fresh
proof (induction k arbitrary: g)
  case (0 g)
  let ?x = "fst (Int63n rd (hi - lo) (g_rng g))"
  have x: "0 \<le> ?x" "?x < hi - lo" using rd range unfolding rand_ok_def by auto
  have i: "i64 (hi - lo) = hi - lo" "i64 (lo + ?x) = lo + ?x" using x range by (auto intro!: i64_id simp: in_i64_def)
  have "lo + ?x \<notin> used g" using 0 by simp
  then show ?case using x by (subst amount.simps) (auto simp: i used_def Let_def)
next
  case (Suc k g)
  let ?x = "fst (Int63n rd (hi - lo) (g_rng g))" and ?g = "g\<lparr>g_rng := snd (Int63n rd (hi - lo) (g_rng g))\<rparr>"
  have x: "0 \<le> ?x" "?x < hi - lo" using rd range unfolding rand_ok_def by auto
  have i: "i64 (hi - lo) = hi - lo" "i64 (lo + ?x) = lo + ?x" using x range by (auto intro!: i64_id simp: in_i64_def)
  have IH: "\<exists>a r. amount rd lo hi ?g = Some (a, ?g\<lparr>g_rng := r, g_used := gm_put a True (g_used ?g)\<rparr>) \<and> lo \<le> a \<and> a < hi \<and> a \<notin> used ?g"
    using Suc.prems by (intro Suc.IH) simp
  show ?case
  proof (cases "lo + ?x \<in> used g")
    case True
    then have "amount rd lo hi g = amount rd lo hi ?g" by (subst amount.simps) (simp add: i used_def Let_def)
    then show ?thesis using IH by auto
  next
    case False
    then show ?thesis using x by (subst amount.simps) (auto simp: i used_def Let_def)
  qed
qed

lemma amount_found:
  assumes rd: "rand_ok rd" "fair rd" and range: "0 < lo" "lo < hi" "hi \<le> 10 ^ 6"
    and room: "finite (used g)" "int (card (used g)) < hi - lo"
  shows "\<exists>a r. amount rd lo hi g = Some (a, g\<lparr>g_rng := r, g_used := gm_put a True (g_used g)\<rparr>) \<and> lo \<le> a \<and> a < hi \<and> a \<notin> used g"
proof -
  have "finite ((\<lambda>a. a - lo) ` used g) \<and> int (card ((\<lambda>a. a - lo) ` used g)) < hi - lo"
    using room card_image_le [of "used g" "\<lambda>a. a - lo"] by simp
  then obtain k where k: "nth_draw rd (hi - lo) k (g_rng g) \<notin> (\<lambda>a. a - lo) ` used g" using rd(2) unfolding fair_def by blast
  have "lo + nth_draw rd (hi - lo) k (g_rng g) \<notin> used g" using k by force
  then show ?thesis by (rule amount_until [OF rd(1) range])
qed

subsection \<open>Valid legs\<close>

lemma TrimSpace_word: "w \<noteq> [] \<Longrightarrow> \<forall>c \<in> set w. plain c \<Longrightarrow> TrimSpace w \<noteq> []"
  by (simp add: TrimSpace_plain)

lemma digit_plain: "is_digit c \<Longrightarrow> plain c"
  by (auto simp: is_digit_def plain_def less_char_def less_eq_char_def)

lemma pad_plain: "\<forall>c \<in> set (pad_str w n). plain c"
  using pad_str_digits digit_plain by blast

lemma ref_name_word: "TrimSpace (ref_name n) \<noteq> []"
  by (rule TrimSpace_word) (use pad_plain [of 6] in \<open>auto simp: ref_name_def plain_def less_char_def\<close>)

lemma ref_name_inj: "0 \<le> m \<Longrightarrow> m < 10 ^ 6 \<Longrightarrow> 0 \<le> n \<Longrightarrow> n < 10 ^ 6 \<Longrightarrow> ref_name m = ref_name n \<Longrightarrow> m = n"
proof -
  assume b: "0 \<le> m" "m < 10 ^ 6" "0 \<le> n" "n < 10 ^ 6" and "ref_name m = ref_name n"
  then have "pad_str 6 (nat m) = pad_str 6 (nat n)" by (simp only: ref_name_def same_append_eq)
  moreover have "str_nat (pad_str 6 (nat k)) = nat k" if "0 \<le> k" "k < 10 ^ 6" for k
    by (rule str_nat_pad_str) (use that in \<open>simp add: nat_less_iff\<close>)
  ultimately have "nat m = nat n" using b by metis
  then show "m = n" using b(1,3) by simp
qed

definition names_ok :: "string \<Rightarrow> string \<Rightarrow> bool" where
  "names_ok ccy cp \<longleftrightarrow> ccy \<in> {''USD'', ''GBP'', ''EUR''} \<and> cp \<in> {''VISA'', ''MASTERCARD''}"

definition days :: "Date set" where
  "days = {d14, d15, d16, NewDate 2026 9 20}"

lemma names_word: "names_ok ccy cp \<Longrightarrow> length ccy = 3 \<and> upper_word ccy \<and> TrimSpace cp \<noteq> []"
proof -
  have "\<forall>ccy \<in> set [''USD'', ''GBP'', ''EUR'']. length ccy = 3 \<and> upper_word ccy" "\<forall>cp \<in> set [''VISA'', ''MASTERCARD'']. TrimSpace cp \<noteq> []"
    by code_simp+
  then show "names_ok ccy cp \<Longrightarrow> length ccy = 3 \<and> upper_word ccy \<and> TrimSpace cp \<noteq> []" by (auto simp: names_ok_def)
qed

lemma days_set: "d \<in> days \<Longrightarrow> \<not> IsZero (dtime d)"
proof -
  have "\<forall>d \<in> set [d14, d15, d16, NewDate 2026 9 20]. \<not> IsZero (dtime d)" by code_simp
  then show "d \<in> days \<Longrightarrow> \<not> IsZero (dtime d)" by (auto simp: days_def)
qed

lemma make_leg_valid:
  assumes "names_ok ccy cp" "d \<in> days" "0 < amt" "TrimSpace txn \<noteq> []" "source \<in> {''ledger'', ''card_network''}" "dir \<in> {Debit, Credit}"
  shows "valid_leg (make_leg source txn amt ccy cp d dir attrs)"
proof -
  have "\<forall>s \<in> set [''ledger'', ''card_network'']. TrimSpace s \<noteq> []" by code_simp
  then show ?thesis using assms names_word [OF assms(1)] days_set [OF assms(2)] by (auto simp: valid_leg_def make_leg_def)
qed

lemma network_ok: "network i = (ccy, cp) \<Longrightarrow> names_ok ccy cp"
  by (auto simp: network_def names_ok_def split: if_splits)

lemma in_days [simp]: "d14 \<in> days" "d15 \<in> days" "d16 \<in> days" "NewDate 2026 9 20 \<in> days"
  by (simp_all add: days_def)

subsection \<open>Steps\<close>

text \<open>
  Between two blocks of \<open>main\<close>: every ledger leg took one reference, in order, and one amount; and every leg is valid.
\<close>

definition gen_inv :: "'r Gen \<Rightarrow> bool" where
  "gen_inv g \<longleftrightarrow>
     g_seq g = int (length (g_ledger g)) \<and>
     map TxnRef (g_ledger g) = map (\<lambda>k. ref_name (240001 + int k)) [0 ..< length (g_ledger g)] \<and>
     used g = AmountMinor ` set (g_ledger g) \<and> distinct (map AmountMinor (g_ledger g)) \<and>
     (\<forall>l \<in> set (g_ledger g @ g_rail g). valid_leg l)"

text \<open>A reference and an amount have been taken but the leg is not booked yet.\<close>

definition pending :: "'r Gen \<Rightarrow> int \<Rightarrow> 'r \<Rightarrow> 'r Gen" where
  "pending g a r = g\<lparr>g_seq := g_seq g + 1, g_rng := r, g_used := gm_put a True (g_used g)\<rparr>"

definition next_ref :: "'r Gen \<Rightarrow> string" where
  "next_ref g = ref_name (240001 + g_seq g)"

lemma ref_word: "TrimSpace (next_ref g) \<noteq> []"
  by (simp add: next_ref_def ref_name_word)

lemma amount_after:
  assumes rd: "rand_ok rd" "fair rd" and g: "gen_inv g" "length (g_ledger g) < 1000" and range: "0 < lo" "lo + 1000 \<le> hi" "hi \<le> 10 ^ 6"
    and g': "used g' = used g"
  shows "\<exists>a r. amount rd lo hi g' = Some (a, g'\<lparr>g_rng := r, g_used := gm_put a True (g_used g')\<rparr>) \<and> lo \<le> a \<and> a < hi \<and> a \<notin> used g"
proof -
  have u: "finite (used g)" "card (used g) \<le> length (g_ledger g)"
    using g(1) card_length [of "map AmountMinor (g_ledger g)"] by (simp_all add: gen_inv_def)
  show ?thesis using amount_found [OF rd range(1) _ range(3), of g'] u g(2) range(2) by (simp add: g')
qed

text \<open>The two orders in which a block takes its reference and its amount.\<close>

lemma ref_amount:
  assumes "rand_ok rd" "fair rd" "gen_inv g" "length (g_ledger g) < 1000" "0 < lo" "lo + 1000 \<le> hi" "hi \<le> 10 ^ 6"
  obtains a r g1 where "lo \<le> a" "a < hi" "a \<notin> used g" "ref g = Some (next_ref g, g1)" "amount rd lo hi g1 = Some (a, pending g a r)"
proof -
  let ?g = "g\<lparr>g_seq := g_seq g + 1\<rparr>"
  obtain a r where a: "amount rd lo hi ?g = Some (a, ?g\<lparr>g_rng := r, g_used := gm_put a True (g_used ?g)\<rparr>)" "lo \<le> a" "a < hi" "a \<notin> used g"
    using amount_after [OF assms used_update(2)] by blast
  then show ?thesis by (intro that [of a ?g r]) (simp_all add: ref_def next_ref_def add.commute pending_def)
qed

lemma amount_ref:
  assumes "rand_ok rd" "fair rd" "gen_inv g" "length (g_ledger g) < 1000" "0 < lo" "lo + 1000 \<le> hi" "hi \<le> 10 ^ 6"
  obtains a r g1 where "lo \<le> a" "a < hi" "a \<notin> used g" "amount rd lo hi g = Some (a, g1)" "ref g1 = Some (next_ref g, pending g a r)"
proof -
  obtain a r where a: "amount rd lo hi g = Some (a, g\<lparr>g_rng := r, g_used := gm_put a True (g_used g)\<rparr>)" "lo \<le> a" "a < hi" "a \<notin> used g"
    using amount_after [OF assms refl] by blast
  then show ?thesis
    by (intro that [of a "g\<lparr>g_rng := r, g_used := gm_put a True (g_used g)\<rparr>" r]) (simp_all add: ref_def next_ref_def add.commute pending_def)
qed

lemma draw_step:
  assumes "rand_ok rd" "0 < n"
  obtains x r where "0 \<le> x" "x < n" "draw rd n g = Some (x, g\<lparr>g_rng := r\<rparr>)"
proof -
  obtain x r where x: "Intn rd n (g_rng g) = (x, r)" by force
  have "0 \<le> x" "x < n" using assms x unfolding rand_ok_def by (metis fst_conv)+
  then show ?thesis by (rule that) (simp add: draw_def x)
qed

lemma arn_step:
  obtains x r where "arn rd g = Some (''7451'' @ pad_str 19 x, g\<lparr>g_rng := r\<rparr>)"
proof -
  obtain x r where "Int63n rd (10 ^ 15) (g_rng g) = (x, r)" by force
  then show ?thesis by (intro that [of "nat x" r]) (simp add: gbind_def arn_def draw63_def gret_def)
qed

lemma pending_simps [simp]: "(pending g a r)\<lparr>g_rng := r'\<rparr> = pending g a r'" "g_ledger (pending g a r) = g_ledger g" "g_rail (pending g a r) = g_rail g"
  by (simp_all add: pending_def)

lemma ledger_step:
  assumes "rand_ok rd" and g: "gen_inv g" and a: "0 < a" "a \<notin> used g" and n: "names_ok ccy cp" "d \<in> days"
  obtains l g' where "ledgerLeg rd (next_ref g) a ccy cp d extra (pending g a r) = Some ((), g')"
    "gen_inv g'" "g_ledger g' = g_ledger g @ [l]" "g_rail g' = g_rail g"
    "TxnRef l = next_ref g" "AmountMinor l = a" "Currency l = ccy" "Counterparty l = cp" "ValueDate l = d" "Direction l = Debit"
proof -
  obtain x r' where x: "0 \<le> x" "x < int (length merchants)"
    "draw rd (int (length merchants)) (pending g a r) = Some (x, pending g a r')"
    using draw_step [OF assms(1), of "int (length merchants)" "pending g a r"] by (auto simp: merchants_def)
  define l where "l = make_leg ''ledger'' (next_ref g) a ccy cp d Debit (with_extra extra [(''account'', ''1200-SETTLEMENT-'' @ cp),
    (''merchant_id'', merchants ! nat x), (''channel'', ''card_present'')])"
  define g' where "g' = (pending g a r')\<lparr>g_ledger := g_ledger g @ [l]\<rparr>"
  have run: "ledgerLeg rd (next_ref g) a ccy cp d extra (pending g a r) = Some ((), g')"
    using x(1,2) by (simp add: ledgerLeg_def gbind_def x(3) Let_def g'_def l_def)
  have v: "valid_leg l" unfolding l_def by (rule make_leg_valid [OF n a(1) ref_word]) simp_all
  have l: "TxnRef l = next_ref g" "AmountMinor l = a" "Currency l = ccy" "Counterparty l = cp" "ValueDate l = d" "Direction l = Debit"
    by (simp_all add: l_def make_leg_def)
  have "gen_inv g'" using g v l(1,2) a(2) by (auto simp: gen_inv_def g'_def pending_def next_ref_def used_def)
  then show ?thesis using that [of g' l] run l by (simp add: g'_def)
qed

lemma rail_step:
  assumes g: "gen_inv g" and a: "0 < amt" and n: "names_ok ccy cp" "d \<in> days" "TrimSpace txn \<noteq> []"
  obtains l g' where "railLeg rd txn amt ccy cp d extra g = Some ((), g')"
    "gen_inv g'" "g_ledger g' = g_ledger g" "g_rail g' = g_rail g @ [l]"
    "TxnRef l = txn" "AmountMinor l = amt" "Currency l = ccy" "Counterparty l = cp" "ValueDate l = d" "Direction l = Credit"
proof -
  obtain x r where x: "arn rd g = Some (''7451'' @ pad_str 19 x, g\<lparr>g_rng := r\<rparr>)"
    using arn_step [of rd g] by blast
  define l where "l = make_leg ''card_network'' txn amt ccy cp d Credit
    (with_extra extra [(''arn'', ''7451'' @ pad_str 19 x), (''settlement_file'', cp @ ''-STL-20260916-01'')])"
  define g' where "g' = g\<lparr>g_rng := r, g_rail := g_rail g @ [l]\<rparr>"
  have run: "railLeg rd txn amt ccy cp d extra g = Some ((), g')" by (simp add: railLeg_def gbind_def x Let_def g'_def l_def)
  have v: "valid_leg l" unfolding l_def by (rule make_leg_valid [OF n(1,2) a n(3)]) simp_all
  have l: "TxnRef l = txn" "AmountMinor l = amt" "Currency l = ccy" "Counterparty l = cp" "ValueDate l = d" "Direction l = Credit"
    by (simp_all add: l_def make_leg_def)
  have "gen_inv g'" using g v by (auto simp: gen_inv_def g'_def used_def)
  then show ?thesis using that [of g' l] run l by (simp add: g'_def)
qed

subsection \<open>Blocks\<close>

text \<open>A block that adds so many ledger legs and rail legs, and whose result has a property.\<close>

definition makes :: "nat \<Rightarrow> nat \<Rightarrow> ('a \<Rightarrow> bool) \<Rightarrow> ('r, 'a) gen \<Rightarrow> bool" where
  "makes m n P op \<longleftrightarrow>
     (\<forall>g. gen_inv g \<and> length (g_ledger g) + m \<le> 1000 \<longrightarrow>
        (\<exists>x g' ls rs. op g = Some (x, g') \<and> P x \<and> gen_inv g' \<and> g_ledger g' = g_ledger g @ ls \<and> length ls = m \<and>
           g_rail g' = g_rail g @ rs \<and> length rs = n))"

lemma makesI:
  assumes "\<And>g. gen_inv g \<Longrightarrow> length (g_ledger g) + m \<le> 1000 \<Longrightarrow>
    \<exists>x g' ls rs. op g = Some (x, g') \<and> P x \<and> gen_inv g' \<and> g_ledger g' = g_ledger g @ ls \<and> length ls = m \<and> g_rail g' = g_rail g @ rs \<and> length rs = n"
  shows "makes m n P op"
  using assms unfolding makes_def by blast

lemma makesE:
  assumes "makes m n P op" "gen_inv g" "length (g_ledger g) + m \<le> 1000"
  obtains x g' ls rs where "op g = Some (x, g')" "P x" "gen_inv g'" "g_ledger g' = g_ledger g @ ls" "length ls = m"
    "g_rail g' = g_rail g @ rs" "length rs = n"
  using assms unfolding makes_def by blast

lemma makes_ret: "P x \<Longrightarrow> makes 0 0 P (gret x)"
  by (rule makesI) (simp add: gret_def)

lemma makes_weaken:
  fixes op :: "('r, 'a) gen"
  assumes "makes m n P op" "\<And>x. P x \<Longrightarrow> Q x"
  shows "makes m n Q op"
proof (rule makesI)
  fix g :: "'r Gen" assume "gen_inv g" "length (g_ledger g) + m \<le> 1000"
  from makesE [OF assms(1) this] assms(2)
  show "\<exists>x g' ls rs. op g = Some (x, g') \<and> Q x \<and> gen_inv g' \<and> g_ledger g' = g_ledger g @ ls \<and> length ls = m \<and> g_rail g' = g_rail g @ rs \<and> length rs = n"
    by metis
qed

lemma makes_bind:
  fixes op :: "('r, 'a) gen"
  assumes op: "makes m n P op" and f: "\<And>x. P x \<Longrightarrow> makes m' n' Q (f x)" and sums: "M = m + m'" "N = n + n'"
  shows "makes M N Q (gbind op f)"
proof (rule makesI)
  fix g :: "'r Gen" assume g: "gen_inv g" "length (g_ledger g) + M \<le> 1000"
  have "length (g_ledger g) + m \<le> 1000" using g(2) sums by simp
  then obtain x g1 ls rs where x: "op g = Some (x, g1)" "P x" and 1: "gen_inv g1" "g_ledger g1 = g_ledger g @ ls" "length ls = m"
    "g_rail g1 = g_rail g @ rs" "length rs = n" using makesE [OF op g(1)] by metis
  have "length (g_ledger g1) + m' \<le> 1000" using g(2) 1(2,3) sums by simp
  then obtain y g2 ls' rs' where y: "f x g1 = Some (y, g2)" "Q y" and 2: "gen_inv g2"
    "g_ledger g2 = g_ledger g1 @ ls'" "length ls' = m'" "g_rail g2 = g_rail g1 @ rs'" "length rs' = n'"
    using makesE [OF f [OF x(2)] 1(1)] by metis
  have "gbind op f g = Some (y, g2)" using x(1) y(1) by (simp add: gbind_def)
  moreover have "g_ledger g2 = g_ledger g @ (ls @ ls')" "g_rail g2 = g_rail g @ (rs @ rs')"
    "length (ls @ ls') = M" "length (rs @ rs') = N" using 1 2 sums by simp_all
  ultimately show "\<exists>x g' ls rs. gbind op f g = Some (x, g') \<and> Q x \<and> gen_inv g' \<and> g_ledger g' = g_ledger g @ ls \<and> length ls = M \<and>
      g_rail g' = g_rail g @ rs \<and> length rs = N" using y(2) 2(1) by blast
qed

lemma makes_for:
  assumes "\<And>i. i \<in> set is \<Longrightarrow> makes (m i) n (\<lambda>_. True) (f i)"
  shows "makes (sum_list (map m is)) (length is * n) (\<lambda>_. True) (gfor f is)"
  using assms
proof (induction "is")
  case (Cons i "is")
  show ?case unfolding gfor.simps by (rule makes_bind [OF Cons.prems Cons.IH]) (use Cons.prems in simp_all)
qed (simp add: makes_ret)

lemma gbind_ret [simp]: "gbind op gret = op"
  by (auto simp: gbind_def gret_def fun_eq_iff split: option.splits)

lemma makes_rail: "0 < amt \<Longrightarrow> names_ok ccy cp \<Longrightarrow> d \<in> days \<Longrightarrow> TrimSpace txn \<noteq> [] \<Longrightarrow> makes 0 (Suc 0) (\<lambda>_. True) (railLeg rd txn amt ccy cp d extra)"
  by (rule makesI, erule rail_step [of _ amt ccy cp d txn rd extra]) auto

text \<open>
  Booking a ledger leg: reference and amount in either order, perhaps another draw, the leg, and what follows.
\<close>

lemma makes_booked:
  assumes rd: "rand_ok rd" and g: "gen_inv g" "length (g_ledger g) + Suc m \<le> 1000" and a: "0 < a" "a \<notin> used g"
    and n: "names_ok ccy cp" "d \<in> days" and k: "makes m n P k"
  shows "\<exists>x g' ls rs. gbind (ledgerLeg rd (next_ref g) a ccy cp d extra) (\<lambda>_. k) (pending g a r) = Some (x, g') \<and> P x \<and> gen_inv g' \<and>
    g_ledger g' = g_ledger g @ ls \<and> length ls = Suc m \<and> g_rail g' = g_rail g @ rs \<and> length rs = n"
proof -
  obtain l g1 where 1: "ledgerLeg rd (next_ref g) a ccy cp d extra (pending g a r) = Some ((), g1)" "gen_inv g1"
    "g_ledger g1 = g_ledger g @ [l]" "g_rail g1 = g_rail g" using ledger_step [OF rd g(1) a n, of extra r] .
  have "length (g_ledger g1) + m \<le> 1000" using g(2) 1(3) by simp
  from makesE [OF k 1(2) this] obtain x g' ls rs where "k g1 = Some (x, g')" "P x" "gen_inv g'" "g_ledger g' = g_ledger g1 @ ls" "length ls = m"
    "g_rail g' = g_rail g1 @ rs" "length rs = n" by blast
  then show ?thesis using 1 by (intro exI [of _ x] exI [of _ g'] exI [of _ "l # ls"] exI [of _ rs]) (simp add: gbind_def)
qed

lemma makes_book:
  assumes rd: "rand_ok rd" "fair rd" and range: "0 < lo" "lo + 1000 \<le> hi" "hi \<le> 10 ^ 6" and n: "names_ok ccy cp" "d \<in> days"
    and k: "\<And>r a. lo \<le> a \<Longrightarrow> a < hi \<Longrightarrow> TrimSpace r \<noteq> [] \<Longrightarrow> makes m n P (k r a)"
  shows "makes (Suc m) n P (gbind ref (\<lambda>r. gbind (amount rd lo hi) (\<lambda>a. gbind (ledgerLeg rd r a ccy cp d extra) (\<lambda>_. k r a))))"
    "makes (Suc m) n P (gbind (amount rd lo hi) (\<lambda>a. gbind ref (\<lambda>r. gbind (ledgerLeg rd r a ccy cp d extra) (\<lambda>_. k r a))))"
proof (rule_tac [!] makesI)
  fix g :: "'a Gen" assume g: "gen_inv g" "length (g_ledger g) + Suc m \<le> 1000"
  have len: "length (g_ledger g) < 1000" using g(2) by simp
  obtain a r g1 where a: "lo \<le> a" "a < hi" "a \<notin> used g" "ref g = Some (next_ref g, g1)" "amount rd lo hi g1 = Some (a, pending g a r)"
    using ref_amount [OF rd g(1) len range] .
  then show "\<exists>x g' ls rs. gbind ref (\<lambda>r. gbind (amount rd lo hi) (\<lambda>a. gbind (ledgerLeg rd r a ccy cp d extra) (\<lambda>_. k r a))) g = Some (x, g') \<and> P x \<and>
      gen_inv g' \<and> g_ledger g' = g_ledger g @ ls \<and> length ls = Suc m \<and> g_rail g' = g_rail g @ rs \<and> length rs = n"
    using makes_booked [OF rd(1) g _ a(3) n k [OF a(1,2) ref_word], where extra = extra and r = r] range(1) by (simp add: gbind_def [of ref] gbind_def [of "amount rd lo hi"])
next
  fix g :: "'a Gen" assume g: "gen_inv g" "length (g_ledger g) + Suc m \<le> 1000"
  have len: "length (g_ledger g) < 1000" using g(2) by simp
  obtain a r g1 where a: "lo \<le> a" "a < hi" "a \<notin> used g" "amount rd lo hi g = Some (a, g1)" "ref g1 = Some (next_ref g, pending g a r)"
    using amount_ref [OF rd g(1) len range] .
  then show "\<exists>x g' ls rs. gbind (amount rd lo hi) (\<lambda>a. gbind ref (\<lambda>r. gbind (ledgerLeg rd r a ccy cp d extra) (\<lambda>_. k r a))) g = Some (x, g') \<and> P x \<and>
      gen_inv g' \<and> g_ledger g' = g_ledger g @ ls \<and> length ls = Suc m \<and> g_rail g' = g_rail g @ rs \<and> length rs = n"
    using makes_booked [OF rd(1) g _ a(3) n k [OF a(1,2) ref_word], where extra = extra and r = r] range(1) by (simp add: gbind_def [of ref] gbind_def [of "amount rd lo hi"])
qed

text \<open>The two legs of a clean pair agree as the first tier asks, two days apart at most.\<close>

definition clean :: "Leg \<Rightarrow> Leg \<Rightarrow> bool" where
  "clean l r \<longleftrightarrow>
     TxnRef r = TxnRef l \<and> AmountMinor r = AmountMinor l \<and> Currency r = Currency l \<and> Counterparty r = Counterparty l \<and>
     Direction l = Debit \<and> Direction r = Credit \<and> DaysBetween (ValueDate l) (ValueDate r) \<le> 2"

lemma clean_days: "DaysBetween d14 d16 \<le> 2" "DaysBetween d15 d16 \<le> 2"
  by code_simp+

lemma clean_step:
  assumes rd: "rand_ok rd" "fair rd" and g: "gen_inv g" "length (g_ledger g) < 1000"
  obtains l r g' where "clean_pair rd i g = Some ((), g')" "gen_inv g'" "g_ledger g' = g_ledger g @ [l]" "g_rail g' = g_rail g @ [r]" "clean l r"
proof -
  have range: "(0 :: int) < 500" "(500 :: int) + 1000 \<le> 250000" "(250000 :: int) \<le> 10 ^ 6" by simp_all
  obtain ccy cp where n: "network i = (ccy, cp)" by force
  define d where "d = (if i mod 2 = 0 then d15 else d14)"
  have d: "d \<in> days" "DaysBetween d d16 \<le> 2" using clean_days by (simp_all add: d_def)
  obtain a r g1 where a: "500 \<le> a" "a < 250000" "a \<notin> used g" "ref g = Some (next_ref g, g1)" "amount rd 500 250000 g1 = Some (a, pending g a r)"
    using ref_amount [OF rd g range] .
  then have pos: "0 < a" by simp
  obtain l g2 where l: "ledgerLeg rd (next_ref g) a ccy cp d [] (pending g a r) = Some ((), g2)" "gen_inv g2" "g_ledger g2 = g_ledger g @ [l]"
    "g_rail g2 = g_rail g" "TxnRef l = next_ref g" "AmountMinor l = a" "Currency l = ccy" "Counterparty l = cp" "ValueDate l = d" "Direction l = Debit"
    using ledger_step [OF rd(1) g(1) pos a(3) network_ok [OF n] d(1)] .
  obtain rl g3 where r: "railLeg rd (next_ref g) a ccy cp d16 [] g2 = Some ((), g3)" "gen_inv g3" "g_ledger g3 = g_ledger g2" "g_rail g3 = g_rail g2 @ [rl]"
    "TxnRef rl = next_ref g" "AmountMinor rl = a" "Currency rl = ccy" "Counterparty rl = cp" "ValueDate rl = d16" "Direction rl = Credit"
    using rail_step [OF l(2) pos network_ok [OF n] in_days(3) ref_word] .
  have "clean_pair rd i g = Some ((), g3)" using a(4,5) l(1) r(1) by (simp add: clean_pair_def n gbind_def Let_def d_def)
  then show ?thesis using that [of g3 l rl] l(3-10) r(2-10) d(2) by (simp add: clean_def)
qed

lemma clean_loop:
  assumes rd: "rand_ok rd" "fair rd"
  shows "gen_inv g \<Longrightarrow> length (g_ledger g) + length is \<le> 1000 \<Longrightarrow> list_all2 clean (g_ledger g) (g_rail g) \<Longrightarrow>
    \<exists>g'. gfor (clean_pair rd) is g = Some ((), g') \<and> gen_inv g' \<and> list_all2 clean (g_ledger g') (g_rail g') \<and>
      length (g_ledger g') = length (g_ledger g) + length is"
proof (induction "is" arbitrary: g)
  case (Cons i "is")
  have "length (g_ledger g) < 1000" using Cons.prems(2) by simp
  then obtain l r g1 where 1: "clean_pair rd i g = Some ((), g1)" "gen_inv g1" "g_ledger g1 = g_ledger g @ [l]" "g_rail g1 = g_rail g @ [r]" "clean l r"
    using clean_step [OF rd Cons.prems(1), where i = i] by metis
  have "length (g_ledger g1) + length is \<le> 1000" "list_all2 clean (g_ledger g1) (g_rail g1)"
    using Cons.prems(2,3) 1(3-5) by (simp_all add: list_all2_appendI)
  from Cons.IH [OF 1(2) this] show ?case using 1(1,3) by (simp add: gbind_def)
qed (simp add: gret_def)

lemma makes_rounding:
  assumes rd: "rand_ok rd" "fair rd"
  shows "makes (Suc 0) (Suc 0) (\<lambda>_. True) (rounding_pair rd i)"
proof (rule makesI)
  fix g :: "'a Gen" assume g: "gen_inv g" "length (g_ledger g) + Suc 0 \<le> 1000"
  have len: "length (g_ledger g) < 1000" and range: "(0 :: int) < 20000" "(20000 :: int) + 1000 \<le> 400000" "(400000 :: int) \<le> 10 ^ 6"
    using g(2) by simp_all
  obtain ccy cp where n: "network i = (ccy, cp)" by force
  obtain a r g1 where a: "20000 \<le> a" "a < 400000" "a \<notin> used g" "ref g = Some (next_ref g, g1)"
    "amount rd 20000 400000 g1 = Some (a, pending g a r)" using ref_amount [OF rd g(1) len range] .
  obtain x r' where x: "0 \<le> x" "x < 2" "draw rd 2 (pending g a r) = Some (x, pending g a r')"
    using draw_step [OF rd(1), of 2 "pending g a r"] by (metis pending_simps(1) zero_less_numeral)
  define delta where "delta = (if i mod 2 = 0 then i64 (- i64 (1 + x)) else i64 (1 + x))"
  have i: "i64 (1 + x) = 1 + x" "i64 (- 1 - x) = - 1 - x" using x(1,2) by (auto intro!: i64_id simp: in_i64_def)
  have "- 2 \<le> delta" "delta \<le> 2" using x(1,2) by (auto simp: delta_def i)
  then have pos: "0 < i64 (a + delta)" using a(1,2) by (subst i64_id) (auto simp: in_i64_def)
  have k: "makes 0 (Suc 0) (\<lambda>_. True) (railLeg rd (next_ref g) (i64 (a + delta)) ccy cp d16 [(''rounding'', ''scheme'')])"
    by (rule makes_rail [OF pos network_ok [OF n] in_days(3) ref_word])
  have "rounding_pair rd i g = gbind (ledgerLeg rd (next_ref g) a ccy cp d15 []) (\<lambda>_.
      railLeg rd (next_ref g) (i64 (a + delta)) ccy cp d16 [(''rounding'', ''scheme'')]) (pending g a r')"
    by (simp add: rounding_pair_def n gbind_def [of ref] gbind_def [of "amount rd 20000 400000"] gbind_def [of "draw rd 2"] a x Let_def delta_def)
  then show "\<exists>x g' ls rs. rounding_pair rd i g = Some (x, g') \<and> True \<and> gen_inv g' \<and> g_ledger g' = g_ledger g @ ls \<and> length ls = Suc 0 \<and>
      g_rail g' = g_rail g @ rs \<and> length rs = Suc 0"
    using makes_booked [OF rd(1) g _ a(3) network_ok [OF n] in_days(2) k, where extra = "[]" and r = r'] a(1) by simp
qed

lemma makes_batch_legs:
  assumes rd: "rand_ok rd" "fair rd" and "0 \<le> acc" "acc + 90000 * int n \<le> 10 ^ 9"
  shows "makes n 0 (\<lambda>x. acc + 1000 * int n \<le> x \<and> x \<le> 10 ^ 9) (batch_legs rd batch n acc)"
  using assms(3,4)
proof (induction n arbitrary: acc)
  case 0
  then show ?case by (simp add: makes_ret)
next
  case (Suc n)
  let ?P = "\<lambda>x. acc + 1000 * int (Suc n) \<le> x \<and> x \<le> 10 ^ 9"
  have "makes n 0 ?P (batch_legs rd batch n (i64 (acc + a)))" if "1000 \<le> a" "a < 90000" for a
  proof -
    have "i64 (acc + a) = acc + a" using that Suc.prems by (intro i64_id) (auto simp: in_i64_def)
    moreover have "makes n 0 (\<lambda>x. acc + a + 1000 * int n \<le> x \<and> x \<le> 10 ^ 9) (batch_legs rd batch n (acc + a))"
      using that Suc.prems by (intro Suc.IH) auto
    ultimately show ?thesis using that by (auto elim!: makes_weaken)
  qed
  then show ?case unfolding batch_legs.simps Let_def by (intro makes_book(2) [OF rd]) (simp_all add: names_ok_def)
qed

lemma gen_inv_rng [simp]: "gen_inv (g\<lparr>g_rng := r\<rparr>) = gen_inv g"
  by (simp add: gen_inv_def)

lemma makes_arn: "makes 0 0 (\<lambda>n. \<forall>c \<in> set n. plain c) (arn rd)"
proof (rule makesI)
  fix g :: "'a Gen" assume g: "gen_inv g"
  obtain x r where x: "arn rd g = Some (''7451'' @ pad_str 19 x, g\<lparr>g_rng := r\<rparr>)" using arn_step [of rd g] by blast
  have "\<forall>c \<in> set (''7451'' @ pad_str 19 x). plain c" using pad_plain [of 19 x] by (auto simp: plain_def less_char_def)
  then show "\<exists>n g' ls rs. arn rd g = Some (n, g') \<and> (\<forall>c \<in> set n. plain c) \<and> gen_inv g' \<and> g_ledger g' = g_ledger g @ ls \<and> length ls = 0 \<and>
      g_rail g' = g_rail g @ rs \<and> length rs = 0"
    using x g by (intro exI [of _ "''7451'' @ pad_str 19 x"] exI [of _ "g\<lparr>g_rng := r\<rparr>"]) simp
qed

lemma makes_batch:
  assumes rd: "rand_ok rd" "fair rd"
  shows "makes (if b = 3 then 4 else 3) (Suc 0) (\<lambda>_. True) (batch_settlement rd b)"
proof -
  define batch where "batch = ''VISA-BATCH-20260915-'' @ pad_str 2 (b + 1)"
  have word: "TrimSpace batch \<noteq> []"
    by (rule TrimSpace_word) (use pad_plain [of 2 "b + 1"] in \<open>auto simp: batch_def plain_def less_char_def\<close>)
  define n :: nat where "n = (if b = 3 then 4 else 3)"
  have n: "n \<le> 4" "0 < n" by (simp_all add: n_def)
  have "makes n 0 (\<lambda>x. 0 + 1000 * int n \<le> x \<and> x \<le> 10 ^ 9) (batch_legs rd batch n 0)"
    using n by (intro makes_batch_legs [OF rd]) auto
  then have "makes n (Suc 0) (\<lambda>_. True) (gbind (batch_legs rd batch n 0) (\<lambda>acc.
      railLeg rd batch acc ''USD'' ''VISA'' d16 [(''record_type'', ''batch_settlement'')]))"
    by (rule makes_bind) (use n word in \<open>auto intro!: makes_rail simp: names_ok_def\<close>)
  then show ?thesis by (simp only: batch_settlement_def Let_def batch_def n_def)
qed

lemma makes_unechoed:
  assumes rd: "rand_ok rd" "fair rd"
  shows "makes (Suc 0) (Suc 0) (\<lambda>_. True) (unechoed_pair rd i)"
  unfolding unechoed_pair_def
proof (rule makes_book(2) [OF rd])
  fix r a assume "300000 \<le> (a :: int)" "TrimSpace r \<noteq> []"
  then have "makes 0 (Suc 0) (\<lambda>_. True) (railLeg rd (''ARN-'' @ take 12 n) a ''USD'' ''VISA'' d16 [])" if "\<forall>c \<in> set n. plain c" for n
    using that set_take_subset [of 12 n]
    by (intro makes_rail TrimSpace_word) (auto simp: names_ok_def plain_def less_char_def)
  then show "makes 0 (Suc 0) (\<lambda>_. True) (gbind (arn rd) (\<lambda>n. railLeg rd (''ARN-'' @ take 12 n) a ''USD'' ''VISA'' d16 []))"
    by (rule makes_bind [OF makes_arn]) simp_all
qed (simp_all add: names_ok_def)

lemma fee_left: "100000 \<le> a \<Longrightarrow> a < 300000 \<Longrightarrow> 0 < i64 (a - sgn (i64 (a * 25)) * (\<bar>i64 (a * 25)\<bar> div 1000))"
proof -
  assume a: "100000 \<le> a" "a < 300000"
  have p: "i64 (a * 25) = a * 25" using a by (intro i64_id) (simp add: in_i64_def)
  have "0 < a - a * 25 div 1000" "a - a * 25 div 1000 \<le> a" using a by (simp_all add: pos_imp_zdiv_nonneg_iff)
  then show ?thesis using a by (subst i64_id) (simp_all add: p in_i64_def)
qed

lemma eur_left: "50000 \<le> a \<Longrightarrow> a < 120000 \<Longrightarrow> 0 < int64_of_f64 (f64 (f64_of_int64 a * f64 (9183 / 10000)))"
proof -
  assume a: "50000 \<le> a" "a < 120000"
  have half: "1 / 2 \<le> f64 (9183 / 10000)" "f64 (9183 / 10000) \<le> 1"
    using f64_mono [of "1 / 2" "9183 / 10000"] f64_mono [of "9183 / 10000" 1] f64_half [of 0] f64_of_int [of 1] by simp_all
  define x where "x = of_int a * f64 (9183 / 10000)"
  have "of_int a * (1 / 2) \<le> x" "x \<le> of_int a * 1" unfolding x_def using half a by (auto intro!: mult_left_mono)
  then have "1 \<le> x" "x \<le> of_int 120000" using a by (auto intro: order_trans)
  then have f: "1 \<le> f64 x" "f64 x \<le> 120000"
    using f64_mono [of 1 x] f64_mono [of x "of_int 120000"] f64_of_int [of 1] f64_of_int [of 120000] by simp_all
  have "1 \<le> \<lfloor>f64 x\<rfloor>" "\<lfloor>f64 x\<rfloor> \<le> 120000" using f by (simp_all add: le_floor_iff floor_le_iff)
  then have "0 < int64_of_f64 (f64 x)" using f(1) by (simp add: int64_of_f64_def Let_def in_i64_def)
  moreover have "f64_of_int64 a = of_int a" using a by (intro f64_of_int64_small) simp
  ultimately show ?thesis by (simp add: x_def)
qed

lemma makes_breaks:
  assumes rd: "rand_ok rd" "fair rd"
  shows "makes (Suc 0) (Suc 0) (\<lambda>_. True) (fee_break rd)" "makes (Suc 0) (Suc 0) (\<lambda>_. True) (fx_break rd)"
    "makes (Suc 0) (Suc 0) (\<lambda>_. True) (timing_break rd)" "names_ok ccy cp \<Longrightarrow> makes (Suc 0) 0 (\<lambda>_. True) (unsettled rd ccy cp)"
proof -
  show "makes (Suc 0) (Suc 0) (\<lambda>_. True) (fee_break rd)" unfolding fee_break_def Let_def
    by (intro makes_book(1) [OF rd] makes_rail fee_left) (simp_all add: names_ok_def)
  show "makes (Suc 0) (Suc 0) (\<lambda>_. True) (fx_break rd)" unfolding fx_break_def Let_def
    by (intro makes_book(1) [OF rd] makes_rail eur_left) (simp_all add: names_ok_def)
  show "makes (Suc 0) (Suc 0) (\<lambda>_. True) (timing_break rd)" unfolding timing_break_def
    by (intro makes_book(1) [OF rd] makes_rail) (simp_all add: names_ok_def)
  assume "names_ok ccy cp"
  then show "makes (Suc 0) 0 (\<lambda>_. True) (unsettled rd ccy cp)"
    using makes_book(1) [OF rd _ _ _ _ in_days(2) makes_ret [of "\<lambda>_. True" "()"], of 5000 40000 ccy cp "[(''note'', ''authorised, never presented'')]"]
    by (simp add: unsettled_def)
qed

lemma makes_rest:
  assumes rd: "rand_ok rd" "fair rd"
  shows "makes 29 18 (\<lambda>_. True)
    (gbind (gfor (rounding_pair rd) [0 ..< 9]) (\<lambda>_. gbind (gfor (batch_settlement rd) [0 ..< 4]) (\<lambda>_.
     gbind (gfor (unechoed_pair rd) [0 ..< 2]) (\<lambda>_. gbind (fee_break rd) (\<lambda>_. gbind (fx_break rd) (\<lambda>_. gbind (timing_break rd) (\<lambda>_.
     gbind (unsettled rd ''USD'' ''VISA'') (\<lambda>_. unsettled rd ''GBP'' ''MASTERCARD''))))))))"
proof -
  have loops: "makes 9 9 (\<lambda>_. True) (gfor (rounding_pair rd) [0 ..< 9])" "makes 2 2 (\<lambda>_. True) (gfor (unechoed_pair rd) [0 ..< 2])"
    using makes_for [of "[0 ..< 9]" "\<lambda>_. Suc 0", OF makes_rounding [OF rd]] makes_for [of "[0 ..< 2]" "\<lambda>_. Suc 0", OF makes_unechoed [OF rd]]
    by (simp_all add: sum_list_triv)
  have "sum_list (map (\<lambda>b. if b = 3 then 4 else 3) [0 ..< 4]) = (13 :: nat)" by (simp add: upt_rec)
  then have batches: "makes 13 4 (\<lambda>_. True) (gfor (batch_settlement rd) [0 ..< 4])"
    using makes_for [of "[0 ..< 4]" "\<lambda>b. if b = 3 then 4 else 3", OF makes_batch [OF rd]] by simp
  have n: "names_ok ''USD'' ''VISA''" "names_ok ''GBP'' ''MASTERCARD''" by (simp_all add: names_ok_def)
  note blocks = makes_breaks(1-3) [OF rd] makes_breaks(4) [OF rd n(1)] makes_breaks(4) [OF rd n(2)]
  show ?thesis
    by (rule makes_bind [OF loops(1)], rule makes_bind [OF batches], rule makes_bind [OF loops(2)], rule makes_bind [OF blocks(1)],
        rule makes_bind [OF blocks(2)], rule makes_bind [OF blocks(3)], rule makes_bind [OF blocks(4) blocks(5)]) (rule refl | simp)+
qed

lemma sample_legs_made:
  assumes rd: "rand_ok rd" "fair rd"
  obtains g where "sample_legs rd \<lparr>g_rng = rng, g_used = [], g_seq = 0, g_ledger = [], g_rail = []\<rparr> = Some ((), g)" "gen_inv g"
    "length (g_ledger g) = 105" "length (g_rail g) = 94" "list_all2 clean (take 76 (g_ledger g)) (take 76 (g_rail g))"
proof -
  let ?g = "\<lparr>g_rng = rng, g_used = [], g_seq = 0, g_ledger = [], g_rail = []\<rparr>"
  have "gen_inv ?g" by (simp add: gen_inv_def used_def)
  then obtain g1 where 1: "gfor (clean_pair rd) [0 ..< 76] ?g = Some ((), g1)" "gen_inv g1" "list_all2 clean (g_ledger g1) (g_rail g1)"
    "length (g_ledger g1) = 76"
    using clean_loop [OF rd, of ?g "[0 ..< 76]"] by auto
  have len: "length (g_ledger g1) + 29 \<le> 1000" using 1(4) by simp
  from makesE [OF makes_rest [OF rd] 1(2) len] obtain x g ls rs where 2:
    "gbind (gfor (rounding_pair rd) [0 ..< 9]) (\<lambda>_. gbind (gfor (batch_settlement rd) [0 ..< 4]) (\<lambda>_.
     gbind (gfor (unechoed_pair rd) [0 ..< 2]) (\<lambda>_. gbind (fee_break rd) (\<lambda>_. gbind (fx_break rd) (\<lambda>_. gbind (timing_break rd) (\<lambda>_.
     gbind (unsettled rd ''USD'' ''VISA'') (\<lambda>_. unsettled rd ''GBP'' ''MASTERCARD''))))))) g1 = Some (x, g)"
    "gen_inv g" "g_ledger g = g_ledger g1 @ ls" "length ls = 29" "g_rail g = g_rail g1 @ rs" "length rs = 18" by metis
  have "sample_legs rd ?g = Some ((), g)" using 1(1) 2(1) unfolding sample_legs_def by (subst gbind_def) simp
  moreover have "length (g_rail g1) = 76" using list_all2_lengthD [OF 1(3)] 1(4) by simp
  ultimately show ?thesis using that [of g] 1(3,4) 2(2-6) by simp
qed

subsection \<open>The written document\<close>

definition blank :: "Leg \<Rightarrow> Leg" where
  "blank l = l\<lparr>ID := '''', IngestedAt := time_zero\<rparr>"

lemma blank_simps [simp]: "TxnRef (blank l) = TxnRef l" "AmountMinor (blank l) = AmountMinor l" "valid_leg (blank l) = valid_leg l"
    "clean (blank l) (blank r) = clean l r" "valid_leg (resent l) = valid_leg l"
  by (simp_all add: blank_def valid_leg_def clean_def resent_def)

lemma validate_all_valid: "\<forall>l \<in> set ls. valid_leg l \<Longrightarrow> validate_all ls = Inr (map blank ls)"
  by (induction ls) (simp_all add: Validate_valid blank_def)

lemma distinct_sorted: "distinct (map f (sort_key k xs)) = distinct (map f xs)"
  by (rule mset_eq_imp_distinct_iff) simp

lemma refs_distinct: "gen_inv g \<Longrightarrow> length (g_ledger g) \<le> 1000 \<Longrightarrow> distinct (map TxnRef (g_ledger g))"
proof -
  assume g: "gen_inv g" "length (g_ledger g) \<le> 1000"
  have "inj_on (\<lambda>k. ref_name (240001 + int k)) {0 ..< length (g_ledger g)}"
  proof (rule inj_onI)
    fix x y assume "x \<in> {0 ..< length (g_ledger g)}" "y \<in> {0 ..< length (g_ledger g)}" "ref_name (240001 + int x) = ref_name (240001 + int y)"
    then have "240001 + int x = 240001 + int y" using g(2) by (intro ref_name_inj) simp_all
    then show "x = y" by simp
  qed
  then show ?thesis using g(1) by (simp add: gen_inv_def distinct_map)
qed


text \<open>A generator that counts.\<close>

definition counting :: "nat Rand" where
  "counting = \<lparr>Int63n = (\<lambda>n s. (int s mod n, Suc s)), Intn = (\<lambda>n s. (int s mod n, Suc s))\<rparr>"

lemma counting_draw: "nth_draw counting n k s = int (s + k) mod n"
  by (induction k arbitrary: s) (simp_all add: counting_def add.assoc)

lemma counting_ok: "rand_ok counting" "fair counting"
proof -
  show "rand_ok counting" by (simp add: rand_ok_def counting_def)
  have "\<exists>k. nth_draw counting n k s \<notin> U" if "finite U" "int (card U) < n" for n :: int and s U
  proof -
    have "\<not> {0 ..< n} \<subseteq> U" using card_mono [OF that(1), of "{0 ..< n}"] that(2) by auto
    then obtain x where x: "0 \<le> x" "x < n" "x \<notin> U" by (meson atLeastLessThan_iff subsetI)
    have "int (s + nat ((x - int s) mod n)) mod n = x" using x(1,2) by (simp add: mod_add_right_eq)
    then show ?thesis using x(3) counting_draw by metis
  qed
  then show "fair counting" unfolding fair_def by blast
qed


end
