(* ===== verification/Spec2Isabelle.thy ===== *)
theory Spec2Isabelle
  imports Recon_Guarantees Recon_Service Recon_Middleware Recon_Migrations Recon_MemSource Recon_Mirror Recon_Gen
begin

text \<open>
  recon-stream reconciles payment records (legs) that several sources report about the same transactions. A leg comes in over HTTP or
  Kafka; the engine compares it with the legs that wait in its window, by tiers of rules of falling strictness, and records a match, or a
  break when the records contradict each other, or lets the leg wait; a leg that waits too long is broken out of the window by a
  sweeper. Every decision is an event of an append-only log, from which the rest of the state can be rebuilt. This development
  follows the Go sources under \<open>src/\<close>, function by function, and proves that the pieces work and work together.

  \<^bold>\<open>The parts and the theories.\<close>

  \<^item> \<open>Recon_Prelude\<close>: 64-bit integers with their wrap-around (\<open>i64\<close>), Go maps as association lists (\<open>gm_get\<close>, \<open>gm_put\<close>,
    \<open>gm_del\<close>), errors as the values \<open>goerr\<close> with \<open>errors.Is\<close> as \<open>err_is\<close>, results \<open>goerr + 'a\<close>, and contexts as functions from the
    number of a check to its answer.
  \<^item> \<open>Go_Float\<close>, \<open>Go_Strings\<close>, \<open>Go_Calendar\<close>, \<open>Go_Parse\<close>: what the program uses of the standard library. A \<open>float64\<close> is the rational
    number it denotes and every operation rounds to 53 bits; trimming knows the white space of Unicode; the calendar is the proleptic
    Gregorian one; numbers, booleans and durations are parsed as \<open>strconv\<close> and \<open>time\<close> do it.
  \<^item> \<open>Recon_Leg\<close>, \<open>Recon_Rules\<close>, \<open>Recon_Types\<close>: \<open>leg.go\<close>, \<open>rules.go\<close>, \<open>match.go\<close>, \<open>event.go\<close> and \<open>classifier.go\<close> of
    \<open>internal/domain/recon\<close>: legs with validation, dates and content hash, tolerances, matches, breaks, events and change sets.
  \<^item> \<open>Recon_Index\<close>: the window of open legs (\<open>index.go\<close>), a primary map and three secondary maps, refined to a finite map; every query
    equals a sorted selection from a full scan.
  \<^item> \<open>Recon_SubsetSum\<close>, \<open>Recon_Matcher\<close>: the tiers of \<open>matcher.go\<close> and the bounded search for a subset of given sum.
  \<^item> \<open>Recon_Repository\<close>, \<open>Recon_MemStore\<close>: the store as the engine sees it, a record of operations with the laws of the locales
    \<open>repository\<close> and \<open>reliable_repository\<close> over the projections it keeps, and the memory store
    (\<open>internal/adapters/memory/store.go\<close>), which interprets them. A store may rely on the engine changing, of a leg that is stored already,
    nothing but its status and its references (\<open>updates_legs\<close>).
  \<^item> \<open>Recon_Engine\<close>: \<open>engine.go\<close>, every operation over an arbitrary repository and an arbitrary classifier, with all error paths.
    \<open>Recon_Lifecycle\<close>, \<open>Recon_Operations\<close>, \<open>Recon_Replay\<close> and \<open>Recon_Progress\<close> prove its lemmas once, inside the locales;
    \<open>Recon_System\<close> makes it a transition system over the memory store (\<open>sys_step\<close>, \<open>reachable\<close>) with an invariant;
    \<open>Recon_Guarantees\<close> holds the resulting properties.
  \<^item> \<open>Recon_Classify\<close>, \<open>Recon_Config\<close>: the break classifier (\<open>internal/domain/classify/heuristic.go\<close>) and the configuration
    (\<open>internal/config/config.go\<close>), the latter in a state monad whose state is the list of errors that the reader collects.
  \<^item> \<open>Recon_Http\<close>, \<open>Recon_Api\<close>: the handlers of \<open>internal/api/http/server.go\<close> from request to response, and what the API promises.
    \<open>Recon_Observability\<close>: logging and tracing (\<open>logger.go\<close> and \<open>tracing.go\<close> of \<open>internal/observability\<close>);
    \<open>Recon_Middleware\<close>: the chain around the handlers (\<open>middleware.go\<close>) and the metrics (\<open>metrics.go\<close>).
  \<^item> \<open>Recon_Source\<close>: what \<open>ports.LegSource\<close> promises, as the locale \<open>leg_source\<close>: a loop in rounds, each of which hands at most
    one batch to the handler and touches the handler's state in no other way. \<open>Recon_Kafka\<close> (the consumer loop of
    \<open>internal/adapters/kafka/source.go\<close>) and \<open>Recon_MemSource\<close> (the channel of \<open>internal/adapters/memory/source.go\<close>) interpret it.
  \<^item> \<open>Recon_Postgres\<close>, \<open>Recon_Migrations\<close>: the PostgreSQL store (\<open>internal/adapters/postgres/store.go\<close>) as the effect of its statements
    on tables, against the memory store; and its start-up with the migrations (\<open>migrations/migrations.go\<close>). \<open>Recon_Mirror\<close> runs the
    engine over both stores at once, with any pattern of failed transactions, as one more instance of \<open>repository\<close>.
  \<^item> \<open>Recon_Service\<close>: \<open>cmd/recon-stream/main.go\<close>, that is start-up, the sweeper and the source, the service as interleaved steps of
    requests, Kafka rounds and sweeps, and the end of the process with its exit code. The mutex of the engine makes each of its operations
    one step.
  \<^item> \<open>Recon_Gen\<close>: the generator of the sample file (\<open>examples/gen/main.go\<close>).

  \<^bold>\<open>What is shown.\<close>

  \<^item> The engine, in every state that any history of operations reaches: the window holds exactly the open legs of the store; a
    matched leg never changes; statuses follow their life cycle; the reported outcome is the stored one; every leg has its event and
    the log decodes; redelivery changes nothing but the log; a failed operation leaves projections and window alone, over every store that
    keeps the contract; a sweep breaks out exactly the expired legs; a restart rebuilds the window; a replay ends, equals feeding the
    events one by one and restores every leg the log has seen ingested.
  \<^item> The matcher: each proposed match satisfies its rule, tiers never compete, the result depends on the set of open legs alone, and
    the subset search decides its problem within its budget of nodes.
  \<^item> The data: identifiers are equal exactly for equal business content up to embedded zero bytes (which do alias), dates round-trip,
    float computations are exact in the ranges that matter.
  \<^item> The edges: the API keeps the engine reachable, refuses without effect and answers every live request without an internal error;
    a configuration that loads is valid; committed Kafka records were taken as long as no batch failed; the two stores agree after
    every change set and on reads, at the precision of the database, and the tables follow the engine through every history and every failed
    transaction; migrations run once; requests, Kafka rounds and sweeps may interleave in any order; the process exits with the error of
    the part that failed; the memory source is a queue; the sample file is as its description says; metrics and access log record what was sent, under the request's identifier.
  \<^item> Where the code falls short of its documentation there is a theorem as well: a failed Kafka batch is committed with the next one,
    spans never carry a status, the line of a recovered panic has no request identifier, embedded zero bytes let two different legs share an
    identifier.

  \<^bold>\<open>Bounds and fuel.\<close> \<open>Replay\<close> takes fuel; as many rounds as the log has full pages of 500 events and two more are enough
  (\<open>replay_terminates\<close>). The loop in which the generator looks for a fresh amount is a \<open>partial_function\<close>; it is shown to come back for
  every source of numbers that does not avoid all fresh ones. The subset search has the budget of nodes of the source, 200000, and is total. The loops of the sources and
  of the sweeper run as long as the process does: they are functions of the list of rounds and theorems hold for every such list.

  \<^bold>\<open>Arguments of the model.\<close> SHA-256 is a function (its collisions are a hypothesis where identity matters); the decoding of JSON bodies
  and records, the Kafka client, the failures and the collation of the database, the clock, the cancellation of contexts, the choice of a \<open>select\<close>,
  the handler of \<open>slog\<close>, the exporter of OpenTelemetry, the generator of \<open>math/rand\<close>, what listener and drain return, and the embedded
  directory are arguments, with hypotheses that state their documented behaviour and an instance that satisfies them. PostgreSQL is not an
  instance of \<open>repository\<close>: its numbers have gaps after a failed transaction and its times lose their nanoseconds, so it is related
  to the memory store by a simulation of its own. A commit whose answer is lost is taken to have failed.

  \<^bold>\<open>Not modelled.\<close> In \<open>main.go\<close> the listener, the delivery of signals and the timeouts, which are the Go runtime's; the text of JSON
  responses and of log lines beyond the identifiers they carry; durations and histogram buckets of the metrics; the command line and the
  messages of the generator.
\<close>

end
